(* ===== verification/Prelude.thy ===== *)
theory Prelude
  imports Main "HOL-Library.Word" "HOL-Library.More_List"
begin

text \<open>
  The machine the boot code runs on, and the lemmas every component shares.

  The RTL8197F build (\<^verbatim>\<open>-EL\<close>, MIPS32) is little endian with 32-bit pointers, so an
  \<open>unsigned long\<close> is a \<^typ>\<open>32 word\<close>, an \<open>unsigned short\<close> a \<^typ>\<open>16 word\<close> and a byte an
  \<^typ>\<open>8 word\<close>; \<open>+\<close> wraps on all of them, as it does in the code. Physical memory is a
  total function from addresses to bytes (no access traps on this part).

  The theory holds the byte-order macros of \<^verbatim>\<open>boot/include/linux/byteorder/swab.h\<close>,
  loads and stores of multi-byte values, block reads and writes of memory, and the
  interface \<open>event_machine\<close> through which each component states its invariant.
\<close>

unbundle bit_operations_syntax

section \<open>Types\<close>

type_synonym u8 = "8 word"
type_synonym u16 = "16 word"
type_synonym u32 = "32 word"

type_synonym memory = "u32 \<Rightarrow> u8"
type_synonym buffer = "nat \<Rightarrow> u8" \<comment> \<open>the bytes found from a C pointer on\<close>

named_theorems mem_simps \<open>rewrite rules for block reads and writes of memory\<close>
named_theorems byte_simps \<open>rewrite rules for byte order and multi-byte values\<close>

section \<open>Byte order\<close>

definition le16 :: "u8 \<Rightarrow> u8 \<Rightarrow> u16" where
  "le16 b0 b1 = ucast b0 OR push_bit 8 (ucast b1)"

definition le32 :: "u8 \<Rightarrow> u8 \<Rightarrow> u8 \<Rightarrow> u8 \<Rightarrow> u32" where
  "le32 b0 b1 b2 b3 =
     ucast b0 OR push_bit 8 (ucast b1) OR push_bit 16 (ucast b2) OR push_bit 24 (ucast b3)"

definition bytes16 :: "u16 \<Rightarrow> u8 list" where
  "bytes16 w = [ucast w, ucast (drop_bit 8 w)]"

definition bytes32 :: "u32 \<Rightarrow> u8 list" where
  "bytes32 w = [ucast w, ucast (drop_bit 8 w), ucast (drop_bit 16 w), ucast (drop_bit 24 w)]"

definition swab16 :: "u16 \<Rightarrow> u16" where
  "swab16 x = push_bit 8 (x AND 0x00ff) OR drop_bit 8 (x AND 0xff00)"

definition swab32 :: "u32 \<Rightarrow> u32" where
  "swab32 x = push_bit 24 (x AND 0x000000ff) OR push_bit 8 (x AND 0x0000ff00)
     OR drop_bit 8 (x AND 0x00ff0000) OR drop_bit 24 (x AND 0xff000000)"

text \<open>On a little-endian CPU the host/network conversions are the byte swaps.\<close>

abbreviation htons :: "u16 \<Rightarrow> u16" where "htons \<equiv> swab16"
abbreviation ntohs :: "u16 \<Rightarrow> u16" where "ntohs \<equiv> swab16"
abbreviation htonl :: "u32 \<Rightarrow> u32" where "htonl \<equiv> swab32"
abbreviation ntohl :: "u32 \<Rightarrow> u32" where "ntohl \<equiv> swab32"

text \<open>Bit facts about the swaps: masks become \<open>mask\<close>, positions are compared.\<close>

lemma bit_u8_ge: "8 \<le> n \<Longrightarrow> \<not> bit (a :: u8) n"
  using bit_imp_le_length [of a n] by auto

lemma bit_u16_ge: "16 \<le> n \<Longrightarrow> \<not> bit (a :: u16) n"
  using bit_imp_le_length [of a n] by auto

lemma bit_u32_ge: "32 \<le> n \<Longrightarrow> \<not> bit (a :: u32) n"
  using bit_imp_le_length [of a n] by auto

lemmas bit_ge = bit_u8_ge bit_u16_ge bit_u32_ge

lemma mask_literals:
  "(0x00ff :: u16) = mask 8" "(0xff00 :: u16) = push_bit 8 (mask 8)"
  "(0x000000ff :: u32) = mask 8" "(0x0000ff00 :: u32) = push_bit 8 (mask 8)"
  "(0x00ff0000 :: u32) = push_bit 16 (mask 8)" "(0xff000000 :: u32) = push_bit 24 (mask 8)"
  by (simp_all add: mask_eq_exp_minus_1 push_bit_eq_mult)

lemma swab16_alt: "swab16 x = le16 (ucast (drop_bit 8 x)) (ucast x)"
proof (rule bit_word_eqI)
  fix n :: nat assume "n < LENGTH(16)"
  then show "bit (swab16 x) n = bit (le16 (ucast (drop_bit 8 x)) (ucast x)) n"
    unfolding swab16_def le16_def mask_literals
    by (cases "n < 8") (auto simp: bit_simps bit_ge)
qed

lemma swab32_alt:
  "swab32 x = le32 (ucast (drop_bit 24 x)) (ucast (drop_bit 16 x)) (ucast (drop_bit 8 x)) (ucast x)"
proof (rule bit_word_eqI)
  fix n :: nat assume n: "n < LENGTH(32)"
  consider "n < 8" | "8 \<le> n" "n < 16" | "16 \<le> n" "n < 24" | "24 \<le> n" by linarith
  then show "bit (swab32 x) n =
      bit (le32 (ucast (drop_bit 24 x)) (ucast (drop_bit 16 x)) (ucast (drop_bit 8 x)) (ucast x)) n"
    unfolding swab32_def le32_def mask_literals using n
    by cases (auto simp: bit_simps bit_ge)
qed

lemma le16_parts [simp, byte_simps]:
  "ucast (le16 a b) = a" "ucast (drop_bit 8 (le16 a b)) = b"
  by (rule bit_word_eqI; auto simp: le16_def bit_simps bit_ge)+

lemma le32_parts [simp, byte_simps]:
  "ucast (le32 a b c d) = a" "ucast (drop_bit 8 (le32 a b c d)) = b"
  "ucast (drop_bit 16 (le32 a b c d)) = c" "ucast (drop_bit 24 (le32 a b c d)) = d"
  by (rule bit_word_eqI; auto simp: le32_def bit_simps bit_ge)+

lemma le16_bytes [simp, byte_simps]: "le16 (ucast w) (ucast (drop_bit 8 w)) = w"
  by (rule bit_word_eqI) (auto simp: le16_def bit_simps)

lemma le32_bytes [simp, byte_simps]:
  "le32 (ucast w) (ucast (drop_bit 8 w)) (ucast (drop_bit 16 w)) (ucast (drop_bit 24 w)) = w"
proof (rule bit_word_eqI)
  fix n :: nat assume n: "n < LENGTH(32)"
  consider "n < 8" | "8 \<le> n" "n < 16" | "16 \<le> n" "n < 24" | "24 \<le> n" by linarith
  then show "bit (le32 (ucast w) (ucast (drop_bit 8 w)) (ucast (drop_bit 16 w))
      (ucast (drop_bit 24 w))) n = bit w n"
    unfolding le32_def using n by cases (auto simp: bit_simps bit_ge)
qed

lemma swab16_le16 [simp, byte_simps]: "swab16 (le16 a b) = le16 b a"
  by (simp add: swab16_alt)

lemma swab32_le32 [simp, byte_simps]: "swab32 (le32 a b c d) = le32 d c b a"
  by (simp add: swab32_alt)

lemma swab16_swab16 [simp, byte_simps]: "swab16 (swab16 x) = x"
  by (simp add: swab16_alt)

lemma swab32_swab32 [simp, byte_simps]: "swab32 (swab32 x) = x"
  by (simp add: swab32_alt)

lemma swab16_inject [simp]: "swab16 x = swab16 y \<longleftrightarrow> x = y"
  by (metis swab16_swab16)

lemma swab32_inject [simp]: "swab32 x = swab32 y \<longleftrightarrow> x = y"
  by (metis swab32_swab32)

lemma length_bytes [simp]: "length (bytes16 w) = 2" "length (bytes32 v) = 4"
  by (simp_all add: bytes16_def bytes32_def)

lemma unat_le16: "unat (le16 a b) = unat a + 256 * unat b"
proof -
  have "le16 a b = ucast a + push_bit 8 (ucast b)"
    unfolding le16_def by (rule disjunctive_add [symmetric]) (auto simp: bit_simps bit_ge)
  moreover have "unat a < 256" "unat b < 256"
    using unsigned_less [of a] unsigned_less [of b] by simp_all
  ultimately show ?thesis
    by (simp add: unat_word_ariths push_bit_eq_mult unsigned_ucast_eq take_bit_nat_eq_self)
qed

lemma le16_inject [simp]: "le16 a b = le16 c d \<longleftrightarrow> a = c \<and> b = d"
  by (metis le16_parts)

lemma le32_inject [simp]: "le32 a b c d = le32 e f g h \<longleftrightarrow> a = e \<and> b = f \<and> c = g \<and> d = h"
  by (metis le32_parts)

section \<open>Buffers\<close>

text \<open>
  A buffer is what a C pointer gives access to: a byte for every offset. Bytes past the
  end of the object are whatever the memory holds there.
\<close>

definition get16 :: "buffer \<Rightarrow> nat \<Rightarrow> u16" where
  "get16 p i = le16 (p i) (p (i + 1))"

definition get32 :: "buffer \<Rightarrow> nat \<Rightarrow> u32" where
  "get32 p i = le32 (p i) (p (i + 1)) (p (i + 2)) (p (i + 3))"

definition get_bytes :: "buffer \<Rightarrow> nat \<Rightarrow> nat \<Rightarrow> u8 list" where
  "get_bytes p i n = map (\<lambda>k. p (i + k)) [0..<n]"

lemma length_get_bytes [simp]: "length (get_bytes p i n) = n"
  by (simp add: get_bytes_def)

lemma get_bytes_nth [simp]: "k < n \<Longrightarrow> get_bytes p i n ! k = p (i + k)"
  by (simp add: get_bytes_def)

lemma get_bytes_0 [simp]: "get_bytes p i 0 = []"
  by (simp add: get_bytes_def)

lemma get_bytes_cong: "(\<And>k. k < n \<Longrightarrow> p (i + k) = q (j + k)) \<Longrightarrow> get_bytes p i n = get_bytes q j n"
  by (simp add: get_bytes_def)

section \<open>Memory\<close>

definition load16 :: "memory \<Rightarrow> u32 \<Rightarrow> u16" where
  "load16 m a = le16 (m a) (m (a + 1))"

definition load32 :: "memory \<Rightarrow> u32 \<Rightarrow> u32" where
  "load32 m a = le32 (m a) (m (a + 1)) (m (a + 2)) (m (a + 3))"

primrec read_bytes :: "memory \<Rightarrow> u32 \<Rightarrow> nat \<Rightarrow> u8 list" where
  "read_bytes m a 0 = []"
| "read_bytes m a (Suc n) = m a # read_bytes m (a + 1) n"

primrec write_bytes :: "u32 \<Rightarrow> u8 list \<Rightarrow> memory \<Rightarrow> memory" where
  "write_bytes a [] m = m"
| "write_bytes a (x # xs) m = write_bytes (a + 1) xs (m(a := x))"

text \<open>\<open>in_block a n b\<close>: address \<open>b\<close> lies in the \<open>n\<close> bytes from \<open>a\<close> on (modulo the address space).\<close>

definition in_block :: "u32 \<Rightarrow> nat \<Rightarrow> u32 \<Rightarrow> bool" where
  "in_block a n b \<longleftrightarrow> unat (b - a) < n"

lemma length_read_bytes [simp, mem_simps]: "length (read_bytes m a n) = n"
  by (induction n arbitrary: a) simp_all

lemma read_bytes_Suc_numeral [simp]:
  "read_bytes m a (numeral k) = m a # read_bytes m (a + 1) (pred_numeral k)"
  by (simp add: numeral_eq_Suc)

lemma read_bytes_nth: "k < n \<Longrightarrow> read_bytes m a n ! k = m (a + of_nat k)"
proof (induction n arbitrary: a k)
  case (Suc n)
  then show ?case by (cases k) (simp_all add: add.assoc)
qed simp

lemma read_bytes_append:
  "read_bytes m a (n + k) = read_bytes m a n @ read_bytes m (a + of_nat n) k"
  by (induction n arbitrary: a) (simp_all add: add.assoc)

lemma write_bytes_append [mem_simps]:
  "write_bytes a (xs @ ys) m = write_bytes (a + of_nat (length xs)) ys (write_bytes a xs m)"
  by (induction xs arbitrary: a m) (simp_all add: add.assoc)

lemma write_bytes_snoc: "write_bytes a (xs @ [x]) m = (write_bytes a xs m)(a + of_nat (length xs) := x)"
  by (simp add: write_bytes_append)

lemma in_block_0 [simp]: "\<not> in_block a 0 b"
  by (simp add: in_block_def)

lemma in_block_self [simp]: "in_block a n a \<longleftrightarrow> 0 < n"
  by (simp add: in_block_def)

lemma in_block_nth: "k < n \<Longrightarrow> k < 2 ^ 32 \<Longrightarrow> in_block a n (a + of_nat k)"
  by (simp add: in_block_def unat_of_nat)

lemma in_block_Suc: "in_block a (Suc n) b \<longleftrightarrow> in_block a n b \<or> (n < 2 ^ 32 \<and> b = a + of_nat n)"
proof -
  have "unat (b - a) = n \<longleftrightarrow> n < 2 ^ 32 \<and> b - a = of_nat n"
    using unsigned_less [of "b - a"] by (auto simp: unat_of_nat)
  then show ?thesis
    by (auto simp: in_block_def less_Suc_eq algebra_simps)
qed

lemma write_bytes_outside [mem_simps]:
  "\<not> in_block a (length xs) b \<Longrightarrow> write_bytes a xs m b = m b"
proof (induction xs rule: rev_induct)
  case (snoc x xs)
  have nin: "\<not> in_block a (Suc (length xs)) b" using snoc.prems by simp
  then have "\<not> in_block a (length xs) b" by (simp add: in_block_def)
  moreover have "b \<noteq> a + of_nat (length xs)"
  proof
    assume b: "b = a + of_nat (length xs)"
    have "unat (b - a) \<le> length xs" by (simp add: b unat_of_nat)
    with nin show False by (simp add: in_block_def)
  qed
  ultimately show ?case by (simp add: write_bytes_snoc snoc.IH)
qed simp

lemma write_bytes_nth [mem_simps]:
  "k < length xs \<Longrightarrow> length xs \<le> 2 ^ 32 \<Longrightarrow> write_bytes a xs m (a + of_nat k) = xs ! k"
proof (induction xs rule: rev_induct)
  case (snoc x xs)
  show ?case
  proof (cases "k = length xs")
    case True
    then show ?thesis by (simp add: write_bytes_snoc nth_append)
  next
    case False
    with snoc.prems have k: "k < length xs" by simp
    have "(of_nat k :: u32) \<noteq> of_nat (length xs)"
      using k snoc.prems by (simp add: word_unat_eq_iff unat_of_nat)
    then show ?thesis using k snoc by (simp add: write_bytes_snoc nth_append)
  qed
qed simp

lemma read_write_bytes [simp, mem_simps]:
  "length xs \<le> 2 ^ 32 \<Longrightarrow> read_bytes (write_bytes a xs m) a (length xs) = xs"
  by (rule nth_equalityI) (simp_all add: read_bytes_nth write_bytes_nth)

lemma read_bytes_cong:
  "(\<And>k. k < n \<Longrightarrow> m (a + of_nat k) = m' (b + of_nat k)) \<Longrightarrow> read_bytes m a n = read_bytes m' b n"
  by (rule nth_equalityI) (simp_all add: read_bytes_nth)

lemma in_block_before:
  assumes "k < n" "n + l \<le> 2 ^ 32"
  shows "\<not> in_block (a + of_nat n) l (a + of_nat k)"
proof (cases "l = 0")
  case False
  have diff: "(a + of_nat k) - (a + of_nat n) = 0 - (of_nat (n - k) :: u32)"
    using assms by (simp add: of_nat_diff)
  have "unat (of_nat (n - k) :: u32) = n - k"
    using assms False by (subst unat_of_nat) (intro mod_less, simp)
  then have "unat (0 - (of_nat (n - k) :: u32)) = 2 ^ 32 - (n - k)"
    using assms by (subst unat_sub_if') simp
  then show ?thesis unfolding in_block_def diff using assms by simp
qed simp

text \<open>Data stored behind a block extend it.\<close>

lemma read_write_extend [mem_simps]:
  assumes "n + length xs \<le> 2 ^ 32"
  shows "read_bytes (write_bytes (a + of_nat n) xs m) a (n + length xs) = read_bytes m a n @ xs"
proof -
  have "read_bytes (write_bytes (a + of_nat n) xs m) a n = read_bytes m a n"
    by (rule read_bytes_cong, rule write_bytes_outside, rule in_block_before) (use assms in auto)
  then show ?thesis using assms by (simp add: read_bytes_append)
qed

section \<open>Machines that react to events\<close>

text \<open>
  Every component reacts to a stream of events (packets, console bytes, calls). The
  interface says only that one step keeps an invariant; whole runs then keep it.
\<close>

definition run_events :: "('s \<Rightarrow> 'e \<Rightarrow> 's) \<Rightarrow> 's \<Rightarrow> 'e list \<Rightarrow> 's" where
  "run_events step s es = foldl step s es"

lemma run_events_simps [simp]:
  "run_events step s [] = s"
  "run_events step s (e # es) = run_events step (step s e) es"
  "run_events step s (es @ fs) = run_events step (run_events step s es) fs"
  by (simp_all add: run_events_def)

locale event_machine =
  fixes step :: "'s \<Rightarrow> 'e \<Rightarrow> 's"
    and inv :: "'s \<Rightarrow> bool"
  assumes step_inv: "inv s \<Longrightarrow> inv (step s e)"
begin

lemma run_inv: "inv s \<Longrightarrow> inv (run_events step s es)"
  by (induction es arbitrary: s) (simp_all add: step_inv)

lemma run_prefix_inv: "inv s \<Longrightarrow> es = fs @ gs \<Longrightarrow> inv (run_events step s fs)"
  by (simp add: run_inv)

end

section \<open>Refinement\<close>

text \<open>
  A step relation labels its steps with what an observer sees. A relation between the states of two
  systems that every step of the first keeps, with a step of the second that looks the same,
  carries whole runs over.
\<close>

inductive steps :: "('s \<Rightarrow> 'o \<Rightarrow> 's \<Rightarrow> bool) \<Rightarrow> 's \<Rightarrow> 'o list \<Rightarrow> 's \<Rightarrow> bool" for step where
  steps_nil: "steps step s [] s"
| steps_cons: "step s ob t \<Longrightarrow> steps step t obs u \<Longrightarrow> steps step s (ob # obs) u"

inductive_simps steps_nil_iff [simp]: "steps step s [] t"
inductive_simps steps_cons_iff [simp]: "steps step s (ob # obs) u"

lemma steps_append: "steps step s (obs @ obs') u \<longleftrightarrow> (\<exists>t. steps step s obs t \<and> steps step t obs' u)"
  by (induction obs arbitrary: s) auto

locale simulation =
  fixes cstep :: "'s \<Rightarrow> 'o \<Rightarrow> 's \<Rightarrow> bool"
    and astep :: "'a \<Rightarrow> 'o \<Rightarrow> 'a \<Rightarrow> bool"
    and sim :: "'s \<Rightarrow> 'a \<Rightarrow> bool"
  assumes sim_step: "sim s a \<Longrightarrow> cstep s ob t \<Longrightarrow> \<exists>b. astep a ob b \<and> sim t b"
begin

lemma sim_steps: "steps cstep s obs t \<Longrightarrow> sim s a \<Longrightarrow> \<exists>b. steps astep a obs b \<and> sim t b"
proof (induction s obs t arbitrary: a rule: steps.induct)
  case (steps_cons s ob t obs u)
  then show ?case using sim_step [of s a ob t] by (metis steps_cons_iff)
qed auto

end

end
