(* ===== verification/Inet.thy ===== *)
theory Inet
  imports Prelude
begin

text \<open>
  Frames, headers and the Internet checksum, shared by the TFTP, DHCP and HTTP servers:
  the packed headers of \<^verbatim>\<open>boot/include/etherboot.h\<close> by the offsets of their fields,
  \<open>ipheader_chksum\<close> (\<^verbatim>\<open>boot/init/eth_tftpd.c\<close>) and \<open>prepare_txpkt\<close>
  (\<^verbatim>\<open>boot/init/ethInt_865x.c\<close>). The lemmas relate the code's folding loop to the sum of the
  header's words modulo 65535.
\<close>

section \<open>Constants and layouts\<close>

definition ETH_ALEN :: nat where "ETH_ALEN = 6"
definition ETH_HLEN :: nat where "ETH_HLEN = 14"
definition SIZEOF_IPHDR :: nat where "SIZEOF_IPHDR = 20"
definition SIZEOF_UDPHDR :: nat where "SIZEOF_UDPHDR = 8"
definition SIZEOF_ARP :: nat where "SIZEOF_ARP = 28"
definition FRAME_IP :: u16 where "FRAME_IP = 0x0800"
definition FRAME_ARP :: u16 where "FRAME_ARP = 0x0806"
definition IP_UDP :: u8 where "IP_UDP = 17"
definition IP_TCP :: u8 where "IP_TCP = 6"

lemmas net_consts = ETH_ALEN_def ETH_HLEN_def SIZEOF_IPHDR_def SIZEOF_UDPHDR_def SIZEOF_ARP_def
  FRAME_IP_def FRAME_ARP_def IP_UDP_def IP_TCP_def

text \<open>One entry of \<open>arptable_tftp\<close>: an IP address, held in network byte order, and a MAC.\<close>

record arptable_t =
  ipaddr :: u32
  node :: "u8 list"

text \<open>\<open>IPTOUL\<close> of eth_tftpd.c.\<close>

definition IPTOUL :: "u32 \<Rightarrow> u32 \<Rightarrow> u32 \<Rightarrow> u32 \<Rightarrow> u32" where
  "IPTOUL a b c d = push_bit 24 a OR push_bit 16 b OR push_bit 8 c OR d"

definition buf_of :: "u8 list \<Rightarrow> buffer" where
  "buf_of xs = nth_default 0 xs"

lemma nth_default_Cons_numeral [simp]:
  "nth_default d (x # xs) (numeral k) = nth_default d xs (pred_numeral k)"
  by (simp add: nth_default_Cons numeral_eq_Suc)

lemma buf_of_Cons [simp]:
  "buf_of (x # xs) 0 = x" "buf_of (x # xs) (Suc n) = buf_of xs n"
  "buf_of (x # xs) (numeral k) = buf_of xs (pred_numeral k)"
  by (simp_all add: buf_of_def)

lemma buf_of_nth: "i < length xs \<Longrightarrow> buf_of xs i = xs ! i"
  by (simp add: buf_of_def nth_default_def)

section \<open>The Internet checksum\<close>

primrec chksum_loop :: "nat \<Rightarrow> buffer \<Rightarrow> nat \<Rightarrow> u32 \<Rightarrow> u32" where
  "chksum_loop 0 p i acc = acc"
| "chksum_loop (Suc len) p i acc =
     (let acc = acc + ucast (get16 p i)
      in chksum_loop len p (i + 2) (if acc > 0xFFFF then acc - 0xFFFF else acc))"

definition ipheader_chksum :: "buffer \<Rightarrow> nat \<Rightarrow> u16" where
  "ipheader_chksum p len = ucast (NOT (chksum_loop (len div 2) p 0 0) AND 0x0000FFFF)"

text \<open>What the loop computes: the words added up as numbers.\<close>

definition word_sum :: "nat \<Rightarrow> buffer \<Rightarrow> nat \<Rightarrow> nat" where
  "word_sum n p i = (\<Sum>k<n. unat (get16 p (i + 2 * k)))"

lemma word_sum_Suc: "word_sum (Suc n) p i = unat (get16 p i) + word_sum n p (i + 2)"
  unfolding word_sum_def by (subst sum.lessThan_Suc_shift) simp

lemma unat_u16_bound: "unat (x :: u16) \<le> 65535"
proof -
  have "unat x < 2 ^ LENGTH(16)" by (rule unsigned_less)
  then show ?thesis by simp
qed

lemma unat_ucast_u16 [simp]: "unat (ucast (w :: u16) :: u32) = unat w"
  using unat_u16_bound [of w] by (simp add: unsigned_ucast_eq take_bit_nat_eq_self)

text \<open>One round: the running sum stays below 65536 and keeps its class modulo 65535.\<close>

lemma chksum_round:
  fixes s :: u32 and w :: u16
  assumes "unat s \<le> 65535"
  defines "t \<equiv> s + ucast w"
  defines "r \<equiv> (if t > 0xFFFF then t - 0xFFFF else t)"
  shows "unat r \<le> 65535" "unat r mod 65535 = (unat s + unat w) mod 65535"
    "unat r = 0 \<longleftrightarrow> unat s + unat w = 0"
proof -
  have t: "unat t = unat s + unat w"
    using assms unat_u16_bound [of w] by (simp add: t_def unat_word_ariths)
  have gt: "t > 0xFFFF \<longleftrightarrow> unat t > 65535" by (simp add: word_less_nat_alt)
  have sub: "unat (t - 0xFFFF) = unat t - 65535" if "unat t > 65535"
    using that by (subst unat_sub) (simp_all add: word_le_nat_alt)
  show "unat r \<le> 65535" "unat r = 0 \<longleftrightarrow> unat s + unat w = 0"
    using assms(1) unat_u16_bound [of w] by (auto simp: r_def gt sub t)
  show "unat r mod 65535 = (unat s + unat w) mod 65535"
    using le_mod_geq [of 65535 "unat s + unat w"] by (auto simp: r_def gt sub t)
qed

lemma chksum_loop_sum:
  assumes "unat s \<le> 65535"
  shows "unat (chksum_loop n p i s) \<le> 65535
    \<and> unat (chksum_loop n p i s) mod 65535 = (unat s + word_sum n p i) mod 65535
    \<and> (unat (chksum_loop n p i s) = 0 \<longleftrightarrow> unat s + word_sum n p i = 0)"
  using assms
proof (induction n arbitrary: i s)
  case 0
  then show ?case by (simp add: word_sum_def)
next
  case (Suc n)
  define t where "t = s + ucast (get16 p i)"
  define r where "r = (if t > 0xFFFF then t - 0xFFFF else t)"
  note round = chksum_round [OF Suc.prems, of "get16 p i", folded t_def, folded r_def]
  have step: "chksum_loop (Suc n) p i s = chksum_loop n p (i + 2) r"
    by (simp add: Let_def t_def r_def)
  have "(unat r + word_sum n p (i + 2)) mod 65535
      = (unat s + word_sum (Suc n) p i) mod 65535"
    unfolding word_sum_Suc add.assoc [symmetric]
    by (rule mod_add_cong [OF round(2) refl])
  then show ?case
    using Suc.IH [OF round(1), of "i + 2"] round(3)
    unfolding step word_sum_Suc by (simp del: add_2_eq_Suc' add: ac_simps)
qed

lemma mask_literal_ffff: "(0x0000FFFF :: u32) = mask 16"
  by (simp add: mask_eq_exp_minus_1)

lemma unat_not_and_ffff:
  fixes r :: u32
  assumes "unat r \<le> 65535"
  shows "unat (ucast (NOT r AND 0x0000FFFF) :: u16) = 65535 - unat r"
proof -
  have r: "ucast r = (of_nat (unat r) :: u16)" by simp
  have "(ucast (NOT r AND 0x0000FFFF) :: u16) = NOT (ucast r)"
    by (rule bit_word_eqI) (auto simp: bit_simps mask_literal_ffff)
  then have "unat (ucast (NOT r AND 0x0000FFFF) :: u16) = unat (NOT (ucast r :: u16))" by simp
  also have "\<dots> = 65535 - unat (ucast r :: u16)"
  proof -
    have "NOT (ucast r :: u16) = - 1 - ucast r" by (simp add: not_eq_complement)
    then show ?thesis by (simp add: unat_sub unsigned_minus_1_eq_mask mask_eq_exp_minus_1)
  qed
  also have "unat (ucast r :: u16) = unat r"
    using assms by (simp add: unsigned_ucast_eq take_bit_nat_eq_self)
  finally show ?thesis .
qed

lemma unat_ipheader_chksum:
  "unat (ipheader_chksum p len) = 65535 - unat (chksum_loop (len div 2) p 0 0)"
  unfolding ipheader_chksum_def using chksum_loop_sum [of 0 "len div 2" p 0]
  by (intro unat_not_and_ffff) simp

lemma ipheader_chksum_0_iff:
  "ipheader_chksum p len = 0
    \<longleftrightarrow> 0 < word_sum (len div 2) p 0 \<and> 65535 dvd word_sum (len div 2) p 0"
proof -
  define r where "r = unat (chksum_loop (len div 2) p 0 0)"
  have "r \<le> 65535" "r mod 65535 = word_sum (len div 2) p 0 mod 65535"
    "r = 0 \<longleftrightarrow> word_sum (len div 2) p 0 = 0"
    using chksum_loop_sum [of 0 "len div 2" p 0] by (simp_all add: r_def)
  moreover have "ipheader_chksum p len = 0 \<longleftrightarrow> 65535 \<le> r"
    by (simp add: word_unat_eq_iff unat_ipheader_chksum r_def)
  ultimately show ?thesis
    by (cases "r = 65535") (auto simp: dvd_eq_mod_eq_0)
qed

text \<open>Storing the computed checksum into a zeroed word makes the block sum to zero.\<close>

definition put16 :: "buffer \<Rightarrow> nat \<Rightarrow> u16 \<Rightarrow> buffer" where
  "put16 p i w = p(i := ucast w, i + 1 := ucast (drop_bit 8 w))"

lemma get16_put16_same [simp]: "get16 (put16 p i w) i = w"
  by (simp add: get16_def put16_def)

lemma get16_put16_other [simp]:
  "j + 1 < i \<or> i + 1 < j \<Longrightarrow> get16 (put16 p i w) j = get16 p j"
  by (auto simp: get16_def put16_def)

lemma word_sum_put16:
  assumes "k < n" "get16 p (2 * k) = 0"
  shows "word_sum n (put16 p (2 * k) w) 0 = word_sum n p 0 + unat w"
proof -
  have split: "word_sum n q 0 = unat (get16 q (2 * k)) + (\<Sum>j\<in>{..<n} - {k}. unat (get16 q (2 * j)))" for q
    using assms(1) by (simp add: word_sum_def sum.remove [of "{..<n}" k])
  have "(\<Sum>j\<in>{..<n} - {k}. unat (get16 (put16 p (2 * k) w) (2 * j)))
      = (\<Sum>j\<in>{..<n} - {k}. unat (get16 p (2 * j)))"
    by (rule sum.cong) (auto simp: neq_iff intro!: arg_cong [where f = unat] get16_put16_other)
  then show ?thesis by (simp add: split assms(2))
qed

lemma chksum_fill:
  assumes "k < len div 2" "get16 p (2 * k) = 0"
  shows "ipheader_chksum (put16 p (2 * k) (ipheader_chksum p len)) len = 0"
proof -
  define n where "n = len div 2"
  define r where "r = unat (chksum_loop n p 0 0)"
  have r: "r \<le> 65535" "r mod 65535 = word_sum n p 0 mod 65535" "r = 0 \<longleftrightarrow> word_sum n p 0 = 0"
    using chksum_loop_sum [of 0 n p 0] by (simp_all add: r_def)
  have total: "word_sum n (put16 p (2 * k) (ipheader_chksum p len)) 0 = word_sum n p 0 + (65535 - r)"
    using assms by (simp add: word_sum_put16 unat_ipheader_chksum r_def n_def)
  have "(word_sum n p 0 + (65535 - r)) mod 65535 = (r + (65535 - r)) mod 65535"
    by (rule mod_add_cong) (simp_all add: r(2))
  then have "65535 dvd word_sum n p 0 + (65535 - r)" using r(1) by (simp add: dvd_eq_mod_eq_0)
  moreover have "0 < word_sum n p 0 + (65535 - r)" using r by auto
  ultimately show ?thesis by (simp add: ipheader_chksum_0_iff total flip: n_def)
qed

text \<open>The loop looks at the first \<open>2 * n\<close> bytes only.\<close>

lemma chksum_loop_cong:
  "(\<And>j. i \<le> j \<Longrightarrow> j < i + 2 * n \<Longrightarrow> p j = q j) \<Longrightarrow> chksum_loop n p i s = chksum_loop n q i s"
proof (induction n arbitrary: i s)
  case (Suc n)
  have "get16 p i = get16 q i"
    using Suc.prems by (simp add: get16_def)
  moreover have "chksum_loop n p (i + 2) t = chksum_loop n q (i + 2) t" for t
    using Suc.prems by (intro Suc.IH) simp
  ultimately show ?case by (simp only: chksum_loop.simps)
qed simp

lemma ipheader_chksum_cong:
  "(\<And>j. j < len \<Longrightarrow> p j = q j) \<Longrightarrow> ipheader_chksum p len = ipheader_chksum q len"
proof -
  assume eq: "\<And>j. j < len \<Longrightarrow> p j = q j"
  have "chksum_loop (len div 2) p 0 0 = chksum_loop (len div 2) q 0 0"
    by (rule chksum_loop_cong, rule eq) simp
  then show ?thesis by (simp add: ipheader_chksum_def)
qed

section \<open>Frames the servers send\<close>

text \<open>
  The IP and UDP headers that \<open>tftpd_send_ack\<close>, \<open>tftpd_send_data\<close> and \<open>send_tftp_rrq\<close>
  fill in with the same assignments: the checksum is computed with its field at 0.
\<close>

definition ip_fields :: "u16 \<Rightarrow> u32 \<Rightarrow> u32 \<Rightarrow> u16 \<Rightarrow> u8 list" where
  "ip_fields len src dst chksum =
     [0x45, 0] @ bytes16 (htons len) @ [0, 0] @ [0, 0] @ [60, IP_UDP] @ bytes16 chksum
       @ bytes32 src @ bytes32 dst"

definition ip_header :: "u16 \<Rightarrow> u32 \<Rightarrow> u32 \<Rightarrow> u8 list" where
  "ip_header len src dst =
     ip_fields len src dst (ipheader_chksum (buf_of (ip_fields len src dst 0)) SIZEOF_IPHDR)"

definition udp_header :: "u16 \<Rightarrow> u16 \<Rightarrow> u16 \<Rightarrow> u8 list" where
  "udp_header src dest len =
     bytes16 (htons src) @ bytes16 (htons dest) @ bytes16 (htons len) @ [0, 0]"

lemma length_ip_fields [simp]: "length (ip_fields len src dst ck) = 20"
  by (simp add: ip_fields_def)

lemma length_ip_header [simp]: "length (ip_header len src dst) = 20"
  by (simp add: ip_header_def)

lemma length_udp_header [simp]: "length (udp_header s d len) = 8"
  by (simp add: udp_header_def)

lemma buf_of_append1: "i < length xs \<Longrightarrow> buf_of (xs @ ys) i = buf_of xs i"
  by (simp add: buf_of_def nth_default_def nth_append)

lemma buf_of_append2: "length xs \<le> i \<Longrightarrow> buf_of (xs @ ys) i = buf_of ys (i - length xs)"
  by (auto simp: buf_of_def nth_default_def nth_append)

lemma ip_fields_put16:
  assumes "j < 20"
  shows "buf_of (ip_fields len src dst ck) j = put16 (buf_of (ip_fields len src dst 0)) 10 ck j"
proof -
  define A where "A = [0x45, 0] @ bytes16 (htons len) @ [0, 0, 0, 0, 60, IP_UDP]"
  define D where "D = bytes32 src @ bytes32 dst"
  have A: "length A = 10" by (simp add: A_def)
  have split: "ip_fields len src dst c = A @ bytes16 c @ D" for c
    by (simp add: ip_fields_def A_def D_def)
  consider "j < 10" | "j = 10" | "j = 11" | "12 \<le> j" by linarith
  then show ?thesis
    by cases (simp_all add: split buf_of_append1 buf_of_append2 put16_def A,
      simp_all add: buf_of_def bytes16_def)
qed

text \<open>Every header the servers build passes the test the receiver applies.\<close>

lemma ip_header_verifies: "ipheader_chksum (buf_of (ip_header len src dst @ rest)) SIZEOF_IPHDR = 0"
proof -
  let ?p = "buf_of (ip_fields len src dst 0)"
  let ?ck = "ipheader_chksum ?p SIZEOF_IPHDR"
  have "ipheader_chksum (buf_of (ip_header len src dst @ rest)) SIZEOF_IPHDR
      = ipheader_chksum (put16 ?p (2 * 5) ?ck) SIZEOF_IPHDR"
    by (rule ipheader_chksum_cong)
       (simp add: ip_header_def buf_of_append1 ip_fields_put16 SIZEOF_IPHDR_def)
  also have "\<dots> = 0"
    by (rule chksum_fill)
       (simp_all add: SIZEOF_IPHDR_def get16_def buf_of_def ip_fields_def bytes16_def le16_def)
  finally show ?thesis .
qed

text \<open>
  \<open>prepare_txpkt\<close>: the frame that is copied into the transmit buffer and handed to
  \<open>swNic_send\<close>; \<open>eth0_mac\<close> is the board's address, \<open>data\<close> the first \<open>len\<close> payload bytes.
\<close>

definition prepare_txpkt :: "u8 list \<Rightarrow> u16 \<Rightarrow> u8 list \<Rightarrow> u8 list \<Rightarrow> u8 list" where
  "prepare_txpkt eth0_mac type destaddr data =
     take 6 destaddr @ take 6 eth0_mac @ bytes16 (htons type) @ data"

lemma prepare_txpkt_payload:
  assumes "length dest = 6" "length mac = 6"
  shows "drop 14 (prepare_txpkt mac type dest data) = data"
    "take 6 (prepare_txpkt mac type dest data) = dest"
  using assms by (simp_all add: prepare_txpkt_def)

end
