(* ===== verification/CString.thy ===== *)
theory CString
  imports Prelude "HOL-Library.Sublist"
begin

text \<open>
  The C string library of the boot code: \<^verbatim>\<open>boot/io/string.c\<close> (the functions outside
  \<^verbatim>\<open>#if 0\<close>), \<^verbatim>\<open>boot/io/strtoul.c\<close>, \<^verbatim>\<open>boot/io/strtol.c\<close> and
  \<open>strcasecmp\<close>/\<open>getdec\<close> of \<^verbatim>\<open>boot/io/misc.c\<close>. A pointer is a buffer and an offset;
  a scan for a terminating NUL that may never come is \<open>partial_function (option)\<close>, so
  \<open>None\<close> means that the C function does not return. \<open>is_cstr\<close> says that a NUL-terminated
  string lies at a pointer; under it every function returns and computes the list function
  one expects.
\<close>

section \<open>Strings in memory\<close>

primrec is_cstr :: "buffer \<Rightarrow> nat \<Rightarrow> u8 list \<Rightarrow> bool" where
  "is_cstr p i [] \<longleftrightarrow> p i = 0"
| "is_cstr p i (c # s) \<longleftrightarrow> c \<noteq> 0 \<and> p i = c \<and> is_cstr p (Suc i) s"

lemma is_cstr_nth: "is_cstr p i s \<Longrightarrow> k < length s \<Longrightarrow> p (i + k) = s ! k \<and> s ! k \<noteq> 0"
proof (induction s arbitrary: i k)
  case (Cons c s)
  show ?case
  proof (cases k)
    case (Suc k')
    then show ?thesis using Cons.IH [of "Suc i" k'] Cons.prems by simp
  qed (use Cons.prems in simp)
qed simp

lemma is_cstr_end: "is_cstr p i s \<Longrightarrow> p (i + length s) = 0"
proof (induction s arbitrary: i)
  case (Cons c s)
  then show ?case using Cons.IH [of "Suc i"] by simp
qed simp

lemma is_cstr_drop: "is_cstr p i s \<Longrightarrow> k \<le> length s \<Longrightarrow> is_cstr p (i + k) (drop k s)"
proof (induction k arbitrary: i s)
  case (Suc k)
  then obtain c s' where s: "s = c # s'" by (cases s) auto
  show ?case using Suc.IH [of "Suc i" s'] Suc.prems by (simp add: s)
qed simp

lemma is_cstr_unique: "is_cstr p i s \<Longrightarrow> is_cstr p i t \<Longrightarrow> s = t"
proof (induction s arbitrary: i t)
  case Nil
  then show ?case by (cases t) auto
next
  case (Cons c s)
  then show ?case by (cases t) auto
qed

lemma is_cstr_bytes: "is_cstr p i s \<Longrightarrow> n \<le> length s \<Longrightarrow> get_bytes p i n = take n s"
  using is_cstr_nth [of p i s] by (intro nth_equalityI) simp_all

section \<open>boot/io/string.c\<close>

partial_function (option) strlen_loop :: "buffer \<Rightarrow> nat \<Rightarrow> nat option" where
  "strlen_loop s sc = (if s sc \<noteq> 0 then strlen_loop s (sc + 1) else Some sc)"

definition strlen :: "buffer \<Rightarrow> nat \<Rightarrow> nat option" where
  "strlen p s = map_option (\<lambda>sc. sc - s) (strlen_loop p s)"

text \<open>\<open>__res\<close> is a \<open>signed char\<close>: the difference of the two bytes modulo 256.\<close>

partial_function (option) strcmp :: "buffer \<Rightarrow> nat \<Rightarrow> buffer \<Rightarrow> nat \<Rightarrow> int option" where
  "strcmp p cs q ct =
     (let res = p cs - q ct
      in if res \<noteq> 0 \<or> p cs = 0 then Some (sint res) else strcmp p (cs + 1) q (ct + 1))"

partial_function (option) strchr :: "buffer \<Rightarrow> nat \<Rightarrow> u8 \<Rightarrow> nat option option" where
  "strchr p s c =
     (if p s = c then Some (Some s)
      else if p s = 0 then Some None
      else strchr p (s + 1) c)"

primrec memcmp :: "buffer \<Rightarrow> nat \<Rightarrow> buffer \<Rightarrow> nat \<Rightarrow> nat \<Rightarrow> int" where
  "memcmp p su1 q su2 0 = 0"
| "memcmp p su1 q su2 (Suc count) =
     (let res = p su1 - q su2
      in if res \<noteq> 0 then sint res else memcmp p (su1 + 1) q (su2 + 1) count)"

text \<open>The loop of \<open>strstr\<close>: \<open>l1\<close> counts down, \<open>s1\<close> moves up.\<close>

function strstr_loop :: "buffer \<Rightarrow> nat \<Rightarrow> buffer \<Rightarrow> nat \<Rightarrow> nat \<Rightarrow> nat \<Rightarrow> nat option" where
  "strstr_loop p s1 q s2 l1 l2 =
     (if l1 \<ge> l2 \<and> l2 > 0 then
        (if memcmp p s1 q s2 l2 = 0 then Some s1 else strstr_loop p (s1 + 1) q s2 (l1 - 1) l2)
      else None)"
  by pat_completeness auto
termination
  by (relation "measure (\<lambda>(p, s1, q, s2, l1, l2). l1)") auto

declare strstr_loop.simps [simp del]

definition strstr :: "buffer \<Rightarrow> nat \<Rightarrow> buffer \<Rightarrow> nat \<Rightarrow> nat option option" where
  "strstr p s1 q s2 =
     (case strlen q s2 of None \<Rightarrow> None
      | Some l2 \<Rightarrow>
         (if l2 = 0 then Some (Some s1)
          else (case strlen p s1 of None \<Rightarrow> None
                | Some l1 \<Rightarrow> Some (strstr_loop p s1 q s2 l1 l2))))"

primrec memset :: "memory \<Rightarrow> u32 \<Rightarrow> u8 \<Rightarrow> nat \<Rightarrow> memory" where
  "memset m xs c 0 = m"
| "memset m xs c (Suc count) = memset (m(xs := c)) (xs + 1) c count"

primrec memcpy :: "memory \<Rightarrow> u32 \<Rightarrow> u32 \<Rightarrow> nat \<Rightarrow> memory" where
  "memcpy m tmp s 0 = m"
| "memcpy m tmp s (Suc count) = memcpy (m(tmp := m s)) (tmp + 1) (s + 1) count"

partial_function (option) strcpy :: "memory \<Rightarrow> u32 \<Rightarrow> u32 \<Rightarrow> memory option" where
  "strcpy m dest src =
     (let c = m src; m' = m(dest := c)
      in if c \<noteq> 0 then strcpy m' (dest + 1) (src + 1) else Some m')"

section \<open>Numbers: boot/io/init.c, strtoul.c, strtol.c, misc.c\<close>

definition isspace :: "u8 \<Rightarrow> bool" where
  "isspace ch \<longleftrightarrow> ch - 9 < 5 \<or> ch = 32"

partial_function (option) skip_spaces :: "buffer \<Rightarrow> nat \<Rightarrow> nat option" where
  "skip_spaces p i = (if isspace (p i) then skip_spaces p (i + 1) else Some i)"

text \<open>The digit value of a character, computed in an \<open>unsigned char\<close>.\<close>

definition digit_of :: "u8 \<Rightarrow> u8" where
  "digit_of c = (if c \<ge> 97 then c - 97 + 10
     else if c \<ge> 65 then c - 65 + 10
     else if c \<le> 57 then c - 48 else 0xff)"

text \<open>
  The conversion loop of \<open>strtoul\<close>. The result is the value and where the scan ended;
  \<open>None\<close> in the second place is the return on overflow, which leaves \<open>*endptr\<close> unset.
\<close>

partial_function (option) strtoul_loop :: "buffer \<Rightarrow> nat \<Rightarrow> u8 \<Rightarrow> u32 \<Rightarrow> (u32 \<times> nat option) option" where
  "strtoul_loop p i base v =
     (if p i \<noteq> 0 then
        (let c = digit_of (p i)
         in if c \<ge> base then Some (v, Some i)
            else (let w = v * ucast base
                  in if w < v then Some (0xFFFFFFFF, None)
                     else strtoul_loop p (i + 1) base (w + ucast c)))
      else Some (v, Some i))"

text \<open>The label \<open>skip0x\<close>: an \<open>x\<close> after the \<open>0\<close> selects base 16 and is skipped.\<close>

definition skip0x :: "buffer \<Rightarrow> nat \<Rightarrow> u8 \<Rightarrow> nat \<times> u8" where
  "skip0x p i base = (if p (i + 1) = 120 \<or> p (i + 1) = 88 then (i + 2, 16) else (i, base))"

definition strtoul :: "buffer \<Rightarrow> nat \<Rightarrow> u8 \<Rightarrow> (u32 \<times> nat option) option" where
  "strtoul p nptr base =
     (case skip_spaces p nptr of None \<Rightarrow> None
      | Some i \<Rightarrow>
          (let i = (if p i = 43 then i + 1 else i);
               (i, base) =
                 (if base = 16 \<and> p i = 48 then skip0x p i base
                  else if base = 0 then (if p i = 48 then skip0x p i 8 else (i, 10))
                  else (i, base))
           in strtoul_loop p i base 0))"

definition ABS_LONG_MIN :: u32 where "ABS_LONG_MIN = 2147483648"

definition strtol :: "buffer \<Rightarrow> nat \<Rightarrow> u8 \<Rightarrow> (u32 \<times> nat option) option" where
  "strtol p nptr base =
     (case skip_spaces p nptr of None \<Rightarrow> None
      | Some i \<Rightarrow>
          (let neg = (p i = 45); i = (if neg then i + 1 else i)
           in case strtoul p i base of None \<Rightarrow> None
              | Some (v, endptr) \<Rightarrow>
                  if v \<ge> ABS_LONG_MIN then
                    (if v = ABS_LONG_MIN \<and> neg then Some (v, endptr)
                     else Some (if neg then 0x80000000 else 0x7FFFFFFF, endptr))
                  else Some (if neg then - v else v, endptr)))"

text \<open>\<open>strcasecmp\<close>: bytes are signed; clearing bit 5 before comparing folds more than letters.\<close>

partial_function (option) strcasecmp :: "buffer \<Rightarrow> nat \<Rightarrow> buffer \<Rightarrow> nat \<Rightarrow> int option" where
  "strcasecmp p a q b =
     (if p a \<noteq> 0 \<and> q b \<noteq> 0 \<and> p a AND NOT 0x20 = q b AND NOT 0x20
      then strcasecmp p (a + 1) q (b + 1)
      else Some (sint (p a AND NOT 0x20) - sint (q b AND NOT 0x20)))"

definition is_decdigit :: "u8 \<Rightarrow> bool" where
  "is_decdigit c \<longleftrightarrow> 48 \<le> c \<and> c \<le> 57"

partial_function (option) getdec_loop :: "buffer \<Rightarrow> nat \<Rightarrow> u32 \<Rightarrow> (u32 \<times> nat) option" where
  "getdec_loop b p ret =
     (if is_decdigit (b p) then getdec_loop b (p + 1) (ret * 10 + ucast (b p - 48))
      else Some (ret, p))"

text \<open>\<open>getdec\<close> returns the number and the advanced pointer; -1 leaves the pointer alone.\<close>

definition getdec :: "buffer \<Rightarrow> nat \<Rightarrow> (u32 \<times> nat) option" where
  "getdec b ptr = (if \<not> is_decdigit (b ptr) then Some (- 1, ptr) else getdec_loop b ptr 0)"

subsection \<open>What they compute\<close>

lemma strlen_loop_cstr: "is_cstr p i s \<Longrightarrow> strlen_loop p i = Some (i + length s)"
  by (induction s arbitrary: i) (simp_all add: strlen_loop.simps)

lemma strlen_cstr: "is_cstr p i s \<Longrightarrow> strlen p i = Some (length s)"
  by (simp add: strlen_def strlen_loop_cstr)

lemma sint_eq_0_iff_u8 [simp]: "sint (x :: u8) = 0 \<longleftrightarrow> x = 0"
  by (metis signed_0 signed_word_eqI)

lemma strcmp_cstr:
  "is_cstr p i s \<Longrightarrow> is_cstr q j t \<Longrightarrow> \<exists>r. strcmp p i q j = Some r \<and> (r = 0 \<longleftrightarrow> s = t)"
proof (induction s arbitrary: i j t)
  case Nil
  then show ?case by (cases t) (auto simp: strcmp.simps [of p i q j] Let_def)
next
  case (Cons c s)
  show ?case
  proof (cases t)
    case Nil
    with Cons.prems show ?thesis by (auto simp: strcmp.simps [of p i q j] Let_def)
  next
    case (Cons d t')
    with Cons.prems Cons.IH [of "i + 1" "j + 1" t'] show ?thesis
      by (cases "c = d") (auto simp: strcmp.simps [of p i q j] Let_def)
  qed
qed

lemma strchr_cstr:
  "is_cstr p i s \<Longrightarrow> c \<noteq> 0 \<Longrightarrow> strchr p i c =
    Some (if c \<in> set s then Some (i + length (takeWhile (\<lambda>x. x \<noteq> c) s)) else None)"
  by (induction s arbitrary: i) (auto simp: strchr.simps [of p])

lemma memcmp_0_iff: "memcmp p i q j n = 0 \<longleftrightarrow> (\<forall>k<n. p (i + k) = q (j + k))"
proof (induction n arbitrary: i j)
  case (Suc n)
  have "(\<forall>k<Suc n. p (i + k) = q (j + k)) \<longleftrightarrow> p i = q j \<and> (\<forall>k<n. p (i + 1 + k) = q (j + 1 + k))"
    by (auto simp: less_Suc_eq_0_disj)
  with Suc.IH [of "i + 1" "j + 1"] show ?case by (simp add: Let_def)
qed simp

lemma memcmp_0_iff_bytes: "memcmp p i q j n = 0 \<longleftrightarrow> get_bytes p i n = get_bytes q j n"
  by (auto simp: memcmp_0_iff list_eq_iff_nth_eq)

lemma strstr_loop_None:
  "strstr_loop p s1 q s2 l1 l2 = None \<longleftrightarrow>
     l2 = 0 \<or> (\<forall>k. k + l2 \<le> l1 \<longrightarrow> memcmp p (s1 + k) q s2 l2 \<noteq> 0)"
proof (induction p s1 q s2 l1 l2 rule: strstr_loop.induct)
  case (1 p s1 q s2 l1 l2)
  show ?case
  proof (cases "l1 \<ge> l2 \<and> l2 > 0 \<and> memcmp p s1 q s2 l2 \<noteq> 0")
    case True
    have "(\<forall>k. k + l2 \<le> l1 \<longrightarrow> memcmp p (s1 + k) q s2 l2 \<noteq> 0) \<longleftrightarrow>
        (\<forall>k. k + l2 \<le> l1 - 1 \<longrightarrow> memcmp p (s1 + 1 + k) q s2 l2 \<noteq> 0)" (is "?L \<longleftrightarrow> ?R")
    proof
      assume ?L
      show ?R
      proof (intro allI impI)
        fix k assume "k + l2 \<le> l1 - 1"
        with True have "Suc k + l2 \<le> l1" by linarith
        with \<open>?L\<close> show "memcmp p (s1 + 1 + k) q s2 l2 \<noteq> 0" by fastforce
      qed
    next
      assume R: ?R
      show ?L
      proof (intro allI impI)
        fix k assume "k + l2 \<le> l1"
        then show "memcmp p (s1 + k) q s2 l2 \<noteq> 0"
          using True R by (cases k) auto
      qed
    qed
    with True 1 show ?thesis by (simp add: strstr_loop.simps [of p s1])
  next
    case False
    then consider "l2 = 0" | "l1 < l2" | "l2 \<le> l1" "0 < l2" "memcmp p s1 q s2 l2 = 0" by linarith
    then show ?thesis
    proof cases
      case 3
      then have "0 + l2 \<le> l1 \<and> memcmp p (s1 + 0) q s2 l2 = 0" by simp
      then have "\<exists>k. k + l2 \<le> l1 \<and> memcmp p (s1 + k) q s2 l2 = 0" by (rule exI)
      then show ?thesis using 3 by (auto simp: strstr_loop.simps [of p s1])
    qed (auto simp: strstr_loop.simps [of p s1])
  qed
qed

lemma cstr_sublist_iff:
  assumes "is_cstr p i s" "is_cstr q j t"
  shows "sublist t s \<longleftrightarrow> (\<exists>k. k + length t \<le> length s \<and> memcmp p (i + k) q j (length t) = 0)"
proof -
  have q: "get_bytes q j (length t) = t"
    using is_cstr_bytes [OF assms(2), of "length t"] by simp
  have p: "get_bytes p (i + k) (length t) = take (length t) (drop k s)" if "k + length t \<le> length s" for k
    using that is_cstr_bytes [OF is_cstr_drop [OF assms(1)], of k "length t"] by simp
  have "sublist t s \<longleftrightarrow> (\<exists>k. k + length t \<le> length s \<and> take (length t) (drop k s) = t)"
  proof
    assume "sublist t s"
    then obtain a b where "s = a @ t @ b" by (auto simp: sublist_def)
    then show "\<exists>k. k + length t \<le> length s \<and> take (length t) (drop k s) = t"
      by (intro exI [of _ "length a"]) simp
  next
    assume "\<exists>k. k + length t \<le> length s \<and> take (length t) (drop k s) = t"
    then obtain k where "take (length t) (drop k s) = t" by blast
    then have "s = take k s @ t @ drop (length t) (drop k s)"
      by (metis append_take_drop_id)
    then show "sublist t s" unfolding sublist_def by blast
  qed
  then show ?thesis by (auto simp: memcmp_0_iff_bytes p q)
qed

lemma strstr_cstr:
  assumes "is_cstr p i s" "is_cstr q j t"
  shows "\<exists>r. strstr p i q j = Some r \<and> (r \<noteq> None \<longleftrightarrow> sublist t s)"
proof (cases "t = []")
  case True
  then show ?thesis using strlen_cstr [OF assms(2)] by (simp add: strstr_def)
next
  case False
  then show ?thesis
    using assms strstr_loop_None [of p i q j "length s" "length t"]
    by (auto simp: strstr_def strlen_cstr cstr_sublist_iff)
qed

lemma memset_write: "memset m a c n = write_bytes a (replicate n c) m"
  by (induction n arbitrary: m a) simp_all

lemma in_block_tail: "b \<noteq> d \<Longrightarrow> in_block (d + 1) n b \<longleftrightarrow> in_block d (Suc n) b"
  using unat_minus_one [of "b - d"] unat_gt_0 [of "b - d"]
  by (auto simp: in_block_def diff_diff_eq)

text \<open>Copying forwards is a block write when the destination does not run into the source.\<close>

lemma memcpy_write:
  "(\<And>k. k < n \<Longrightarrow> \<not> in_block d n (s + of_nat k)) \<Longrightarrow> n \<le> 2 ^ 32
    \<Longrightarrow> memcpy m d s n = write_bytes d (read_bytes m s n) m"
proof (induction n arbitrary: m d s)
  case (Suc n)
  let ?m = "m(d := m s)"
  have ne: "s + of_nat k \<noteq> d" if "k < Suc n" for k
    using Suc.prems(1) [OF that] by auto
  have "memcpy ?m (d + 1) (s + 1) n = write_bytes (d + 1) (read_bytes ?m (s + 1) n) ?m"
  proof (rule Suc.IH)
    fix k assume "k < n"
    then have "\<not> in_block d (Suc n) (s + of_nat (Suc k))" by (intro Suc.prems(1)) simp
    moreover have "s + of_nat (Suc k) \<noteq> d" using \<open>k < n\<close> by (intro ne) simp
    ultimately show "\<not> in_block (d + 1) n (s + 1 + of_nat k)"
      using in_block_tail [of "s + of_nat (Suc k)" d n] by (simp add: algebra_simps)
  qed (use Suc.prems(2) in simp)
  moreover have "read_bytes ?m (s + 1) n = read_bytes m (s + 1) n"
  proof (rule read_bytes_cong)
    fix k assume "k < n"
    then have "s + of_nat (Suc k) \<noteq> d" by (intro ne) simp
    then show "?m (s + 1 + of_nat k) = m (s + 1 + of_nat k)" by (simp add: add.assoc)
  qed
  ultimately show ?case by simp
qed simp

subsection \<open>Numerals\<close>

text \<open>
  The value of a digit string, and \<open>numeral_at\<close>: at \<open>i\<close> stand digits of the base with
  these values, followed by a byte that is no digit of the base.
\<close>

definition num_value :: "nat \<Rightarrow> nat \<Rightarrow> nat list \<Rightarrow> nat" where
  "num_value b v ds = foldl (\<lambda>v d. v * b + d) v ds"

lemma num_value_simps [simp]:
  "num_value b v [] = v" "num_value b v (d # ds) = num_value b (v * b + d) ds"
  by (simp_all add: num_value_def)

lemma num_value_ge: "1 \<le> b \<Longrightarrow> v \<le> num_value b v ds"
proof (induction ds arbitrary: v)
  case (Cons d ds)
  have "v \<le> v * b + d" using Cons.prems by (simp add: trans_le_add1)
  with Cons show ?case using le_trans num_value_simps(2) by metis
qed simp

primrec numeral_at :: "buffer \<Rightarrow> nat \<Rightarrow> u8 \<Rightarrow> nat list \<Rightarrow> bool" where
  "numeral_at p i base [] \<longleftrightarrow> p i = 0 \<or> digit_of (p i) \<ge> base"
| "numeral_at p i base (d # ds) \<longleftrightarrow>
     p i \<noteq> 0 \<and> digit_of (p i) < base \<and> d = unat (digit_of (p i)) \<and> numeral_at p (Suc i) base ds"

lemma unat_u8_bound: "unat (x :: u8) \<le> 255"
proof -
  have "unat x < 2 ^ LENGTH(8)" by (rule unsigned_less)
  then show ?thesis by simp
qed

lemma unat_ucast_u8 [simp]: "unat (ucast (w :: u8) :: u32) = unat w"
  using unat_u8_bound [of w] by (simp add: unsigned_ucast_eq take_bit_nat_eq_self)

lemma strtoul_loop_value:
  "numeral_at p i base ds \<Longrightarrow> 1 \<le> base \<Longrightarrow> num_value (unat base) (unat v) ds < 2 ^ 32
    \<Longrightarrow> strtoul_loop p i base v =
        Some (of_nat (num_value (unat base) (unat v) ds), Some (i + length ds))"
proof (induction ds arbitrary: i v)
  case Nil
  then show ?case by (auto simp: strtoul_loop.simps [of p i] Let_def)
next
  case (Cons d ds)
  let ?b = "unat base" and ?c = "digit_of (p i)"
  have b: "1 \<le> ?b" using Cons.prems(2) by (simp add: word_le_nat_alt)
  have "unat v * ?b + d \<le> num_value ?b (unat v) (d # ds)"
    using num_value_ge [OF b] by simp
  with Cons.prems(3) have lt: "unat v * ?b + d < 2 ^ 32" by linarith
  have w: "unat (v * ucast base) = unat v * ?b"
    using lt by (simp add: unat_word_ariths)
  have wc: "unat (v * ucast base + ucast ?c) = unat v * ?b + d"
    using lt Cons.prems(1) w by (simp add: unat_word_ariths(1))
  have "\<not> v * ucast base < v"
    using b by (simp add: word_less_nat_alt w)
  then have "strtoul_loop p i base v = strtoul_loop p (Suc i) base (v * ucast base + ucast ?c)"
    using Cons.prems(1) by (auto simp: strtoul_loop.simps [of p i] Let_def)
  also have "\<dots> = Some (of_nat (num_value ?b (unat v) (d # ds)), Some (i + length (d # ds)))"
    using Cons.IH [of "Suc i" "v * ucast base + ucast ?c"] Cons.prems by (simp add: wc)
  finally show ?case .
qed

text \<open>A numeral of base 10, or of base 16 without prefix, converts to its value.\<close>

lemma skip_spaces_done: "\<not> isspace (p i) \<Longrightarrow> skip_spaces p i = Some i"
  by (simp add: skip_spaces.simps)

lemma isspace_unat: "isspace c \<longleftrightarrow> (9 \<le> unat c \<and> unat c \<le> 13) \<or> unat c = 32"
proof (cases "9 \<le> unat c")
  case True
  then have "unat (c - 9) = unat c - 9" by (subst unat_sub) (simp_all add: word_le_nat_alt)
  moreover have "c = 32 \<longleftrightarrow> unat c = 32" by (simp add: word_unat_eq_iff)
  ultimately show ?thesis using True by (auto simp: isspace_def word_less_nat_alt)
next
  case False
  have "unat (c - 9) = 2 ^ 8 + unat c - 9"
    using False by (simp add: unat_sub_if_size word_size)
  moreover have "c = 32 \<longleftrightarrow> unat c = 32" by (simp add: word_unat_eq_iff)
  ultimately show ?thesis using False by (auto simp: isspace_def word_less_nat_alt)
qed

lemma digit_small: "digit_of c < 16 \<Longrightarrow> 48 \<le> unat c"
proof (rule ccontr)
  assume d: "digit_of c < 16" and "\<not> 48 \<le> unat c"
  then have c: "unat c < 48" by simp
  then have "digit_of c = c - 48" by (simp add: digit_of_def word_le_nat_alt)
  moreover have "unat (c - 48) = 2 ^ 8 + unat c - 48"
    using c by (simp add: unat_sub_if_size word_size)
  ultimately show False using d by (simp add: word_less_nat_alt)
qed

lemma digit_no_space:
  assumes "digit_of c < base" "base \<le> 16"
  shows "\<not> isspace c" "c \<noteq> 43" "c \<noteq> 45" "c \<noteq> 0"
  using digit_small [of c] assms by (auto simp: isspace_unat dest: less_le_trans)

lemma strtoul_numeral:
  assumes num: "numeral_at p i base (d # ds)" and base: "base = 10 \<or> base = 16"
    and no_prefix: "base = 16 \<longrightarrow> p i \<noteq> 48 \<or> (p (i + 1) \<noteq> 120 \<and> p (i + 1) \<noteq> 88)"
    and fits: "num_value (unat base) 0 (d # ds) < 2 ^ 32"
  shows "strtoul p i base =
    Some (of_nat (num_value (unat base) 0 (d # ds)), Some (i + length (d # ds)))"
proof -
  have "digit_of (p i) < base" "base \<le> 16" "1 \<le> base" using num base by auto
  then have "\<not> isspace (p i)" "p i \<noteq> 43" using digit_no_space by blast+
  moreover have "skip0x p i base = (i, base)" if "base = 16" "p i = 48"
    using no_prefix that by (simp add: skip0x_def)
  ultimately have "strtoul p i base = strtoul_loop p i base 0"
    using base by (auto simp: strtoul_def skip_spaces_done)
  then show ?thesis
    using strtoul_loop_value [OF num \<open>1 \<le> base\<close>, of 0] fits by simp
qed

text \<open>With the prefix \<^verbatim>\<open>0x\<close>, \<open>strtoul\<close> reads the hexadecimal digits after it in base 16 and
  in base 0 alike: the value is that of the digits as long as it fits 32 bits, and the end pointer
  is just behind them.\<close>

theorem strtoul_prefixed:
  assumes "p i = 48" "p (i + 1) = 120 \<or> p (i + 1) = 88" "base = 16 \<or> base = 0"
    and num: "numeral_at p (i + 2) 16 ds" and fits: "num_value 16 0 ds < 2 ^ 32"
  shows "strtoul p i base = Some (of_nat (num_value 16 0 ds), Some (i + 2 + length ds))"
proof -
  have "\<not> isspace (p i)" using assms(1) by (simp add: isspace_unat)
  then have "strtoul p i base = strtoul_loop p (i + 2) 16 0"
    using assms(1-3) by (auto simp: strtoul_def skip_spaces_done skip0x_def)
  then show ?thesis
    using strtoul_loop_value [OF num, of 0] fits by simp
qed

lemma strtoul_prefixed_witness:
  "strtoul ((\<lambda>_. 0)(0 := 48, 1 := 120, 2 := 65, 3 := 48, 4 := 98, 5 := 49)) 0 0 = Some (0xA0B1, Some 6)"
  using strtoul_prefixed [of "(\<lambda>_. 0)(0 := 48, 1 := 120, 2 := 65, 3 := 48, 4 := 98, 5 := 49)" 0 0 "[10, 0, 11, 1]"]
  by (simp add: digit_of_def word_less_nat_alt)

text \<open>A decimal numeral below two to the 31st, followed by a byte that is no digit, is read by
  \<open>strtol\<close> as its value: this is how the web server reads \<^verbatim>\<open>Content-Length\<close>.\<close>

theorem strtol_numeral:
  assumes num: "numeral_at p i 10 (d # ds)" and fits: "num_value 10 0 (d # ds) < 2 ^ 31"
  shows "strtol p i 10 = Some (of_nat (num_value 10 0 (d # ds)), Some (i + length (d # ds)))"
proof -
  have "digit_of (p i) < 10" using num by simp
  then have "\<not> isspace (p i)" "p i \<noteq> 45" using digit_no_space [of "p i" 10] by simp_all
  then show ?thesis
    using strtoul_numeral [OF num] fits
    by (simp add: strtol_def skip_spaces_done ABS_LONG_MIN_def word_le_nat_alt unat_of_nat)
qed

lemma strtol_numeral_witness: "strtol ((\<lambda>_. 0)(0 := 49, 1 := 50, 2 := 48, 3 := 13)) 0 10 = Some (120, Some 3)"
  using strtol_numeral [of "(\<lambda>_. 0)(0 := 49, 1 := 50, 2 := 48, 3 := 13)" 0 1 "[2, 0]"]
  by (simp add: digit_of_def word_less_nat_alt word_le_nat_alt)

text \<open>The overflow test compares the wrapped product with the old value and so misses overflows:
  \<^verbatim>\<open>123456780\<close> in base 16 does not fit 32 bits, but is read as \<open>0x23456780\<close>.\<close>

theorem strtoul_overflow_missed:
  "strtoul ((\<lambda>_. 0)(0 := 49, 1 := 50, 2 := 51, 3 := 52, 4 := 53, 5 := 54, 6 := 55, 7 := 56, 8 := 48)) 0 16
     = Some (0x23456780, Some 9)"
  by (simp add: strtoul_def skip_spaces.simps isspace_def strtoul_loop.simps digit_of_def word_le_nat_alt
      word_less_nat_alt)

end
