(* ===== verification/Flash.thy ===== *)
theory Flash
  imports Prelude
begin

text \<open>
  The SPI flash driver \<^verbatim>\<open>boot/flash/m25p80.c\<close>: waiting for the chip, sector erase, page
  program, read, and the two entry points \<open>flashread\<close> and \<open>spi_flw_image\<close> the boot code
  uses. The NOR chip itself belongs to the machine, as memory does: commands are ignored while
  it is busy, erase and program need the write-enable latch and drop it, programming only
  clears bits and wraps inside a page, and address bits above the chip size are ignored.
  The transfers of \<^verbatim>\<open>boot/flash/spi.c\<close> appear as \<open>spi_write\<close> and friends below:
  they carry a command and its data to the chip, or fail (\<open>spi_ok\<close> is false).
\<close>

section \<open>The chip\<close>

record nor =
  cells :: "nat \<Rightarrow> u8"
  nor_size :: nat       \<comment> \<open>bytes\<close>
  nor_page :: nat
  nor_sector :: nat
  pp_op :: u8           \<comment> \<open>opcode of page program\<close>
  se_op :: u8           \<comment> \<open>opcode of sector erase\<close>
  wel :: bool           \<comment> \<open>write enable latch\<close>
  busy :: nat           \<comment> \<open>status polls until the current operation is done\<close>
  op_time :: nat

definition OPCODE_WREN :: u8 where "OPCODE_WREN = 0x06"
definition OPCODE_CHIP_ERASE :: u8 where "OPCODE_CHIP_ERASE = 0xc7"
definition SR_WIP :: u8 where "SR_WIP = 1"

primrec prog_bytes :: "nat \<Rightarrow> nat \<Rightarrow> nat \<Rightarrow> u8 list \<Rightarrow> (nat \<Rightarrow> u8) \<Rightarrow> (nat \<Rightarrow> u8)" where
  "prog_bytes page a k [] c = c"
| "prog_bytes page a k (d # ds) c =
     (let p = a - a mod page + (a mod page + k) mod page
      in prog_bytes page a (Suc k) ds (c(p := c p AND d)))"

definition nor_addr :: "nor \<Rightarrow> u8 list \<Rightarrow> nat" where
  "nor_addr n bs = foldl (\<lambda>a b. 256 * a + unat b) 0 bs mod nor_size n"

definition nor_exec :: "nor \<Rightarrow> u8 list \<Rightarrow> u8 list \<Rightarrow> nor" where
  "nor_exec n cmd txdata =
     (if busy n > 0 then n
      else if hd cmd = OPCODE_WREN then n\<lparr>wel := True\<rparr>
      else if \<not> wel n then n
      else if hd cmd = OPCODE_CHIP_ERASE then
        n\<lparr>cells := (\<lambda>a. 0xFF), wel := False, busy := op_time n\<rparr>
      else if hd cmd = se_op n then
        (let s = nor_addr n (tl cmd) div nor_sector n
         in n\<lparr>cells := (\<lambda>a. if a div nor_sector n = s then 0xFF else cells n a),
              wel := False, busy := op_time n\<rparr>)
      else if hd cmd = pp_op n then
        n\<lparr>cells := prog_bytes (nor_page n) (nor_addr n (tl cmd)) 0 txdata (cells n),
          wel := False, busy := op_time n\<rparr>
      else n)"

definition nor_read :: "nor \<Rightarrow> u8 list \<Rightarrow> nat \<Rightarrow> u8 list" where
  "nor_read n cmd len = map (\<lambda>k. cells n ((nor_addr n (tl cmd) + k) mod nor_size n)) [0..<len]"

definition nor_status :: "nor \<Rightarrow> u8 \<times> nor" where
  "nor_status n = ((if busy n > 0 then SR_WIP else 0) OR (if wel n then 2 else 0),
     n\<lparr>busy := busy n - 1\<rparr>)"

section \<open>The driver\<close>

text \<open>\<open>struct m25p\<close>, as far as the operations below look at it.\<close>

record m25p =
  chip :: nor
  spi_ok :: bool
  page_size :: u32
  addr_width :: nat
  erase_opcode :: u8
  read_opcode :: u8
  program_opcode :: u8
  mtd_size :: u32
  erasesize :: u32

definition spi_write :: "m25p \<Rightarrow> u8 list \<Rightarrow> u8 list \<Rightarrow> m25p" where
  "spi_write fl cmd txdata = (if spi_ok fl then fl\<lparr>chip := nor_exec (chip fl) cmd txdata\<rparr> else fl)"

text \<open>\<open>None\<close> is a negative return value.\<close>

definition read_sr :: "m25p \<Rightarrow> u8 option \<times> m25p" where
  "read_sr fl = (if spi_ok fl then (Some (fst (nor_status (chip fl))), fl\<lparr>chip := snd (nor_status (chip fl))\<rparr>)
                 else (None, fl))"

definition write_enable :: "m25p \<Rightarrow> m25p" where
  "write_enable fl = spi_write fl [OPCODE_WREN] []"

lemma read_sr_wip:
  "read_sr fl = (Some sr, fl') \<Longrightarrow> sr AND SR_WIP \<noteq> 0 \<Longrightarrow> busy (chip fl') < busy (chip fl)"
  by (auto simp: read_sr_def nor_status_def SR_WIP_def split: if_splits)

function wait_till_ready :: "m25p \<Rightarrow> int \<times> m25p" where
  "wait_till_ready fl =
     (case read_sr fl of
        (None, fl') \<Rightarrow> (1, fl')
      | (Some sr, fl') \<Rightarrow> if sr AND SR_WIP = 0 then (0, fl') else wait_till_ready fl')"
  by pat_completeness auto
termination
  by (relation "measure (\<lambda>fl. busy (chip fl))") (simp_all add: read_sr_wip [OF sym])

declare wait_till_ready.simps [simp del]

definition erase_chip :: "m25p \<Rightarrow> int \<times> m25p" where
  "erase_chip fl =
     (let (r, fl) = wait_till_ready fl
      in if r \<noteq> 0 then (1, fl)
         else (0, spi_write (write_enable fl) [OPCODE_CHIP_ERASE] []))"

definition m25p_addr2cmd :: "m25p \<Rightarrow> u32 \<Rightarrow> u8 list" where
  "m25p_addr2cmd fl addr =
     [ucast (drop_bit (addr_width fl * 8 - 8) addr), ucast (drop_bit (addr_width fl * 8 - 16) addr),
      ucast (drop_bit (addr_width fl * 8 - 24) addr), ucast (drop_bit (addr_width fl * 8 - 32) addr)]"

definition m25p_cmdsz :: "m25p \<Rightarrow> nat" where
  "m25p_cmdsz fl = 1 + addr_width fl"

text \<open>The first \<open>m25p_cmdsz\<close> bytes of the command buffer go out.\<close>

definition m25p_cmd :: "m25p \<Rightarrow> u8 \<Rightarrow> u32 \<Rightarrow> u8 list" where
  "m25p_cmd fl opcode addr = take (m25p_cmdsz fl) (opcode # m25p_addr2cmd fl addr)"

definition erase_sector :: "m25p \<Rightarrow> u32 \<Rightarrow> int \<times> m25p" where
  "erase_sector fl offset =
     (let (r, fl) = wait_till_ready fl
      in if r \<noteq> 0 then (1, fl)
         else (0, spi_write (write_enable fl) (m25p_cmd fl (erase_opcode fl) offset) []))"

text \<open>The \<open>while (len)\<close> loop, once per sector: \<open>len\<close> is a multiple of \<open>erasesize\<close> here.\<close>

primrec erase_sectors :: "m25p \<Rightarrow> u32 \<Rightarrow> nat \<Rightarrow> int \<times> m25p" where
  "erase_sectors fl addr 0 = (0, fl)"
| "erase_sectors fl addr (Suc n) =
     (let (r, fl') = erase_sector fl addr
      in if r \<noteq> 0 then (- 5, fl') else erase_sectors fl' (addr + erasesize fl) n)"

definition m25p80_erase :: "m25p \<Rightarrow> u32 \<Rightarrow> u32 \<Rightarrow> int \<times> m25p" where
  "m25p80_erase fl addr len =
     (if len mod erasesize fl \<noteq> 0 then (- 22, fl)
      else if len = mtd_size fl then
        (let (r, fl) = erase_chip fl in if r \<noteq> 0 then (- 5, fl) else (0, fl))
      else erase_sectors fl addr (unat (len div erasesize fl)))"

definition m25p80_read :: "m25p \<Rightarrow> u32 \<Rightarrow> u32 \<Rightarrow> u32 \<Rightarrow> memory \<Rightarrow> int \<times> m25p \<times> memory" where
  "m25p80_read fl src len buf m =
     (let (r, fl) = wait_till_ready fl
      in if r \<noteq> 0 then (1, fl, m)
         else (0, fl, write_bytes buf (nor_read (chip fl) (m25p_cmd fl (read_opcode fl) src) (unat len)) m))"

text \<open>
  The loop over the following pages; \<open>i\<close> is the number of bytes written so far. Every entry of
  the chip table has a page size of at least one byte, without which the loop would not end.
\<close>

function write_pages :: "m25p \<Rightarrow> u32 \<Rightarrow> nat \<Rightarrow> memory \<Rightarrow> u32 \<Rightarrow> nat \<Rightarrow> m25p" where
  "write_pages fl to len m buf i =
     (if i < len \<and> 0 < page_size fl then
        (let ps = min (len - i) (unat (page_size fl));
             cmd = m25p_cmd fl (program_opcode fl) (to + of_nat i);
             (r, fl1) = wait_till_ready fl;
             fl2 = spi_write (write_enable fl1) cmd (read_bytes m (buf + of_nat i) ps)
         in write_pages fl2 to len m buf (i + ps))
      else fl)"
  by pat_completeness auto
termination
  by (relation "measure (\<lambda>(fl, to, len, m, buf, i). len - i)") (auto simp: word_less_nat_alt)

declare write_pages.simps [simp del]

definition m25p80_write :: "m25p \<Rightarrow> u32 \<Rightarrow> u32 \<Rightarrow> memory \<Rightarrow> u32 \<Rightarrow> int \<times> m25p" where
  "m25p80_write fl to len m buf =
     (let (r, fl) = wait_till_ready fl
      in if r \<noteq> 0 then (1, fl)
         else
           (let fl = write_enable fl;
                cmd = m25p_cmd fl (program_opcode fl) to;
                page_offset = to AND (page_size fl - 1)
            in if page_offset + len \<le> page_size fl
               then (0, spi_write fl cmd (read_bytes m buf (unat len)))
               else (let ps = unat (page_size fl - page_offset);
                         fl = spi_write fl cmd (read_bytes m buf ps)
                     in (0, write_pages fl to (unat len) m buf ps))))"

text \<open>\<open>flashread\<close> and \<open>spi_flw_image\<close> return whether they succeeded.\<close>

definition flashread :: "m25p \<Rightarrow> u32 \<Rightarrow> u32 \<Rightarrow> u32 \<Rightarrow> memory \<Rightarrow> bool \<times> m25p \<times> memory" where
  "flashread fl dst src len m =
     (let (ret, fl, m) = m25p80_read fl src len dst m in (ret = 0, fl, m))"

definition spi_flw_image :: "m25p \<Rightarrow> u32 \<Rightarrow> u32 \<Rightarrow> u32 \<Rightarrow> memory \<Rightarrow> bool \<times> m25p" where
  "spi_flw_image fl flash_addr_offset image_addr image_size m =
     (let begin_s = flash_addr_offset div erasesize fl;
          end_s = (flash_addr_offset + image_size) div erasesize fl;
          er_addr = begin_s * erasesize fl;
          er_len = (end_s - begin_s + 1) * erasesize fl;
          (ret, fl) = m25p80_erase fl er_addr er_len
      in if ret = 0
         then (let (ret, fl) = m25p80_write fl flash_addr_offset image_size m image_addr in (ret = 0, fl))
         else (False, fl))"

section \<open>What the driver does to the chip\<close>

text \<open>A driver whose description matches the chip on the bus.\<close>

definition m25p_ok :: "m25p \<Rightarrow> bool" where
  "m25p_ok fl \<longleftrightarrow> spi_ok fl
     \<and> (addr_width fl = 3 \<and> nor_size (chip fl) dvd 2 ^ 24 \<or> addr_width fl = 4 \<and> nor_size (chip fl) dvd 2 ^ 28)
     \<and> unat (mtd_size fl) = nor_size (chip fl)
     \<and> unat (erasesize fl) = nor_sector (chip fl) \<and> nor_sector (chip fl) dvd nor_size (chip fl)
     \<and> unat (page_size fl) = nor_page (chip fl) \<and> nor_page (chip fl) dvd nor_size (chip fl)
     \<and> nor_page (chip fl) \<in> (\<lambda>k. 2 ^ k) ` {..<16}
     \<and> 0 < nor_size (chip fl)
     \<and> erase_opcode fl = se_op (chip fl) \<and> program_opcode fl = pp_op (chip fl)
     \<and> se_op (chip fl) \<notin> {OPCODE_WREN, OPCODE_CHIP_ERASE}
     \<and> pp_op (chip fl) \<notin> {OPCODE_WREN, OPCODE_CHIP_ERASE, se_op (chip fl)}"

definition ready :: "m25p \<Rightarrow> m25p" where
  "ready fl = fl\<lparr>chip := (chip fl)\<lparr>busy := 0\<rparr>\<rparr>"

definition with_cells :: "m25p \<Rightarrow> (nat \<Rightarrow> u8) \<Rightarrow> m25p" where
  "with_cells fl c = fl\<lparr>chip := (chip fl)\<lparr>cells := c, wel := False, busy := op_time (chip fl)\<rparr>\<rparr>"

lemma with_cells_simps [simp]:
  "cells (chip (with_cells fl c)) = c" "with_cells (with_cells fl c) d = with_cells fl d"
  "with_cells (ready fl) c = with_cells fl c" "cells (chip (ready fl)) = cells (chip fl)"
  by (simp_all add: with_cells_def ready_def)

lemma with_cells_fields [simp]:
  "spi_ok (with_cells fl c) = spi_ok fl" "page_size (with_cells fl c) = page_size fl"
  "addr_width (with_cells fl c) = addr_width fl" "erase_opcode (with_cells fl c) = erase_opcode fl"
  "program_opcode (with_cells fl c) = program_opcode fl" "mtd_size (with_cells fl c) = mtd_size fl"
  "read_opcode (with_cells fl c) = read_opcode fl"
  "erasesize (with_cells fl c) = erasesize fl"
  "nor_size (chip (with_cells fl c)) = nor_size (chip fl)"
  "nor_page (chip (with_cells fl c)) = nor_page (chip fl)"
  "nor_sector (chip (with_cells fl c)) = nor_sector (chip fl)"
  "pp_op (chip (with_cells fl c)) = pp_op (chip fl)" "se_op (chip (with_cells fl c)) = se_op (chip fl)"
  by (simp_all add: with_cells_def)

lemma ready_fields [simp]:
  "spi_ok (ready fl) = spi_ok fl" "page_size (ready fl) = page_size fl"
  "addr_width (ready fl) = addr_width fl" "erase_opcode (ready fl) = erase_opcode fl"
  "program_opcode (ready fl) = program_opcode fl" "mtd_size (ready fl) = mtd_size fl"
  "read_opcode (ready fl) = read_opcode fl" "erasesize (ready fl) = erasesize fl"
  "nor_size (chip (ready fl)) = nor_size (chip fl)"
  "nor_page (chip (ready fl)) = nor_page (chip fl)"
  "nor_sector (chip (ready fl)) = nor_sector (chip fl)"
  "pp_op (chip (ready fl)) = pp_op (chip fl)" "se_op (chip (ready fl)) = se_op (chip fl)"
  by (simp_all add: ready_def)

lemma m25p_ok_with_cells [simp]: "m25p_ok (with_cells fl c) = m25p_ok fl" "m25p_ok (ready fl) = m25p_ok fl"
  unfolding m25p_ok_def with_cells_fields ready_fields by (rule refl)+

lemma wait_till_ready_ok: "spi_ok fl \<Longrightarrow> wait_till_ready fl = (0, ready fl)"
proof (induction "busy (chip fl)" arbitrary: fl)
  case 0
  have busy: "busy (chip fl) = 0" using 0(1) by simp
  then have same: "fl\<lparr>chip := (chip fl)\<lparr>busy := 0\<rparr>\<rparr> = fl" by simp
  have "read_sr fl = (Some (fst (nor_status (chip fl))), fl)"
    using 0(2) busy same by (simp add: read_sr_def nor_status_def)
  moreover have "fst (nor_status (chip fl)) AND SR_WIP = 0"
    using busy by (simp add: nor_status_def SR_WIP_def)
  ultimately have "wait_till_ready fl = (0, fl)"
    by (subst wait_till_ready.simps) simp
  then show ?case by (simp add: ready_def same)
next
  case (Suc n)
  let ?fl = "fl\<lparr>chip := (chip fl)\<lparr>busy := n\<rparr>\<rparr>"
  have "read_sr fl = (Some (fst (nor_status (chip fl))), ?fl)"
    using Suc.prems by (simp add: read_sr_def nor_status_def flip: Suc.hyps(2))
  moreover have "fst (nor_status (chip fl)) AND SR_WIP \<noteq> 0"
    by (simp add: nor_status_def SR_WIP_def flip: Suc.hyps(2))
  ultimately have "wait_till_ready fl = wait_till_ready ?fl"
    by (subst wait_till_ready.simps) simp
  then show ?case using Suc.hyps(1) [of ?fl] Suc.prems by (simp add: ready_def)
qed

lemma wait_till_ready_error: "\<not> spi_ok fl \<Longrightarrow> wait_till_ready fl = (1, fl)"
  by (subst wait_till_ready.simps) (simp add: read_sr_def)

text \<open>The chip decodes the address the driver sent.\<close>

lemma m25p_cmd_addr:
  assumes "m25p_ok fl"
  shows "nor_addr (chip fl) (tl (m25p_cmd fl op addr)) = unat addr mod nor_size (chip fl)"
    "hd (m25p_cmd fl op addr) = op"
proof -
  have b: "unat (ucast (drop_bit n addr) :: u8) = unat addr div 2 ^ n mod 256" for n
  proof -
    have "unat (drop_bit n addr) = drop_bit n (unat addr)"
      by (metis unsigned_drop_bit_eq unsigned_take_bit_eq take_bit_length_eq)
    then show ?thesis by (simp only: unsigned_ucast_eq) (simp add: drop_bit_eq_div take_bit_eq_mod)
  qed
  have lt: "unat addr < 2 ^ 32" using unsigned_less [of addr] by simp
  have step: "256 * (x div 256 mod M) + x mod 256 = x mod (256 * M)" for x M :: nat
    by (simp add: mod_mult2_eq)
  have comb3: "256 * (256 * (x div 2 ^ 16 mod 256) + x div 2 ^ 8 mod 256) + x mod 256 = x mod 2 ^ 24"
    for x :: nat
    using step [of "x div 256" 256] step [of x "256 * 256"] by (simp flip: div_mult2_eq)
  have comb4: "256 * (256 * (256 * (x div 2 ^ 24 mod 256) + x div 2 ^ 16 mod 256) + x div 2 ^ 8 mod 256)
      + x mod 256 = x" if "x < 2 ^ 32" for x :: nat
    using comb3 [of "x div 256"] step [of x "2 ^ 24"] that by (simp flip: div_mult2_eq)
  consider "addr_width fl = 3" "nor_size (chip fl) dvd 2 ^ 24" | "addr_width fl = 4"
    using assms by (auto simp: m25p_ok_def)
  then show "nor_addr (chip fl) (tl (m25p_cmd fl op addr)) = unat addr mod nor_size (chip fl)"
  proof cases
    case 1
    then show ?thesis
      using comb3 [of "unat addr"] b [of 16] b [of 8] b [of 0]
      by (simp add: m25p_cmd_def m25p_cmdsz_def m25p_addr2cmd_def nor_addr_def mod_mod_cancel)
  next
    case 2
    then show ?thesis
      using comb4 [OF lt] b [of 24] b [of 16] b [of 8] b [of 0]
      by (simp add: m25p_cmd_def m25p_cmdsz_def m25p_addr2cmd_def nor_addr_def)
  qed
  show "hd (m25p_cmd fl op addr) = op"
    by (simp add: m25p_cmd_def m25p_cmdsz_def)
qed

subsection \<open>Erase\<close>

lemma spi_write_enabled:
  assumes "m25p_ok fl"
  shows "spi_write (write_enable (ready fl)) (m25p_cmd fl (erase_opcode fl) addr) [] =
      with_cells fl (\<lambda>a. if a div nor_sector (chip fl) =
          unat addr mod nor_size (chip fl) div nor_sector (chip fl) then 0xFF else cells (chip fl) a)"
    "spi_write (write_enable (ready fl)) (m25p_cmd fl (program_opcode fl) addr) ds =
      with_cells fl (prog_bytes (nor_page (chip fl)) (unat addr mod nor_size (chip fl)) 0 ds (cells (chip fl)))"
    "spi_write (write_enable (ready fl)) [OPCODE_CHIP_ERASE] [] = with_cells fl (\<lambda>a. 0xFF)"
proof -
  note ok = assms [unfolded m25p_ok_def]
  let ?c = "(chip fl)\<lparr>busy := 0, wel := True\<rparr>"
  have we: "write_enable (ready fl) = fl\<lparr>chip := ?c\<rparr>"
    using ok by (simp add: write_enable_def spi_write_def nor_exec_def ready_def)
  have addr: "nor_addr ?c (tl (m25p_cmd fl op addr)) = unat addr mod nor_size (chip fl)" for op
    using m25p_cmd_addr(1) [OF assms, of op addr] by (simp add: nor_addr_def)
  have hd: "hd (m25p_cmd fl op addr) = op" for op by (rule m25p_cmd_addr(2) [OF assms])
  show "spi_write (write_enable (ready fl)) (m25p_cmd fl (erase_opcode fl) addr) [] =
      with_cells fl (\<lambda>a. if a div nor_sector (chip fl) =
          unat addr mod nor_size (chip fl) div nor_sector (chip fl) then 0xFF else cells (chip fl) a)"
    using ok by (simp add: spi_write_def we nor_exec_def hd addr with_cells_def Let_def cong: if_cong)
  show "spi_write (write_enable (ready fl)) (m25p_cmd fl (program_opcode fl) addr) ds =
      with_cells fl (prog_bytes (nor_page (chip fl)) (unat addr mod nor_size (chip fl)) 0 ds (cells (chip fl)))"
    using ok by (simp add: spi_write_def we nor_exec_def hd addr with_cells_def)
  show "spi_write (write_enable (ready fl)) [OPCODE_CHIP_ERASE] [] = with_cells fl (\<lambda>a. 0xFF)"
    using ok by (simp add: spi_write_def we nor_exec_def with_cells_def OPCODE_CHIP_ERASE_def OPCODE_WREN_def)
qed

text \<open>The cells after the sectors with these numbers have been erased.\<close>

definition erased :: "nat \<Rightarrow> nat set \<Rightarrow> (nat \<Rightarrow> u8) \<Rightarrow> (nat \<Rightarrow> u8)" where
  "erased es S c = (\<lambda>a. if a div es \<in> S then 0xFF else c a)"

lemma m25p_cmd_ready [simp]: "m25p_cmd (ready fl) = m25p_cmd fl"
  by (intro ext) (simp add: m25p_cmd_def m25p_cmdsz_def m25p_addr2cmd_def)

lemma write_enable_fields [simp]:
  "page_size (write_enable fl) = page_size fl" "program_opcode (write_enable fl) = program_opcode fl"
  "erase_opcode (write_enable fl) = erase_opcode fl"
  "m25p_cmd (write_enable fl) = m25p_cmd fl"
  by (auto simp: write_enable_def spi_write_def m25p_cmd_def m25p_cmdsz_def m25p_addr2cmd_def fun_eq_iff)

lemma m25p_ok_spi [simp]: "m25p_ok fl \<Longrightarrow> spi_ok fl"
  by (simp add: m25p_ok_def)

lemma m25p_ok_sector:
  assumes "m25p_ok fl"
  shows "nor_sector (chip fl) dvd nor_size (chip fl)"
    "unat (erasesize fl) = nor_sector (chip fl)" "0 < nor_sector (chip fl)"
  using assms dvd_pos_nat unfolding m25p_ok_def by blast+

lemma erased_erased [simp]: "erased es S (erased es T c) = erased es (S \<union> T) c"
  by (auto simp: erased_def)

lemma erased_empty [simp]: "erased es {} c = c"
  by (simp add: erased_def)

lemma sector_index:
  assumes "(es :: nat) dvd sz"
  shows "(a mod sz) div es = (a div es) mod (sz div es)"
proof -
  obtain N where "sz = es * N" using assms by auto
  then show ?thesis by (cases "es = 0") (simp_all add: mod_mult2_eq)
qed

lemma erase_sector_ok:
  "m25p_ok fl \<Longrightarrow> erase_sector fl addr =
    (0, with_cells fl (erased (nor_sector (chip fl))
      {unat addr mod nor_size (chip fl) div nor_sector (chip fl)} (cells (chip fl))))"
  by (simp add: erase_sector_def wait_till_ready_ok spi_write_enabled erased_def)

lemma erase_sectors_ok:
  assumes "m25p_ok fl" "unat addr + n * nor_sector (chip fl) \<le> 2 ^ 32"
    "nor_sector (chip fl) dvd unat addr"
  shows "\<exists>fl'. erase_sectors fl addr n = (0, fl') \<and> (n = 0 \<longrightarrow> fl' = fl) \<and>
    (0 < n \<longrightarrow> fl' = with_cells fl (erased (nor_sector (chip fl))
      ((\<lambda>k. (unat addr div nor_sector (chip fl) + k) mod (nor_size (chip fl) div nor_sector (chip fl))) ` {..<n})
      (cells (chip fl))))"
  using assms
proof (induction n arbitrary: fl addr)
  case (Suc n)
  let ?es = "nor_sector (chip fl)" and ?N = "nor_size (chip fl) div nor_sector (chip fl)"
  let ?f = "\<lambda>k. (unat addr div ?es + k) mod ?N"
  note es = m25p_ok_sector [OF Suc.prems(1)]
  let ?fl = "with_cells fl (erased ?es {?f 0} (cells (chip fl)))"
  have first: "erase_sectors fl addr (Suc n) = erase_sectors ?fl (addr + erasesize fl) n"
    by (simp only: erase_sectors.simps erase_sector_ok [OF Suc.prems(1)] sector_index [OF es(1)]
        Let_def prod.case if_False simp_thms with_cells_fields add_0_right)
  show ?case
  proof (cases "n = 0")
    case True
    then show ?thesis using first by (simp add: lessThan_Suc del: erase_sectors.simps(2))
  next
    case False
    then have lt: "unat addr + ?es < 2 ^ 32"
      using Suc.prems(2) es(3) by (cases n) simp_all
    then have addr: "unat (addr + erasesize fl) = unat addr + ?es"
      by (simp add: unat_word_ariths es(2))
    have div: "(unat addr + ?es) div ?es = unat addr div ?es + 1"
      using es(3) by (subst div_add_self2) simp_all
    have "\<exists>fl'. erase_sectors ?fl (addr + erasesize fl) n = (0, fl') \<and> (n = 0 \<longrightarrow> fl' = ?fl) \<and>
      (0 < n \<longrightarrow> fl' = with_cells ?fl (erased (nor_sector (chip ?fl))
        ((\<lambda>k. (unat (addr + erasesize fl) div nor_sector (chip ?fl) + k) mod
            (nor_size (chip ?fl) div nor_sector (chip ?fl))) ` {..<n}) (cells (chip ?fl))))"
      using Suc.prems es(3) by (intro Suc.IH) (simp_all add: addr)
    moreover have "(\<lambda>k. (unat addr div ?es + 1 + k) mod ?N) ` {..<n} \<union> {?f 0} = ?f ` {..<Suc n}"
      unfolding lessThan_Suc_eq_insert_0 image_insert image_image by simp
    ultimately show ?thesis using False first by (simp add: addr div del: erase_sectors.simps)
  qed
qed simp

subsection \<open>Program\<close>

text \<open>The cells after these bytes have been programmed at \<open>a\<close> without a page wrap.\<close>

definition programmed :: "nat \<Rightarrow> u8 list \<Rightarrow> (nat \<Rightarrow> u8) \<Rightarrow> (nat \<Rightarrow> u8)" where
  "programmed a ds c = (\<lambda>x. if a \<le> x \<and> x < a + length ds then c x AND ds ! (x - a) else c x)"

lemma programmed_Nil [simp]: "programmed a [] c = c"
  by (rule ext) (auto simp: programmed_def)

lemma programmed_single: "c(a := c a AND d) = programmed a [d] c"
  by (auto simp: programmed_def fun_eq_iff le_less_Suc_eq)

lemma programmed_append: "programmed (a + length ds) es (programmed a ds c) = programmed a (ds @ es) c"
proof
  fix x
  consider "x < a" | "a \<le> x" "x < a + length ds" | "a + length ds \<le> x" by linarith
  then show "programmed (a + length ds) es (programmed a ds c) x = programmed a (ds @ es) c x"
    by cases (auto simp: programmed_def nth_append)
qed

lemma prog_bytes_in_page:
  "a mod page + k + length ds \<le> page \<Longrightarrow> prog_bytes page a k ds c = programmed (a + k) ds c"
proof (induction ds arbitrary: k c)
  case (Cons d ds)
  then have "(a mod page + k) mod page = a mod page + k" by simp
  then have p: "a - a mod page + (a mod page + k) mod page = a + k"
    using mod_less_eq_dividend [of a page] by simp
  have "prog_bytes page a k (d # ds) c = programmed (a + Suc k) ds (programmed (a + k) [d] c)"
    using Cons.IH [of "Suc k"] Cons.prems by (simp add: p Let_def programmed_single)
  then show ?case using programmed_append [of "a + k" "[d]" ds c] by simp
qed simp

lemma m25p_ok_page:
  assumes "m25p_ok fl"
  shows "nor_page (chip fl) dvd nor_size (chip fl)"
    "unat (page_size fl) = nor_page (chip fl)" "0 < nor_page (chip fl)"
    "nor_page (chip fl) \<in> (\<lambda>k. 2 ^ k) ` {..<16}" "0 < page_size fl"
proof -
  show a: "nor_page (chip fl) dvd nor_size (chip fl)" "unat (page_size fl) = nor_page (chip fl)"
    "0 < nor_page (chip fl)" "nor_page (chip fl) \<in> (\<lambda>k. 2 ^ k) ` {..<16}"
    using assms dvd_pos_nat unfolding m25p_ok_def by blast+
  show "0 < page_size fl" using a(2,3) by (simp add: word_less_nat_alt)
qed

lemma m25p_ok_size:
  assumes "m25p_ok fl"
  shows "nor_size (chip fl) \<le> 2 ^ 28" "unat (mtd_size fl) = nor_size (chip fl)" "0 < nor_size (chip fl)"
proof -
  have "nor_size (chip fl) dvd 2 ^ 24 \<or> nor_size (chip fl) dvd 2 ^ 28"
    using assms unfolding m25p_ok_def by blast
  then show "nor_size (chip fl) \<le> 2 ^ 28" by (auto dest!: dvd_imp_le)
  show "unat (mtd_size fl) = nor_size (chip fl)" "0 < nor_size (chip fl)"
    using assms unfolding m25p_ok_def by blast+
qed

lemma read_bytes_split:
  "k \<le> n \<Longrightarrow> read_bytes m a n = read_bytes m a k @ read_bytes m (a + of_nat k) (n - k)"
  using read_bytes_append [of m a k "n - k"] by simp

lemma program_step:
  assumes "m25p_ok fl" "unat addr mod nor_page (chip fl) + length ds \<le> nor_page (chip fl)"
  shows "spi_write (write_enable (ready fl)) (m25p_cmd fl (program_opcode fl) addr) ds =
    with_cells fl (programmed (unat addr mod nor_size (chip fl)) ds (cells (chip fl)))"
  using assms m25p_ok_page(1) [OF assms(1)]
  by (simp add: spi_write_enabled(2) prog_bytes_in_page mod_mod_cancel)

lemma write_pages_ok:
  assumes "m25p_ok fl" "i \<le> len" "(unat to + i) mod nor_page (chip fl) = 0"
    "unat to + len \<le> nor_size (chip fl)"
    "cells (chip fl) = programmed (unat to) (read_bytes m buf i) c"
  shows "write_pages fl to len m buf i =
    (if i < len then with_cells fl (programmed (unat to) (read_bytes m buf len) c) else fl)"
  using assms
proof (induction "len - i" arbitrary: fl i rule: less_induct)
  case less
  show ?case
  proof (cases "i < len")
    case True
    let ?P = "nor_page (chip fl)" and ?S = "nor_size (chip fl)"
    note page = m25p_ok_page [OF less.prems(1)]
    define ps where "ps = min (len - i) ?P"
    have ps: "0 < ps" "ps \<le> ?P" "i + ps \<le> len" "ps = min (len - i) (unat (page_size fl))"
      using True page by (auto simp: ps_def)
    have S: "?S < 2 ^ 32" using m25p_ok_size(1) [OF less.prems(1)] by simp
    have lt: "unat to + i < 2 ^ 32" "unat to + i < ?S" using True less.prems(4) S by linarith+
    then have addr: "unat (to + of_nat i) = unat to + i"
      by (simp add: unat_word_ariths unat_of_nat)
    let ?fl = "with_cells fl (programmed (unat to) (read_bytes m buf (i + ps)) c)"
    have "spi_write (write_enable (ready fl)) (m25p_cmd fl (program_opcode fl) (to + of_nat i))
        (read_bytes m (buf + of_nat i) ps) = ?fl"
      using programmed_append [of "unat to" "read_bytes m buf i" "read_bytes m (buf + of_nat i) ps" c]
        ps(2) less.prems lt(2)
      by (subst program_step) (simp_all add: addr read_bytes_append)
    then have step: "write_pages fl to len m buf i = write_pages ?fl to len m buf (i + ps)"
      using True page(5) ps(4) less.prems(1)
      by (subst write_pages.simps) (simp add: wait_till_ready_ok Let_def)
    show ?thesis
    proof (cases "i + ps < len")
      case True
      then have "ps = ?P" using ps by (simp add: ps_def min_def split: if_splits)
      have "write_pages ?fl to len m buf (i + ps) =
          with_cells ?fl (programmed (unat to) (read_bytes m buf len) c)"
        using True ps less.prems by (subst less.hyps) (simp_all add: \<open>ps = ?P\<close> add.assoc [symmetric])
      then show ?thesis using step \<open>i < len\<close> by simp
    next
      case False
      then have "i + ps = len" using ps by simp
      then show ?thesis using step \<open>i < len\<close> by (simp add: write_pages.simps)
    qed
  qed (simp add: write_pages.simps)
qed

text \<open>The mask \<open>page_size - 1\<close> takes the offset inside the page.\<close>

lemma page_offset:
  assumes "m25p_ok fl"
  shows "unat (to AND (page_size fl - 1)) = unat to mod nor_page (chip fl)"
proof -
  obtain k where k: "k < 16" "nor_page (chip fl) = 2 ^ k"
    using m25p_ok_page(4) [OF assms] by auto
  have "page_size fl = of_nat (unat (page_size fl))" by simp
  then have "page_size fl = 2 ^ k"
    using m25p_ok_page(2) [OF assms] k by (simp only: of_nat_power of_nat_numeral)
  then have "to AND (page_size fl - 1) = take_bit k to"
    by (simp add: take_bit_eq_mask mask_eq_exp_minus_1)
  then have "unat (to AND (page_size fl - 1)) = take_bit k (unat to)"
    by (simp only: unsigned_take_bit_eq)
  then show ?thesis by (simp only: k(2) take_bit_eq_mod)
qed

lemma m25p80_write_ok:
  assumes ok: "m25p_ok fl" and fits: "unat to + unat len \<le> nor_size (chip fl)"
  shows "m25p80_write fl to len m buf =
    (0, with_cells fl (programmed (unat to) (read_bytes m buf (unat len)) (cells (chip fl))))"
proof (cases "len = 0")
  case True
  have "(to AND (page_size fl - 1)) + 0 \<le> page_size fl"
    using page_offset [OF ok, of to] m25p_ok_page(2,3) [OF ok] by (simp add: word_le_nat_alt)
  then show ?thesis
    using True spi_write_enabled(2) [OF ok, of to "[]"] ok
    by (simp add: m25p80_write_def wait_till_ready_ok Let_def)
next
  case False
  let ?P = "nor_page (chip fl)" and ?S = "nor_size (chip fl)"
  let ?off = "to AND (page_size fl - 1)"
  note page = m25p_ok_page [OF ok] and S = m25p_ok_size(1) [OF ok]
  have to: "unat to < ?S" using False fits by (simp add: word_gt_0 flip: unat_gt_0)
  have off: "unat ?off = unat to mod ?P" by (rule page_offset [OF ok])
  have "unat ?off < ?P" using page(3) by (simp add: off)
  have le: "?off + len \<le> page_size fl \<longleftrightarrow> unat to mod ?P + unat len \<le> ?P"
  proof -
    have "unat ?off + unat len < 2 ^ 32"
      using \<open>unat ?off < ?P\<close> fits dvd_imp_le [OF page(1)] to S by simp
    then have "unat (?off + len) = unat to mod ?P + unat len" by (simp add: unat_word_ariths off)
    then show ?thesis by (simp only: word_le_nat_alt page(2))
  qed
  show ?thesis
  proof (cases "unat to mod ?P + unat len \<le> ?P")
    case True
    then show ?thesis
      using program_step [OF ok, of to "read_bytes m buf (unat len)"] ok to le
      by (simp add: m25p80_write_def wait_till_ready_ok Let_def)
  next
    case False
    define ps where "ps = ?P - unat to mod ?P"
    have ps: "unat (page_size fl - ?off) = ps" "0 < ps" "ps < unat len"
      using \<open>unat ?off < ?P\<close> False page(2) off by (auto simp: ps_def unat_sub word_le_nat_alt)
    let ?fl = "with_cells fl (programmed (unat to) (read_bytes m buf ps) (cells (chip fl)))"
    have "spi_write (write_enable (ready fl)) (m25p_cmd fl (program_opcode fl) to) (read_bytes m buf ps) = ?fl"
      using program_step [OF ok, of to "read_bytes m buf ps"] page(3) to by (simp add: ps_def)
    moreover have "write_pages ?fl to (unat len) m buf ps =
        with_cells ?fl (programmed (unat to) (read_bytes m buf (unat len)) (cells (chip fl)))"
    proof -
      have "(unat to + ps) mod ?P = 0"
        using page(3) unfolding ps_def
        by (metis add_diff_inverse_nat less_or_eq_imp_le mod_add_left_eq mod_less_divisor mod_self not_less)
      then show ?thesis using ps ok fits by (subst write_pages_ok) simp_all
    qed
    ultimately show ?thesis
      using False le ok ps(1) by (simp add: m25p80_write_def wait_till_ready_ok Let_def)
  qed
qed

subsection \<open>The entry points\<close>

text \<open>
  The sectors \<open>spi_flw_image\<close> erases: from the one \<open>off\<close> lies in to the one the byte
  \<^emph>\<open>after\<close> the image lies in, modulo the chip.
\<close>

definition burnt_sectors :: "m25p \<Rightarrow> nat \<Rightarrow> nat \<Rightarrow> nat set" where
  "burnt_sectors fl off n =
     (\<lambda>s. s mod (nor_size (chip fl) div nor_sector (chip fl))) `
       {off div nor_sector (chip fl) .. (off + n) div nor_sector (chip fl)}"

lemma m25p80_erase_ok:
  assumes ok: "m25p_ok fl" and b: "unat b + n < 2 ^ 32 div nor_sector (chip fl)" and n: "0 < n"
  shows "m25p80_erase fl (b * erasesize fl) (of_nat n * erasesize fl) =
    (0, with_cells fl (if n * nor_sector (chip fl) = nor_size (chip fl) then (\<lambda>a. 0xFF)
       else erased (nor_sector (chip fl))
        ((\<lambda>s. s mod (nor_size (chip fl) div nor_sector (chip fl))) ` {unat b ..< unat b + n}) (cells (chip fl))))"
proof -
  let ?es = "nor_sector (chip fl)"
  note sec = m25p_ok_sector [OF ok]
  have fits: "(unat b + n) * ?es < 2 ^ 32"
  proof -
    have "(unat b + n) * ?es < (2 ^ 32 div ?es) * ?es"
      using b sec(3) by simp
    also have "\<dots> \<le> 2 ^ 32" by (rule div_times_less_eq_dividend)
    finally show ?thesis .
  qed
  have "n * ?es \<le> (unat b + n) * ?es" "unat b * ?es \<le> (unat b + n) * ?es" "n \<le> n * ?es"
    using sec(3) by simp_all
  with fits have nb: "n * ?es < 2 ^ 32" "unat b * ?es < 2 ^ 32" "n < 2 ^ 32" by linarith+
  have len: "unat (of_nat n * erasesize fl) = n * ?es"
    using nb sec by (simp add: unat_word_ariths unat_of_nat)
  have addr: "unat (b * erasesize fl) = unat b * ?es"
    using nb sec by (simp add: unat_word_ariths)
  have "unat (of_nat n * erasesize fl mod erasesize fl) = 0"
    by (simp add: unat_mod len sec(2))
  then have "of_nat n * erasesize fl mod erasesize fl = 0" by (simp only: unat_eq_zero)
  moreover have "unat (of_nat n * erasesize fl div erasesize fl) = n"
    using sec by (simp add: unat_div len)
  moreover have "of_nat n * erasesize fl = mtd_size fl \<longleftrightarrow> n * ?es = nor_size (chip fl)"
    by (simp add: word_unat_eq_iff len m25p_ok_size(2) [OF ok])
  moreover obtain fl' where "erase_sectors fl (b * erasesize fl) n = (0, fl')"
    "fl' = with_cells fl (erased ?es
      ((\<lambda>k. (unat b + k) mod (nor_size (chip fl) div ?es)) ` {..<n}) (cells (chip fl)))"
    using erase_sectors_ok [OF ok, of "b * erasesize fl" n] fits sec n by (auto simp: addr add_mult_distrib)
  moreover have "(\<lambda>k. (unat b + k) mod N) ` {..<n} = (\<lambda>s. s mod N) ` {unat b ..< unat b + n}" for N
  proof -
    have "{unat b ..< unat b + n} = (\<lambda>k. unat b + k) ` {..<n}"
      by (simp add: lessThan_atLeast0 add.commute)
    then show ?thesis by (simp add: image_image)
  qed
  ultimately show ?thesis
    using ok by (simp add: m25p80_erase_def erase_chip_def wait_till_ready_ok spi_write_enabled(3))
qed

lemma image_sector:
  assumes "m25p_ok fl" "off \<le> a" "a < off + n" "a < nor_size (chip fl)"
  shows "a div nor_sector (chip fl) \<in> burnt_sectors fl off n"
proof -
  obtain N where N: "nor_size (chip fl) = nor_sector (chip fl) * N"
    using m25p_ok_sector(1) [OF assms(1)] by auto
  note sec = m25p_ok_sector(3) [OF assms(1)]
  have "a div nor_sector (chip fl) < N" using assms(4) sec by (simp add: N less_mult_imp_div_less mult.commute)
  moreover have "off div nor_sector (chip fl) \<le> a div nor_sector (chip fl)"
    "a div nor_sector (chip fl) \<le> (off + n) div nor_sector (chip fl)"
    using assms(2,3) by (simp_all add: div_le_mono)
  ultimately show ?thesis
    using sec unfolding burnt_sectors_def by (intro image_eqI [of _ _ "a div nor_sector (chip fl)"]) (simp_all add: N)
qed

lemma all_sectors:
  assumes "m25p_ok fl" "off + n \<le> nor_size (chip fl)" "a < nor_size (chip fl)"
    and count: "((off + n) div nor_sector (chip fl) - off div nor_sector (chip fl) + 1) * nor_sector (chip fl)
      = nor_size (chip fl)"
  shows "a div nor_sector (chip fl) \<in> burnt_sectors fl off n"
proof -
  let ?es = "nor_sector (chip fl)"
  note sec = m25p_ok_sector(3) [OF assms(1)]
  obtain N where N: "nor_size (chip fl) = ?es * N"
    using m25p_ok_sector(1) [OF assms(1)] by auto
  define b e where "b = off div ?es" and "e = (off + n) div ?es"
  have be: "b \<le> e" "e \<le> N"
    using assms(2) sec div_le_mono [of "off + n" "?es * N" ?es] by (simp_all add: b_def e_def N div_le_mono)
  have "(e - b + 1) * ?es = N * ?es" using count by (simp add: b_def e_def N mult.commute)
  then have eN: "e - b + 1 = N" using sec by (simp only: mult_cancel2) simp
  have q: "a div ?es < N" using assms(3) sec by (simp add: N less_mult_imp_div_less mult.commute)
  show ?thesis
  proof (cases "b \<le> a div ?es")
    case True
    then have "a div ?es \<in> {b..e}" using q eN be by simp
    then show ?thesis using q sec unfolding burnt_sectors_def b_def e_def
      by (intro image_eqI [of _ _ "a div ?es"]) (simp_all add: N)
  next
    case False
    then have "a div ?es = 0" "N \<in> {b..e}" using q eN be by auto
    then show ?thesis using sec unfolding burnt_sectors_def b_def e_def
      by (intro image_eqI [of _ _ N]) (simp_all add: N)
  qed
qed

lemma u8_ff_and [simp]: "(255 :: u8) AND x = x"
proof -
  have "(255 :: u8) = - 1" by simp
  then show ?thesis by (simp only: and.left_neutral)
qed

lemma spi_flw_image_cells:
  assumes ok: "m25p_ok fl" and fits: "unat off + unat len \<le> nor_size (chip fl)"
  shows "\<exists>c. spi_flw_image fl off addr len m = (True, with_cells fl c) \<and>
    (\<forall>a < nor_size (chip fl). c a =
      (if unat off \<le> a \<and> a < unat off + unat len then m (addr + of_nat (a - unat off))
       else if a div nor_sector (chip fl) \<in> burnt_sectors fl (unat off) (unat len) then 0xFF
       else cells (chip fl) a))"
proof -
  let ?es = "nor_sector (chip fl)" and ?n = "unat len" and ?o = "unat off"
  note sec = m25p_ok_sector [OF ok] and S = m25p_ok_size [OF ok]
  define b e where "b = ?o div ?es" and "e = (?o + ?n) div ?es"
  have sum: "unat (off + len) = ?o + ?n" using fits S by (simp add: unat_word_ariths)
  have bw: "unat (off div erasesize fl) = b" by (simp add: unat_div b_def sec(2))
  have ew: "unat ((off + len) div erasesize fl) = e" by (simp add: unat_div e_def sec(2) sum)
  have be: "b \<le> e" by (simp add: b_def e_def div_le_mono)
  have e: "e \<le> 2 ^ 28 div ?es" unfolding e_def using fits S by (intro div_le_mono) linarith
  have n: "of_nat (e - b + 1) = (off + len) div erasesize fl - off div erasesize fl + 1"
  proof -
    have "(off + len) div erasesize fl - off div erasesize fl = of_nat (e - b)"
      using be by (simp add: of_nat_diff flip: bw ew)
    then show ?thesis by simp
  qed
  define c0 where "c0 = (if (e - b + 1) * ?es = nor_size (chip fl) then (\<lambda>a. 0xFF)
    else erased ?es (burnt_sectors fl ?o ?n) (cells (chip fl)))"
  have room: "b + (e - b + 1) < 2 ^ 32 div ?es"
  proof -
    have "?es \<le> 2 ^ 28" using dvd_imp_le [OF sec(1)] S by linarith
    then have "1 \<le> 2 ^ 28 div ?es" using sec(3) by (simp add: div_greater_zero_iff Suc_leI)
    moreover have "16 * (2 ^ 28 div ?es) \<le> 2 ^ 32 div ?es"
      using sec(3) times_div_less_eq_dividend [of ?es "2 ^ 28"]
      by (simp add: less_eq_div_iff_mult_less_eq algebra_simps)
    ultimately show ?thesis using be e by linarith
  qed
  have "m25p80_erase fl (off div erasesize fl * erasesize fl)
      (((off + len) div erasesize fl - off div erasesize fl + 1) * erasesize fl) = (0, with_cells fl c0)"
    using m25p80_erase_ok [OF ok, of "off div erasesize fl" "e - b + 1"] room be
    unfolding n bw c0_def burnt_sectors_def
    by (simp add: b_def [symmetric] e_def [symmetric] atLeastLessThanSuc_atLeastAtMost)
  then have "spi_flw_image fl off addr len m =
      (True, with_cells fl (programmed ?o (read_bytes m addr ?n) c0))"
    using m25p80_write_ok [of "with_cells fl c0" off len m addr] ok fits
    by (simp add: spi_flw_image_def Let_def)
  moreover have "programmed ?o (read_bytes m addr ?n) c0 a =
      (if ?o \<le> a \<and> a < ?o + ?n then m (addr + of_nat (a - ?o))
       else if a div ?es \<in> burnt_sectors fl ?o ?n then 0xFF else cells (chip fl) a)"
    if "a < nor_size (chip fl)" for a
    using image_sector [OF ok, of ?o a ?n] all_sectors [OF ok fits that] that
    by (auto simp: programmed_def c0_def erased_def read_bytes_nth b_def e_def)
  ultimately show ?thesis by blast
qed

lemma flashread_ok:
  assumes ok: "m25p_ok fl"
  shows "flashread fl dst src n m =
    (True, ready fl, write_bytes dst
      (map (\<lambda>k. cells (chip fl) ((unat src + k) mod nor_size (chip fl))) [0..<unat n]) m)"
proof -
  have "m25p_ok (ready fl)" using ok by simp
  from m25p_cmd_addr(1) [OF this] show ?thesis
    using ok by (simp add: flashread_def m25p80_read_def wait_till_ready_ok nor_read_def mod_add_left_eq)
qed

lemma flashread_fail: "\<not> spi_ok fl \<Longrightarrow> flashread fl dst src n m = (False, fl, m)"
  by (simp add: flashread_def m25p80_read_def wait_till_ready_error)

text \<open>A 16 KiB chip with 4 KiB sectors and 256-byte pages, still busy from its last command.\<close>

definition sample_flash :: m25p where
  "sample_flash =
     \<lparr>chip = \<lparr>cells = (\<lambda>a. of_nat a), nor_size = 16384, nor_page = 256, nor_sector = 4096, pp_op = 2,
        se_op = 0x20, wel = False, busy = 3, op_time = 5\<rparr>,
      spi_ok = True, page_size = 256, addr_width = 3, erase_opcode = 0x20, read_opcode = 3,
      program_opcode = 2, mtd_size = 16384, erasesize = 4096\<rparr>"

lemma sample_flash_ok: "m25p_ok sample_flash"
proof -
  have "(16384 :: nat) dvd 2 ^ 24" "(4096 :: nat) dvd 16384" "(256 :: nat) dvd 16384"
    by (simp_all add: dvd_eq_mod_eq_0)
  moreover have "(256 :: nat) \<in> (\<lambda>k. 2 ^ k) ` {..<16}"
    by (rule image_eqI [of _ _ 8]) simp_all
  ultimately show ?thesis
    by (simp add: m25p_ok_def sample_flash_def OPCODE_WREN_def OPCODE_CHIP_ERASE_def)
qed

lemma sample_flash_fields [simp]:
  "nor_size (chip sample_flash) = 16384" "nor_sector (chip sample_flash) = 4096"
  "cells (chip sample_flash) = of_nat"
  by (simp_all add: sample_flash_def)

section \<open>Properties\<close>

text \<open>
  C7: An image written by \<open>spi_flw_image\<close> is what \<open>flashread\<close> later brings back: for every
  page and sector alignment, erase and programming together leave exactly the image bytes.
\<close>

theorem flash_image_roundtrip:
  assumes ok: "m25p_ok fl" and fits: "unat off + unat len \<le> nor_size (chip fl)"
  shows "\<exists>fl' fl'' m'. spi_flw_image fl off addr len m = (True, fl') \<and>
    flashread fl' dst off len m = (True, fl'', m') \<and>
    read_bytes m' dst (unat len) = read_bytes m addr (unat len)"
proof -
  obtain c where c: "spi_flw_image fl off addr len m = (True, with_cells fl c)"
    "\<And>a. a < nor_size (chip fl) \<Longrightarrow> unat off \<le> a \<Longrightarrow> a < unat off + unat len \<Longrightarrow>
      c a = m (addr + of_nat (a - unat off))"
    using spi_flw_image_cells [OF assms, of addr m] by auto
  have "map (\<lambda>k. c ((unat off + k) mod nor_size (chip fl))) [0..<unat len] = read_bytes m addr (unat len)"
    using fits c(2) by (intro nth_equalityI) (simp_all add: read_bytes_nth)
  moreover have "unat len \<le> 2 ^ 32" using fits m25p_ok_size(1) [OF ok] by simp
  ultimately show ?thesis
    using c(1) flashread_ok [of "with_cells fl c" dst off len m] ok
      read_write_bytes [of "read_bytes m addr (unat len)" dst m] by simp
qed

lemma flash_image_roundtrip_witness:
  "\<exists>fl' fl'' m'. spi_flw_image sample_flash 250 0x80500000 20 (\<lambda>a. ucast a) = (True, fl') \<and>
    flashread fl' 0x80700000 250 20 (\<lambda>a. ucast a) = (True, fl'', m') \<and>
    read_bytes m' 0x80700000 20 = read_bytes (\<lambda>a. ucast a) 0x80500000 20"
  using flash_image_roundtrip [OF sample_flash_ok, of 250 20 "0x80500000" "\<lambda>a. ucast a" "0x80700000"]
  by simp

text \<open>
  Burning an image disturbs no byte outside the sectors from the first one it touches to
  the one that holds the byte after its end.
\<close>

theorem spi_flw_image_frame:
  assumes "m25p_ok fl" "unat off + unat len < nor_size (chip fl)" "a < nor_size (chip fl)"
    "a div nor_sector (chip fl) < unat off div nor_sector (chip fl)
      \<or> (unat off + unat len) div nor_sector (chip fl) < a div nor_sector (chip fl)"
  shows "cells (chip (snd (spi_flw_image fl off addr len m))) a = cells (chip fl) a"
proof -
  let ?es = "nor_sector (chip fl)"
  obtain N where N: "nor_size (chip fl) = ?es * N"
    using m25p_ok_sector(1) [OF assms(1)] by auto
  note sec = m25p_ok_sector(3) [OF assms(1)]
  have "(unat off + unat len) div ?es < N"
    using assms(2) sec by (simp add: N less_mult_imp_div_less mult.commute)
  then have "a div ?es \<notin> burnt_sectors fl (unat off) (unat len)"
    using assms(4) sec by (auto simp: burnt_sectors_def N)
  moreover have "\<not> (unat off \<le> a \<and> a < unat off + unat len)"
    using assms(4) div_le_mono [of "unat off" a ?es] div_le_mono [of a "unat off + unat len" ?es]
    by auto
  moreover obtain c where c: "snd (spi_flw_image fl off addr len m) = with_cells fl c"
    "\<forall>a < nor_size (chip fl). c a =
      (if unat off \<le> a \<and> a < unat off + unat len then m (addr + of_nat (a - unat off))
       else if a div ?es \<in> burnt_sectors fl (unat off) (unat len) then 0xFF else cells (chip fl) a)"
    using spi_flw_image_cells [OF assms(1), of off len addr m] assms(2) by (metis less_imp_le snd_conv)
  ultimately show ?thesis using assms(3) by auto
qed

lemma spi_flw_image_frame_witness:
  "cells (chip (snd (spi_flw_image sample_flash 4000 0x80500000 200 (\<lambda>a. 7)))) 8192 = 0"
  using spi_flw_image_frame [OF sample_flash_ok, of 4000 200 8192 "0x80500000" "\<lambda>a. 7"] by simp

text \<open>
  The erase takes one sector too many. An image that ends on a sector boundary wipes the
  whole sector after it; if it ends at the end of the chip, that is sector 0.
\<close>

theorem spi_flw_image_erases_next:
  assumes ok: "m25p_ok fl" and fits: "unat off + unat len \<le> nor_size (chip fl)"
    and edge: "nor_sector (chip fl) dvd unat off + unat len" and k: "k < nor_sector (chip fl)"
    and start: "nor_sector (chip fl) \<le> unat off"
  shows "cells (chip (snd (spi_flw_image fl off addr len m)))
    ((unat off + unat len + k) mod nor_size (chip fl)) = 0xFF"
proof -
  let ?es = "nor_sector (chip fl)" and ?e = "unat off + unat len" and ?S = "nor_size (chip fl)"
  define x where "x = (?e + k) mod ?S"
  note sec = m25p_ok_sector [OF ok]
  have x: "x < ?S" using m25p_ok_size(3) [OF ok] by (simp add: x_def)
  have div: "(?e + k) div ?es = ?e div ?es" using edge k by (metis div_plus_div_distrib_dvd_left div_less add.right_neutral)
  have "x div ?es = ?e div ?es mod (?S div ?es)"
    using sector_index [OF sec(1), of "?e + k"] by (simp add: x_def div)
  moreover have "unat off div ?es \<le> ?e div ?es" by (simp add: div_le_mono)
  ultimately have burnt: "x div ?es \<in> burnt_sectors fl (unat off) (unat len)"
    unfolding burnt_sectors_def by (intro image_eqI [of _ _ "?e div ?es"]) simp_all
  have "\<not> (unat off \<le> x \<and> x < ?e)"
  proof (cases "?e = ?S")
    case True
    then have "x = k mod ?S" by (simp add: x_def)
    then show ?thesis using k start mod_less_eq_dividend [of k ?S] by linarith
  next
    case False
    then have "?e + ?es \<le> ?S" using fits edge sec(1) dvd_imp_le [of ?es "?S - ?e"] by auto
    then have "x = ?e + k" using k by (simp add: x_def)
    then show ?thesis by simp
  qed
  moreover obtain c where "snd (spi_flw_image fl off addr len m) = with_cells fl c"
    "\<forall>a < ?S. c a = (if unat off \<le> a \<and> a < ?e then m (addr + of_nat (a - unat off))
       else if a div ?es \<in> burnt_sectors fl (unat off) (unat len) then 0xFF else cells (chip fl) a)"
    using spi_flw_image_cells [OF ok fits, of addr m] by (metis snd_conv)
  ultimately show ?thesis using burnt x unfolding x_def [symmetric] by auto
qed

lemma spi_flw_image_erases_next_witness:
  "cells (chip (snd (spi_flw_image sample_flash 12288 0x80500000 4096 (\<lambda>a. 7)))) 5 = 0xFF"
  using spi_flw_image_erases_next [OF sample_flash_ok, of 12288 4096 5 "0x80500000" "\<lambda>a. 7"] by simp

end
