(* ===== verification/Image.thy ===== *)
theory Image
  imports Inet Flash
begin

text \<open>
  The machine state the components share, and the firmware images: the header and signature
  table (\<^verbatim>\<open>boot/init/rtk.h\<close>, \<^verbatim>\<open>boot/init/eth_tftpd.c\<close>), the check and
  burn loop \<open>checkAutoFlashing\<close>, the upload check \<open>imageFileValid\<close>, and the boot-time
  checks and start of \<^verbatim>\<open>boot/init/utility.c\<close> in their single-bank configuration.
  A loop over images that never ends has the value \<open>None\<close>.
\<close>

section \<open>Machine state\<close>

text \<open>What became of the boot code: it runs, the watchdog reset the board, or it jumped.\<close>

datatype run_status = Running | Rebooted | Jumped u32

record boot_state =
  mem :: memory
  flash :: m25p
  jiffies :: u32                       \<comment> \<open>\<open>get_timer_jiffies ()\<close> during the current step\<close>
  arptable_tftp :: "nat \<Rightarrow> arptable_t"  \<comment> \<open>server, client, HTTP server\<close>
  eth0_mac :: "u8 list"
  txlog :: "u8 list list"              \<comment> \<open>frames handed to \<open>swNic_send\<close>, in order\<close>
  run :: run_status
  gCHKKEY_HIT :: bool
  gCHKKEY_CNT :: u32
  uart :: "u8 option list"             \<comment> \<open>what the next polls of the UART will find\<close>
  return_addr :: u32

definition autoreboot :: "'a boot_state_scheme \<Rightarrow> 'a boot_state_scheme" where
  "autoreboot s = s\<lparr>run := Rebooted\<rparr>"

section \<open>Headers and signatures\<close>

record IMG_HEADER_T =
  signature :: "u8 list"
  startAddr :: u32
  burnAddr :: u32
  hlen :: u32

record SIGN_T =
  sign :: "u8 list"
  sig_len :: nat
  skip :: bool
  maxSize :: nat
  reboot :: bool

definition ascii :: "string \<Rightarrow> u8 list" where
  "ascii s = map of_char s"

definition SIG_LEN :: nat where "SIG_LEN = 4"
definition SIZEOF_IMG_HEADER :: u32 where "SIZEOF_IMG_HEADER = 16"
definition FW_SIGNATURE :: "u8 list" where "FW_SIGNATURE = ascii ''cs6c''"
definition FW_SIGNATURE_WITH_ROOT :: "u8 list" where "FW_SIGNATURE_WITH_ROOT = ascii ''cr6c''"
definition ROOT_SIGNATURE :: "u8 list" where "ROOT_SIGNATURE = ascii ''r6cr''"
definition WEB_SIGNATURE :: "u8 list" where "WEB_SIGNATURE = ascii ''w6cg''"
definition BOOT_SIGNATURE :: "u8 list" where "BOOT_SIGNATURE = ascii ''boot''"
definition ALL1_SIGNATURE :: "u8 list" where "ALL1_SIGNATURE = ascii ''ALL1''"
definition ALL2_SIGNATURE :: "u8 list" where "ALL2_SIGNATURE = ascii ''ALL2''"
definition SQSH_SIGNATURE :: "u8 list" where "SQSH_SIGNATURE = ascii ''sqsh''"
definition SQSH_SIGNATURE_LE :: "u8 list" where "SQSH_SIGNATURE_LE = ascii ''hsqs''"

lemmas sig_defs = FW_SIGNATURE_def FW_SIGNATURE_WITH_ROOT_def ROOT_SIGNATURE_def WEB_SIGNATURE_def
  BOOT_SIGNATURE_def ALL1_SIGNATURE_def ALL2_SIGNATURE_def SQSH_SIGNATURE_def SQSH_SIGNATURE_LE_def ascii_def

definition sign_tbl :: "SIGN_T list" where
  "sign_tbl =
    [\<lparr>sign = FW_SIGNATURE, sig_len = SIG_LEN, skip = False, maxSize = 0x2C0000, reboot = True\<rparr>,
     \<lparr>sign = FW_SIGNATURE_WITH_ROOT, sig_len = SIG_LEN, skip = False, maxSize = 0x2C0000, reboot = True\<rparr>,
     \<lparr>sign = WEB_SIGNATURE, sig_len = 3, skip = False, maxSize = 0x20000, reboot = False\<rparr>,
     \<lparr>sign = ROOT_SIGNATURE, sig_len = SIG_LEN, skip = True, maxSize = 0x100000, reboot = False\<rparr>,
     \<lparr>sign = BOOT_SIGNATURE, sig_len = SIG_LEN, skip = True, maxSize = 0x10000, reboot = True\<rparr>,
     \<lparr>sign = ALL1_SIGNATURE, sig_len = SIG_LEN, skip = True, maxSize = 0x200000, reboot = True\<rparr>,
     \<lparr>sign = ALL2_SIGNATURE, sig_len = SIG_LEN, skip = True, maxSize = 0x200000, reboot = True\<rparr>]"

text \<open>\<open>memcmp\<close> of the first \<open>n\<close> bytes of two signatures.\<close>

definition same_sig :: "nat \<Rightarrow> u8 list \<Rightarrow> u8 list \<Rightarrow> bool" where
  "same_sig n a b \<longleftrightarrow> take n a = take n b"

definition find_sign :: "u8 list \<Rightarrow> SIGN_T option" where
  "find_sign sig = find (\<lambda>t. same_sig (sig_len t) sig (sign t)) sign_tbl"

text \<open>The header in memory; its numbers are big endian.\<close>

definition read_header :: "memory \<Rightarrow> u32 \<Rightarrow> IMG_HEADER_T" where
  "read_header m a =
     \<lparr>signature = read_bytes m a 4, startAddr = swab32 (load32 m (a + 4)),
      burnAddr = swab32 (load32 m (a + 8)), hlen = swab32 (load32 m (a + 12))\<rparr>"

section \<open>Checksums\<close>

text \<open>\<open>n\<close> rounds of \<open>sum += ___swab16(...)\<close>, of \<open>sum += ___swab32(...)\<close> and of \<open>sum1 += byte\<close>.\<close>

primrec sum_swab16 :: "memory \<Rightarrow> u32 \<Rightarrow> nat \<Rightarrow> u16 \<Rightarrow> u16" where
  "sum_swab16 m a 0 acc = acc"
| "sum_swab16 m a (Suc n) acc = sum_swab16 m (a + 2) n (acc + swab16 (load16 m a))"

primrec sum_swab32 :: "memory \<Rightarrow> u32 \<Rightarrow> nat \<Rightarrow> u16 \<Rightarrow> u16" where
  "sum_swab32 m a 0 acc = acc"
| "sum_swab32 m a (Suc n) acc = sum_swab32 m (a + 2) n (ucast (ucast acc + swab32 (ucast (load16 m a))))"

primrec sum_bytes :: "memory \<Rightarrow> u32 \<Rightarrow> nat \<Rightarrow> u8 \<Rightarrow> u8" where
  "sum_bytes m a 0 acc = acc"
| "sum_bytes m a (Suc n) acc = sum_bytes m (a + 1) n (acc + m a)"

lemma sum_swab16_numeral [simp]:
  "sum_swab16 m a (numeral k) acc = sum_swab16 m (a + 2) (pred_numeral k) (acc + swab16 (load16 m a))"
  by (simp add: numeral_eq_Suc)

text \<open>
  How often \<open>for (i=0; i< len; i+=2)\<close> goes round: the \<open>int\<close> index is compared as an unsigned number, and
  for the largest length it wraps to 0 before it reaches it, so that the loop never ends (\<open>None\<close>).
\<close>

definition halfwords :: "u32 \<Rightarrow> nat option" where
  "halfwords len = (if len = 0xFFFFFFFF then None else Some ((unat len + 1) div 2))"

section \<open>checkAutoFlashing\<close>

text \<open>One round of the loop returns, goes on with the next header, or never ends.\<close>

datatype 's flash_next = Stop 's | Next 's u32 bool bool | Stuck

text \<open>The end mark of a jffs2 image that ends on a 4 KiB boundary is burnt with it.\<close>

definition burn_len :: "memory \<Rightarrow> u32 \<Rightarrow> u32 \<Rightarrow> u32" where
  "burn_len m sa burnLen =
     (if burnLen mod 0x1000 = 0 \<and> read_bytes m (sa + burnLen) 4 = [0xde, 0xad, 0xc0, 0xde]
      then burnLen + 4 else burnLen)"

definition check_one ::
    "'a boot_state_scheme \<Rightarrow> u32 \<Rightarrow> u32 \<Rightarrow> bool \<Rightarrow> bool \<Rightarrow> 'a boot_state_scheme flash_next" where
  "check_one s sa head skip_check rebootf =
     (let m = mem s;
          Header = read_header m (sa + head);
          sig = signature Header;
          entry = find_sign sig;
          body = sa + head + SIZEOF_IMG_HEADER;
          head' = head + hlen Header + SIZEOF_IMG_HEADER
      in if \<not> skip_check \<and> entry = None then Next s head' skip_check rebootf
         else
           (let skip_header =
                  (if \<not> skip_check then skip (the entry)
                   else same_sig 4 sig BOOT_SIGNATURE \<or> same_sig 4 (read_bytes m body 4) SQSH_SIGNATURE);
                rebootf = (if \<not> skip_check then rebootf \<or> reboot (the entry) else rebootf);
                srcAddr = (if skip_header then body else sa + head);
                burnLen = (if skip_header then hlen Header else hlen Header + SIZEOF_IMG_HEADER);
                burn =
                  (let burnLen = burn_len m sa burnLen;
                       (ok, fl) = spi_flw_image (flash s) (burnAddr Header) srcAddr burnLen m;
                       s = s\<lparr>flash := fl\<rparr>
                   in if ok then Next s head' skip_check rebootf else Stop s)
            in if skip_check \<or> \<not> same_sig 3 sig WEB_SIGNATURE
               then
                 (let all = same_sig 4 sig ALL1_SIGNATURE \<or> same_sig 4 sig ALL2_SIGNATURE
                  in case halfwords (if all then hlen Header + SIZEOF_IMG_HEADER else hlen Header) of
                       None \<Rightarrow> Stuck
                     | Some n \<Rightarrow>
                         if sum_swab16 m (if all then sa + head else body) n 0 \<noteq> 0 then Stop s
                         else if same_sig 4 sig ALL1_SIGNATURE
                         then Next s (head + SIZEOF_IMG_HEADER) skip_check rebootf
                         else if same_sig 4 sig ALL2_SIGNATURE
                         then Next s (head + SIZEOF_IMG_HEADER) True rebootf
                         else burn)
               else if sum_bytes m body (unat (hlen Header)) 0 \<noteq> 0 then Stop s
               else burn))"

text \<open>The loop over the headers of the file; the flag of the result tells whether to reboot.\<close>

partial_function (option) flashing_loop ::
    "'a boot_state_scheme \<Rightarrow> u32 \<Rightarrow> u32 \<Rightarrow> u32 \<Rightarrow> bool \<Rightarrow> bool \<Rightarrow> ('a boot_state_scheme \<times> bool) option" where
  "flashing_loop s sa len head skip_check rebootf =
     (if head + SIZEOF_IMG_HEADER < len
      then (case check_one s sa head skip_check rebootf of
              Stop s' \<Rightarrow> Some (s', False)
            | Stuck \<Rightarrow> None
            | Next s' head' skip_check' rebootf' \<Rightarrow> flashing_loop s' sa len head' skip_check' rebootf')
      else Some (s, rebootf))"

definition checkAutoFlashing :: "'a boot_state_scheme \<Rightarrow> u32 \<Rightarrow> u32 \<Rightarrow> 'a boot_state_scheme option" where
  "checkAutoFlashing s sa len =
     (case flashing_loop s sa len 0 False False of
        None \<Rightarrow> None
      | Some (s', rebootf) \<Rightarrow> Some (if rebootf then autoreboot s' else s'))"

section \<open>imageFileValid\<close>

text \<open>
  The check an HTTP upload gets; a header's check that never ends is \<open>None\<close>. \<open>sum\<close> and \<open>sum1\<close>
  are never reset between two headers; the value is the number of headers found, or -1 after a
  checksum error.
\<close>

definition valid_one ::
    "memory \<Rightarrow> u32 \<Rightarrow> u32 \<Rightarrow> bool \<Rightarrow> int \<Rightarrow> u16 \<Rightarrow> u8 \<Rightarrow> (u32 \<times> bool \<times> int \<times> u16 \<times> u8) option option" where
  "valid_one m sa head skip_check found acc acc1 =
     (let Header = read_header m (sa + head);
          sig = signature Header;
          body = sa + head + SIZEOF_IMG_HEADER;
          head' = head + hlen Header + SIZEOF_IMG_HEADER
      in if \<not> skip_check \<and> find_sign sig = None then Some (Some (head', skip_check, found, acc, acc1))
         else
           (let found =
                  (if \<not> skip_check \<or> same_sig 4 sig BOOT_SIGNATURE
                      \<or> same_sig 4 (read_bytes m body 4) SQSH_SIGNATURE
                   then found + 1 else found)
            in if skip_check \<or> \<not> same_sig 3 sig WEB_SIGNATURE
               then
                 (let all = same_sig 4 sig ALL1_SIGNATURE \<or> same_sig 4 sig ALL2_SIGNATURE
                  in case halfwords (if all then hlen Header + SIZEOF_IMG_HEADER else hlen Header) of
                       None \<Rightarrow> None
                     | Some n \<Rightarrow>
                         (let acc = sum_swab32 m (if all then sa + head else body) n acc
                          in Some (if acc \<noteq> 0 then None
                             else if same_sig 4 sig ALL1_SIGNATURE
                             then Some (head + SIZEOF_IMG_HEADER, skip_check, found + 1, acc, acc1)
                             else if same_sig 4 sig ALL2_SIGNATURE
                             then Some (head + SIZEOF_IMG_HEADER, True, found + 1, acc, acc1)
                             else Some (head', skip_check, found, acc, acc1))))
               else
                 (let acc1 = sum_bytes m body (unat (hlen Header)) acc1
                  in Some (if acc1 \<noteq> 0 then None else Some (head', skip_check, found, acc, acc1)))))"

partial_function (option) valid_loop ::
    "memory \<Rightarrow> u32 \<Rightarrow> u32 \<Rightarrow> u32 \<Rightarrow> bool \<Rightarrow> int \<Rightarrow> u16 \<Rightarrow> u8 \<Rightarrow> int option" where
  "valid_loop m sa len head skip_check found acc acc1 =
     (if head + SIZEOF_IMG_HEADER < len
      then (case valid_one m sa head skip_check found acc acc1 of
              None \<Rightarrow> None
            | Some None \<Rightarrow> Some (- 1)
            | Some (Some (head', skip_check', found', acc', acc1')) \<Rightarrow>
                valid_loop m sa len head' skip_check' found' acc' acc1')
      else Some found)"

definition imageFileValid :: "memory \<Rightarrow> u32 \<Rightarrow> u32 \<Rightarrow> int option" where
  "imageFileValid m sa len = valid_loop m sa len 0 False 0 0 0"

section \<open>Lemmas\<close>

lemma ascii_sigs:
  "FW_SIGNATURE = [99, 115, 54, 99]" "FW_SIGNATURE_WITH_ROOT = [99, 114, 54, 99]"
  "ROOT_SIGNATURE = [114, 54, 99, 114]" "WEB_SIGNATURE = [119, 54, 99, 103]"
  "BOOT_SIGNATURE = [98, 111, 111, 116]" "ALL1_SIGNATURE = [65, 76, 76, 49]"
  "ALL2_SIGNATURE = [65, 76, 76, 50]" "SQSH_SIGNATURE = [115, 113, 115, 104]"
  "SQSH_SIGNATURE_LE = [104, 115, 113, 115]"
  by (simp_all add: sig_defs)

lemma find_sign_FW [simp]: "find_sign FW_SIGNATURE = Some (sign_tbl ! 0)"
  by (simp add: find_sign_def sign_tbl_def same_sig_def ascii_sigs SIG_LEN_def)

lemma fw_not_others [simp]:
  "\<not> same_sig 3 FW_SIGNATURE WEB_SIGNATURE" "\<not> same_sig 4 FW_SIGNATURE ALL1_SIGNATURE"
  "\<not> same_sig 4 FW_SIGNATURE ALL2_SIGNATURE"
  by (simp_all add: same_sig_def ascii_sigs)

lemma sign_tbl_0 [simp]: "skip (sign_tbl ! 0) = False" "reboot (sign_tbl ! 0) = True"
  by (simp_all add: sign_tbl_def)

text \<open>Swapping a halfword that was widened to 32 bits moves it out of the low half.\<close>

lemma swab32_halfword: "(ucast (ucast acc + swab32 (ucast (w :: u16))) :: u16) = acc"
proof -
  have "(ucast (swab32 (ucast w)) :: u16) = 0"
  proof (rule bit_word_eqI)
    fix n :: nat assume "n < LENGTH(16)"
    then show "bit (ucast (swab32 (ucast w)) :: u16) n = bit (0 :: u16) n"
      unfolding swab32_alt le32_def by (cases "n < 8") (auto simp: bit_simps bit_ge)
  qed
  moreover have "(ucast (a + b) :: u16) = ucast a + ucast b" for a b :: u32
    by (simp add: word_unat_eq_iff unsigned_ucast_eq unat_word_ariths take_bit_eq_mod mod_mod_cancel mod_simps)
  moreover have "(ucast (ucast acc :: u32) :: u16) = acc" by (rule bit_word_eqI) (simp add: bit_simps)
  ultimately show ?thesis by simp
qed

lemma sum_swab32_const: "sum_swab32 m a n acc = acc"
  by (induction n arbitrary: a) (simp_all only: sum_swab32.simps swab32_halfword)

lemma small_add:
  "unat a + b < 2 ^ 32 \<Longrightarrow> unat ((a :: u32) + of_nat b) = unat a + b"
  by (simp add: unat_word_ariths unat_of_nat)

lemma valid_loop_end: "\<not> head + SIZEOF_IMG_HEADER < len \<Longrightarrow> valid_loop m sa len head sk f acc acc1 = Some f"
  by (simp add: valid_loop.simps)

lemma flashing_loop_end:
  "\<not> head + SIZEOF_IMG_HEADER < len \<Longrightarrow> flashing_loop s sa len head sk rb = Some (s, rb)"
  by (simp add: flashing_loop.simps)

section \<open>A sample state\<close>

definition sample_boot :: "memory \<Rightarrow> boot_state" where
  "sample_boot m =
     \<lparr>mem = m, flash = sample_flash, jiffies = 7,
      arptable_tftp = (\<lambda>i. \<lparr>ipaddr = le32 192 168 1 (6 + of_nat i), node = [0x56, 0xaa, 0xa5, 0x5a, 0x7d, of_nat i]\<rparr>),
      eth0_mac = [0x56, 0xaa, 0xa5, 0x5a, 0x7d, 0xe8], txlog = [], run = Running,
      gCHKKEY_HIT = False, gCHKKEY_CNT = 0, uart = [], return_addr = 0\<rparr>"

text \<open>Memory with a file at \<open>0x80500000\<close>: a header with the payload's bytes after it.\<close>

definition sample_file :: "u8 list \<Rightarrow> u8 list \<Rightarrow> u8 list \<Rightarrow> memory" where
  "sample_file sig len payload =
     write_bytes 0x80500000 (sig @ [0x80, 0x50, 0, 0] @ [0, 0, 0x10, 0] @ len @ payload) (\<lambda>_. 0)"

lemma sample_boot_simps [simp]:
  "mem (sample_boot m) = m" "flash (sample_boot m) = sample_flash" "run (sample_boot m) = Running"
  by (simp_all add: sample_boot_def)

section \<open>Properties\<close>

text \<open>What is checked and burnt of the first image of a file, by the entry \<open>t\<close> of the table.\<close>

definition checksum_ok :: "memory \<Rightarrow> u32 \<Rightarrow> bool" where
  "checksum_ok m sa \<longleftrightarrow>
     (let H = read_header m sa; body = sa + SIZEOF_IMG_HEADER
      in if same_sig 3 (signature H) WEB_SIGNATURE then sum_bytes m body (unat (hlen H)) 0 = 0
         else if same_sig 4 (signature H) ALL1_SIGNATURE \<or> same_sig 4 (signature H) ALL2_SIGNATURE
         then sum_swab16 m sa ((unat (hlen H + SIZEOF_IMG_HEADER) + 1) div 2) 0 = 0
         else sum_swab16 m body ((unat (hlen H) + 1) div 2) 0 = 0)"

definition check_ends :: "memory \<Rightarrow> u32 \<Rightarrow> bool" where
  "check_ends m sa \<longleftrightarrow> hlen (read_header m sa) \<noteq> 0xFFFFFFFF \<and> hlen (read_header m sa) \<noteq> 0xFFFFFFEF"

definition burnt_from :: "SIGN_T \<Rightarrow> u32 \<Rightarrow> u32" where
  "burnt_from t sa = (if skip t then sa + SIZEOF_IMG_HEADER else sa)"

definition burnt_len :: "SIGN_T \<Rightarrow> memory \<Rightarrow> u32 \<Rightarrow> u32" where
  "burnt_len t m sa = burn_len m sa (if skip t then hlen (read_header m sa) else hlen (read_header m sa) + SIZEOF_IMG_HEADER)"

lemma check_ends_halfwords:
  assumes "check_ends m sa"
  shows "halfwords (hlen (read_header m sa)) = Some ((unat (hlen (read_header m sa)) + 1) div 2)"
    "halfwords (hlen (read_header m sa) + SIZEOF_IMG_HEADER) = Some ((unat (hlen (read_header m sa) + SIZEOF_IMG_HEADER) + 1) div 2)"
proof -
  have "hlen (read_header m sa) + SIZEOF_IMG_HEADER \<noteq> 0xFFFFFFFF"
  proof
    assume "hlen (read_header m sa) + SIZEOF_IMG_HEADER = 0xFFFFFFFF"
    then have "hlen (read_header m sa) = 0xFFFFFFFF - SIZEOF_IMG_HEADER" by (simp add: eq_diff_eq)
    then show False using assms by (simp add: check_ends_def SIZEOF_IMG_HEADER_def)
  qed
  then show "halfwords (hlen (read_header m sa)) = Some ((unat (hlen (read_header m sa)) + 1) div 2)"
    "halfwords (hlen (read_header m sa) + SIZEOF_IMG_HEADER) = Some ((unat (hlen (read_header m sa) + SIZEOF_IMG_HEADER) + 1) div 2)"
    using assms by (simp_all add: check_ends_def halfwords_def)
qed

lemma check_one_bad:
  assumes "find_sign (signature (read_header (mem s) sa)) = Some t" "check_ends (mem s) sa" "\<not> checksum_ok (mem s) sa"
  shows "check_one s sa 0 False False = Stop s"
  using assms(1,3) check_ends_halfwords [OF assms(2)]
  by (cases "same_sig 3 (signature (read_header (mem s) sa)) WEB_SIGNATURE";
      cases "same_sig 4 (signature (read_header (mem s) sa)) ALL1_SIGNATURE \<or> same_sig 4 (signature (read_header (mem s) sa)) ALL2_SIGNATURE")
     (simp_all only: check_one_def checksum_ok_def Let_def, simp_all)

lemma check_one_burns:
  assumes "find_sign (signature (read_header (mem s) sa)) = Some t" "check_ends (mem s) sa" "checksum_ok (mem s) sa"
    and "\<not> same_sig 4 (signature (read_header (mem s) sa)) ALL1_SIGNATURE" "\<not> same_sig 4 (signature (read_header (mem s) sa)) ALL2_SIGNATURE"
    and "spi_flw_image (flash s) (burnAddr (read_header (mem s) sa)) (burnt_from t sa) (burnt_len t (mem s) sa) (mem s) = (True, fl)"
  shows "check_one s sa 0 False False = Next (s\<lparr>flash := fl\<rparr>) (hlen (read_header (mem s) sa) + SIZEOF_IMG_HEADER) False (reboot t)"
  using assms(1,3-6) check_ends_halfwords [OF assms(2)]
  by (cases "same_sig 3 (signature (read_header (mem s) sa)) WEB_SIGNATURE"; cases "skip t")
     (simp_all add: check_one_def checksum_ok_def burnt_from_def burnt_len_def Let_def)

text \<open>
  C3: A file that holds one signed image - any entry of the signature table but the two that only mark a
  collection - whose checksum is right is burnt: afterwards the chip holds, at the address the header
  names, the image (with or without its header, as the table says, and with the end mark of a jffs2 image),
  the rest of the erased sectors is erased, the rest of the chip is as before, and the board reboots if
  the table says so.
\<close>

theorem checkAutoFlashing_burns_image:
  assumes sig: "find_sign (signature (read_header (mem s) sa)) = Some t"
    and single: "\<not> same_sig 4 (signature (read_header (mem s) sa)) ALL1_SIGNATURE" "\<not> same_sig 4 (signature (read_header (mem s) sa)) ALL2_SIGNATURE"
    and len: "SIZEOF_IMG_HEADER < len" "len \<le> hlen (read_header (mem s) sa) + 2 * SIZEOF_IMG_HEADER"
    and total: "check_ends (mem s) sa" "checksum_ok (mem s) sa"
    and ok: "m25p_ok (flash s)"
    and fits: "unat (burnAddr (read_header (mem s) sa)) + unat (burnt_len t (mem s) sa) \<le> nor_size (chip (flash s))"
  shows "\<exists>s'. checkAutoFlashing s sa len = Some s' \<and> run s' = (if reboot t then Rebooted else run s) \<and>
    (\<forall>a < nor_size (chip (flash s)). cells (chip (flash s')) a =
      (let b = unat (burnAddr (read_header (mem s) sa)); n = unat (burnt_len t (mem s) sa)
       in if b \<le> a \<and> a < b + n then mem s (burnt_from t sa + of_nat (a - b))
          else if a div nor_sector (chip (flash s)) \<in> burnt_sectors (flash s) b n then 0xFF
          else cells (chip (flash s)) a))"
proof -
  let ?H = "read_header (mem s) sa"
  obtain c where c: "spi_flw_image (flash s) (burnAddr ?H) (burnt_from t sa) (burnt_len t (mem s) sa) (mem s) = (True, with_cells (flash s) c)"
    "\<forall>a < nor_size (chip (flash s)). c a =
      (if unat (burnAddr ?H) \<le> a \<and> a < unat (burnAddr ?H) + unat (burnt_len t (mem s) sa)
       then mem s (burnt_from t sa + of_nat (a - unat (burnAddr ?H)))
       else if a div nor_sector (chip (flash s)) \<in> burnt_sectors (flash s) (unat (burnAddr ?H)) (unat (burnt_len t (mem s) sa))
       then 0xFF else cells (chip (flash s)) a)"
    using spi_flw_image_cells [OF ok fits, of "burnt_from t sa" "mem s"] by blast
  note step = check_one_burns [OF sig total single c(1)]
  have "\<not> hlen ?H + SIZEOF_IMG_HEADER + SIZEOF_IMG_HEADER < len"
    using len(2) by (simp add: add.assoc not_less)
  then have "flashing_loop s sa len 0 False False = Some (s\<lparr>flash := with_cells (flash s) c\<rparr>, reboot t)"
    using len(1) step by (subst flashing_loop.simps) (simp add: flashing_loop_end)
  then show ?thesis
    using c(2) by (simp add: checkAutoFlashing_def autoreboot_def Let_def)
qed

lemma checkAutoFlashing_burns_image_witness:
  "\<exists>s'. checkAutoFlashing (sample_boot (sample_file FW_SIGNATURE [0, 0, 0, 4] [0x12, 0x34, 0xED, 0xCC])) 0x80500000 20 = Some s'
    \<and> run s' = Rebooted \<and> (\<forall>k < 20. cells (chip (flash s')) (0x1000 + k) =
        sample_file FW_SIGNATURE [0, 0, 0, 4] [0x12, 0x34, 0xED, 0xCC] (0x80500000 + of_nat k))"
proof -
  let ?m = "sample_file FW_SIGNATURE [0, 0, 0, 4] [0x12, 0x34, 0xED, 0xCC]"
  have H: "read_header ?m 0x80500000 =
      \<lparr>signature = FW_SIGNATURE, startAddr = 0x80500000, burnAddr = 0x1000, hlen = 4\<rparr>"
    by (simp add: read_header_def sample_file_def ascii_sigs load32_def read_bytes_Suc_numeral) (simp add: le32_def)
  have "sum_swab16 ?m (0x80500000 + SIZEOF_IMG_HEADER) 2 0 = 0"
    by (simp add: sample_file_def ascii_sigs load16_def SIZEOF_IMG_HEADER_def)
       (simp add: le16_def)
  then have total: "check_ends ?m 0x80500000" "checksum_ok ?m 0x80500000"
    by (simp_all add: check_ends_def checksum_ok_def H Let_def)
  have n: "burnt_from (sign_tbl ! 0) 0x80500000 = 0x80500000" "burnt_len (sign_tbl ! 0) ?m 0x80500000 = 20"
    by (simp_all add: burnt_from_def burnt_len_def burn_len_def H SIZEOF_IMG_HEADER_def)
  obtain s' where "checkAutoFlashing (sample_boot ?m) 0x80500000 20 = Some s'" "run s' = Rebooted"
    "\<forall>a < nor_size (chip sample_flash). 4096 \<le> a \<and> a < 4116 \<longrightarrow> cells (chip (flash s')) a = ?m (0x80500000 + of_nat (a - 4096))"
    using checkAutoFlashing_burns_image [of "sample_boot ?m" "0x80500000" "sign_tbl ! 0" 20] total
    by (auto simp: H n sample_flash_ok SIZEOF_IMG_HEADER_def Let_def)
  then show ?thesis by (intro exI [of _ s']) simp
qed

text \<open>
  C13: A file that starts with a signed image, of any kind the table knows, whose checksum is wrong changes
  nothing: nothing is written, whatever follows, and the board does not reboot. (The
  two lengths for which a check may never end are excluded by \<open>check_ends\<close>.)
\<close>

theorem checkAutoFlashing_bad_checksum:
  assumes "find_sign (signature (read_header (mem s) sa)) = Some t" "SIZEOF_IMG_HEADER < len"
    "check_ends (mem s) sa" "\<not> checksum_ok (mem s) sa"
  shows "checkAutoFlashing s sa len = Some s"
  using assms(2) check_one_bad [OF assms(1,3,4)]
  by (simp add: checkAutoFlashing_def flashing_loop.simps)

lemma checkAutoFlashing_bad_checksum_witness:
  "checkAutoFlashing (sample_boot (sample_file FW_SIGNATURE [0, 0, 0, 2] [1, 2])) 0x80500000 18
    = Some (sample_boot (sample_file FW_SIGNATURE [0, 0, 0, 2] [1, 2]))"
proof -
  let ?m = "sample_file FW_SIGNATURE [0, 0, 0, 2] [1, 2]"
  have H: "signature (read_header ?m 0x80500000) = FW_SIGNATURE" "hlen (read_header ?m 0x80500000) = 2"
    by (simp_all add: read_header_def sample_file_def ascii_sigs load32_def read_bytes_Suc_numeral) (simp add: le32_def)
  have "sum_swab16 ?m (0x80500000 + SIZEOF_IMG_HEADER) 1 0 \<noteq> 0"
    by (simp add: sample_file_def ascii_sigs load16_def SIZEOF_IMG_HEADER_def)
       (simp add: le16_def)
  then have "check_ends ?m 0x80500000" "\<not> checksum_ok ?m 0x80500000"
    by (simp_all add: check_ends_def checksum_ok_def H Let_def)
  then show ?thesis
    using checkAutoFlashing_bad_checksum [of "sample_boot ?m" "0x80500000" "sign_tbl ! 0" 18] H
    by (simp add: SIZEOF_IMG_HEADER_def)
qed

text \<open>
  The check of an HTTP upload accepts every firmware image, whatever its payload: its
  checksum adds the low half of a 32-bit swap of a halfword, which is always 0.
\<close>

theorem imageFileValid_ignores_payload:
  assumes "signature (read_header m sa) = FW_SIGNATURE" "SIZEOF_IMG_HEADER < len"
    "len \<le> hlen (read_header m sa) + 2 * SIZEOF_IMG_HEADER" "hlen (read_header m sa) \<noteq> 0xFFFFFFFF"
  shows "imageFileValid m sa len = Some 1"
proof -
  let ?H = "read_header m sa"
  have "valid_one m sa 0 False 0 0 0 = Some (Some (hlen ?H + SIZEOF_IMG_HEADER, False, 1, 0, 0))"
    using assms(1,4) by (simp add: valid_one_def Let_def sum_swab32_const halfwords_def)
  moreover have "\<not> hlen ?H + SIZEOF_IMG_HEADER + SIZEOF_IMG_HEADER < len"
    using assms(3) by (simp add: add.assoc not_less)
  ultimately show ?thesis
    using assms(2) unfolding imageFileValid_def
    by (subst valid_loop.simps) (simp add: valid_loop_end)
qed

lemma imageFileValid_ignores_payload_witness:
  "imageFileValid (sample_file FW_SIGNATURE [0, 0, 0, 2] [1, 2]) 0x80500000 18 = Some 1"
proof -
  let ?m = "sample_file FW_SIGNATURE [0, 0, 0, 2] [1, 2]"
  have H: "signature (read_header ?m 0x80500000) = FW_SIGNATURE" "hlen (read_header ?m 0x80500000) = 2"
    by (simp_all add: read_header_def sample_file_def ascii_sigs load32_def read_bytes_Suc_numeral) (simp add: le32_def)
  show ?thesis
    using imageFileValid_ignores_payload [of ?m "0x80500000" 18] H
    by (simp add: SIZEOF_IMG_HEADER_def)
qed

text \<open>
  C14: A header with an unknown signature and the length \<open>0xFFFFFFF0\<close> is skipped by 0 bytes:
  the loop never ends and the boot code hangs.
\<close>

theorem checkAutoFlashing_hangs:
  assumes "find_sign (signature (read_header (mem s) sa)) = None" "SIZEOF_IMG_HEADER < len"
    "hlen (read_header (mem s) sa) = 0xFFFFFFF0"
  shows "checkAutoFlashing s sa len = None"
proof -
  have step: "check_one s sa 0 False False = Next s 0 False False"
    using assms(1,3) by (simp add: check_one_def Let_def SIZEOF_IMG_HEADER_def)
  have "\<not> (t = s \<and> sa' = sa \<and> len' = len \<and> head = 0 \<and> \<not> sk \<and> \<not> rb)"
    if "flashing_loop t sa' len' head sk rb = Some y" for t sa' len' head sk rb y
    by (rule flashing_loop.raw_induct [OF _ that])
       (intro notI, elim conjE, simp add: step assms(2), blast)
  from this [of s sa len 0 False False] have "flashing_loop s sa len 0 False False = None"
    by (cases "flashing_loop s sa len 0 False False") simp_all
  then show ?thesis by (simp add: checkAutoFlashing_def)
qed

lemma checkAutoFlashing_hangs_witness:
  "checkAutoFlashing (sample_boot (sample_file [1, 2, 3, 4] [0xFF, 0xFF, 0xFF, 0xF0] [])) 0x80500000 40 = None"
proof -
  let ?m = "sample_file [1, 2, 3, 4] [0xFF, 0xFF, 0xFF, 0xF0] []"
  have "signature (read_header ?m 0x80500000) = [1, 2, 3, 4]" "hlen (read_header ?m 0x80500000) = 0xFFFFFFF0"
    by (simp_all add: read_header_def sample_file_def load32_def read_bytes_Suc_numeral) (simp add: le32_def)
  moreover have "find_sign [1, 2, 3, 4] = None"
    by (simp add: find_sign_def sign_tbl_def same_sig_def ascii_sigs SIG_LEN_def)
  ultimately show ?thesis
    using checkAutoFlashing_hangs [of "sample_boot ?m" "0x80500000" 40]
    by (simp add: SIZEOF_IMG_HEADER_def)
qed

end
