(* ===== verification/Bootimage.thy ===== *)
theory Bootimage
  imports Image
begin

text \<open>
  The boot-time search for a valid system image (\<^verbatim>\<open>boot/init/utility.c\<close>, SPI flash, one
  bank, no burn serial): the key poll, the checks of a kernel and of a root file system, the
  scan over the configured offsets, and the copy and jump that start the image. At that time
  the network is not up (\<open>tftp_client_enabled\<close> is 0), so \<open>user_interrupt\<close> polls the
  console once. \<open>flash_mem\<close> is the flash as the chip presents it to the bus.
\<close>

definition ESC :: u8 where "ESC = 0x1B"
definition ACCCNT_TOCHKKEY :: u32 where "ACCCNT_TOCHKKEY = 128 * 1024"
definition FLASH_BASE :: u32 where "FLASH_BASE = 0xB0000000"
definition CODE_IMAGE_OFFSET :: u32 where "CODE_IMAGE_OFFSET = 0x10000"
definition CODE_IMAGE_OFFSET2 :: u32 where "CODE_IMAGE_OFFSET2 = 0x20000"
definition CODE_IMAGE_OFFSET3 :: u32 where "CODE_IMAGE_OFFSET3 = 0x30000"
definition ROOT_FS_OFFSET :: u32 where "ROOT_FS_OFFSET = 0x260000"
definition ROOT_FS_OFFSET_OP1 :: u32 where "ROOT_FS_OFFSET_OP1 = 0x10000"
definition ROOT_FS_OFFSET_OP2 :: u32 where "ROOT_FS_OFFSET_OP2 = 0x40000"

definition LINUX_OFFSETS :: "u32 list" where \<comment> \<open>0x10000 to 0x80000 in steps of 0x1000\<close>
  "LINUX_OFFSETS = map (\<lambda>k. 0x10000 + of_nat k * 0x1000) [0..<113]"

definition ROOT_OFFSETS :: "u32 list" where \<comment> \<open>0x100000 to 0x300000 in steps of 0x1000\<close>
  "ROOT_OFFSETS = map (\<lambda>k. 0x100000 + of_nat k * 0x1000) [0..<513]"

section \<open>The console\<close>

text \<open>A poll finds a byte or nothing; a second read of the receive register drops the next byte.\<close>

definition pollingDownModeKeyword :: "u8 \<Rightarrow> 'a boot_state_scheme \<Rightarrow> bool \<times> 'a boot_state_scheme" where
  "pollingDownModeKeyword key s =
     (case uart s of
        Some i # rest \<Rightarrow>
          (let s = s\<lparr>uart := (case rest of Some _ # r \<Rightarrow> r | _ \<Rightarrow> rest)\<rparr>
           in if i = key then (True, s\<lparr>gCHKKEY_HIT := True\<rparr>) else (False, s))
      | None # rest \<Rightarrow> (False, s\<lparr>uart := rest\<rparr>)
      | [] \<Rightarrow> (False, s))"

definition user_interrupt :: "'a boot_state_scheme \<Rightarrow> bool \<times> 'a boot_state_scheme" where
  "user_interrupt s = pollingDownModeKeyword ESC s"

section \<open>Checking an image\<close>

definition chunk :: "u32 \<Rightarrow> u32" where
  "chunk d = (if d > 256 then 256 else d)"

lemma chunk_bounds: "unat (chunk d) = min 256 (unat d)"
  by (auto simp: chunk_def word_less_nat_alt)

lemma chunk_sub: "unat (d - chunk d) = unat d - unat (chunk d)"
  by (rule unat_sub) (simp add: word_le_nat_alt chunk_bounds)

text \<open>
  The loop that adds up \<open>len\<close> bytes of flash through the 256-byte buffer \<open>buf\<close>; a last odd
  byte is paired with what the buffer held before. The first result is \<open>None\<close> when the
  user interrupts.
\<close>

function sum_flash ::
    "'a boot_state_scheme \<Rightarrow> u32 \<Rightarrow> u32 \<Rightarrow> u32 \<Rightarrow> u16 \<Rightarrow> memory \<Rightarrow> u16 option \<times> 'a boot_state_scheme" where
  "sum_flash s addr len rd acc buf =
     (if len - rd > 0 then
        (let s1 = s\<lparr>gCHKKEY_CNT := gCHKKEY_CNT s + 1\<rparr>;
             (hit, s2) =
               (if gCHKKEY_CNT s1 > ACCCNT_TOCHKKEY
                then user_interrupt (s1\<lparr>gCHKKEY_CNT := 0\<rparr>) else (False, s1))
         in if hit then (None, s2)
            else
              (let num = chunk (len - rd);
                   (ok, fl, buf') = flashread (flash s2) 0 (addr + rd) num buf
               in sum_flash (s2\<lparr>flash := fl\<rparr>) addr len (rd + num)
                    (sum_swab16 buf' 0 ((unat num + 1) div 2) acc) buf'))
      else (Some acc, s))"
  by pat_completeness auto

termination
  by (relation "measure (\<lambda>(s, addr, len, rd, acc, buf). unat (len - rd))")
     (auto simp: diff_diff_eq [symmetric] chunk_sub chunk_bounds word_less_nat_alt)

declare sum_flash.simps [simp del]

definition check_system_image ::
    "'a boot_state_scheme \<Rightarrow> u32 \<Rightarrow> IMG_HEADER_T \<Rightarrow> int \<times> IMG_HEADER_T \<times> 'a boot_state_scheme" where
  "check_system_image s addr h =
     (if gCHKKEY_HIT s then (0, h, s)
      else
        (let (ok, fl, m) = flashread (flash s) 0 addr SIZEOF_IMG_HEADER (\<lambda>_. 0); s = s\<lparr>flash := fl\<rparr>
         in if \<not> ok then (0, h, s)
            else
              (let h = read_header m 0;
                   ret = (if same_sig 4 (signature h) FW_SIGNATURE then 1
                          else if same_sig 4 (signature h) FW_SIGNATURE_WITH_ROOT then 2 else 0)
               in if ret = 0 then (0, h, s)
                  else
                    (case sum_flash s (addr + SIZEOF_IMG_HEADER) (hlen h) 0 0 (\<lambda>_. 0) of
                       (None, s) \<Rightarrow> (0, h, s)
                     | (Some tot, s) \<Rightarrow> (if tot \<noteq> 0 then 0 else ret, h, s)))))"

definition check_rootfs_image :: "'a boot_state_scheme \<Rightarrow> u32 \<Rightarrow> bool \<times> 'a boot_state_scheme" where
  "check_rootfs_image s addr =
     (if gCHKKEY_HIT s then (False, s)
      else
        (let (ok, fl, tmpbuf) = flashread (flash s) 0 addr 16 (\<lambda>_. 0); s = s\<lparr>flash := fl\<rparr>
         in if \<not> ok then (False, s)
            else if \<not> same_sig 4 (read_bytes tmpbuf 0 4) SQSH_SIGNATURE
                  \<and> \<not> same_sig 4 (read_bytes tmpbuf 0 4) SQSH_SIGNATURE_LE then (False, s)
            else
              (case sum_flash s addr (swab32 (load32 tmpbuf 8) + 640 + 2) 0 0 tmpbuf of
                 (None, s) \<Rightarrow> (False, s)
               | (Some tot, s) \<Rightarrow> (tot = 0, s))))"

primrec scan_linux ::
    "u32 list \<Rightarrow> u32 \<Rightarrow> int \<times> IMG_HEADER_T \<times> 'a boot_state_scheme \<Rightarrow> int \<times> IMG_HEADER_T \<times> 'a boot_state_scheme" where
  "scan_linux [] bank r = r"
| "scan_linux (i # is) bank r =
     (case r of (ret, h, s) \<Rightarrow>
        if ret \<noteq> 0 then (ret, h, s)
        else
          (let s = s\<lparr>return_addr := FLASH_BASE + i + bank\<rparr>
           in if CODE_IMAGE_OFFSET = i \<or> CODE_IMAGE_OFFSET2 = i \<or> CODE_IMAGE_OFFSET3 = i
              then scan_linux is bank (ret, h, s)
              else scan_linux is bank (check_system_image s (FLASH_BASE + i + bank) h)))"

primrec scan_rootfs :: "u32 list \<Rightarrow> u32 \<Rightarrow> bool \<times> 'a boot_state_scheme \<Rightarrow> bool \<times> 'a boot_state_scheme" where
  "scan_rootfs [] bank r = r"
| "scan_rootfs (i # is) bank r =
     (case r of (ret, s) \<Rightarrow>
        if ret then (ret, s)
        else if ROOT_FS_OFFSET = i \<or> ROOT_FS_OFFSET + ROOT_FS_OFFSET_OP1 = i
          \<or> ROOT_FS_OFFSET + ROOT_FS_OFFSET_OP1 + ROOT_FS_OFFSET_OP2 = i
        then scan_rootfs is bank (ret, s)
        else scan_rootfs is bank (check_rootfs_image s (FLASH_BASE + i + bank)))"

text \<open>\<open>try_image\<close>: set \<open>return_addr\<close> and check there, when nothing has been found yet.\<close>

definition try_image ::
    "u32 \<Rightarrow> u32 \<Rightarrow> int \<times> IMG_HEADER_T \<times> 'a boot_state_scheme \<Rightarrow> int \<times> IMG_HEADER_T \<times> 'a boot_state_scheme" where
  "try_image i bank r =
     (case r of (ret, h, s) \<Rightarrow>
        if ret \<noteq> 0 then r
        else check_system_image (s\<lparr>return_addr := FLASH_BASE + i + bank\<rparr>) (FLASH_BASE + i + bank) h)"

definition try_rootfs :: "u32 \<Rightarrow> u32 \<Rightarrow> bool \<times> 'a boot_state_scheme \<Rightarrow> bool \<times> 'a boot_state_scheme" where
  "try_rootfs i bank r = (case r of (ret, s) \<Rightarrow> if ret then r else check_rootfs_image s (FLASH_BASE + i + bank))"

definition check_image_header ::
    "'a boot_state_scheme \<Rightarrow> IMG_HEADER_T \<Rightarrow> u32 \<Rightarrow> int \<times> IMG_HEADER_T \<times> 'a boot_state_scheme" where
  "check_image_header s h bank =
     (let r = try_image CODE_IMAGE_OFFSET bank (0, h, s);
          r = try_image CODE_IMAGE_OFFSET2 bank r;
          r = try_image CODE_IMAGE_OFFSET3 bank r;
          (ret, h, s) = scan_linux LINUX_OFFSETS bank r
      in if ret = 2
         then (let q = check_rootfs_image s (FLASH_BASE + ROOT_FS_OFFSET + bank);
                   q = try_rootfs (ROOT_FS_OFFSET + ROOT_FS_OFFSET_OP1) bank q;
                   q = try_rootfs (ROOT_FS_OFFSET + ROOT_FS_OFFSET_OP1 + ROOT_FS_OFFSET_OP2) bank q;
                   (ok, s) = scan_rootfs ROOT_OFFSETS bank q
               in (if ok then 1 else 0, h, s))
         else (ret, h, s))"

text \<open>One bank, no boot info: \<open>check_image\<close> looks at bank 0 only.\<close>

definition check_image ::
    "'a boot_state_scheme \<Rightarrow> IMG_HEADER_T \<Rightarrow> int \<times> IMG_HEADER_T \<times> 'a boot_state_scheme" where
  "check_image s h = check_image_header s h 0"

text \<open>
  \<open>goToLocalStartMode\<close>: the payload without its two checksum bytes is copied through the
  uncached alias of the start address, then control goes there. The writes to the interrupt
  and timer registers before the jump are not part of the state.
\<close>

definition goToLocalStartMode :: "'a boot_state_scheme \<Rightarrow> u32 \<Rightarrow> IMG_HEADER_T \<Rightarrow> 'a boot_state_scheme" where
  "goToLocalStartMode s addr h =
     (let (ok, fl, m) = flashread (flash s) 0 addr SIZEOF_IMG_HEADER (\<lambda>_. 0);
          h = (if ok then read_header m 0 else
                 h\<lparr>startAddr := swab32 (startAddr h), burnAddr := swab32 (burnAddr h), hlen := swab32 (hlen h)\<rparr>);
          (ok, fl, m) = flashread fl (startAddr h OR 0x20000000) (addr - FLASH_BASE + SIZEOF_IMG_HEADER)
                          (hlen h - 2) (mem s)
      in s\<lparr>flash := fl, mem := m, run := Jumped (startAddr h)\<rparr>)"

section \<open>Lemmas\<close>

definition flash_mem :: "m25p \<Rightarrow> memory" where
  "flash_mem fl = (\<lambda>a. cells (chip fl) (unat a mod nor_size (chip fl)))"

lemma flash_mem_ready [simp]: "flash_mem (ready fl) = flash_mem fl"
  by (simp add: flash_mem_def)

lemma ready_ready [simp]: "ready (ready fl) = ready fl"
  by (simp add: ready_def)

lemma flash_mem_eq: "ready fl = ready fl' \<Longrightarrow> flash_mem fl = flash_mem fl'"
  by (metis flash_mem_ready)

lemma m25p_ok_eq: "ready fl = ready fl' \<Longrightarrow> m25p_ok fl = m25p_ok fl'"
  by (metis m25p_ok_with_cells(2))

lemma flash_mem_add:
  assumes "m25p_ok fl"
  shows "flash_mem fl (src + of_nat k) = cells (chip fl) ((unat src + k) mod nor_size (chip fl))"
proof -
  have "nor_size (chip fl) dvd 2 ^ 24 \<or> nor_size (chip fl) dvd 2 ^ 28"
    using assms unfolding m25p_ok_def by blast
  then have "nor_size (chip fl) dvd 2 ^ 32"
  proof
    assume "nor_size (chip fl) dvd 2 ^ 24"
    then show ?thesis by (rule dvd_trans) (simp add: dvd_eq_mod_eq_0)
  next
    assume "nor_size (chip fl) dvd 2 ^ 28"
    then show ?thesis by (rule dvd_trans) (simp add: dvd_eq_mod_eq_0)
  qed
  moreover have "unat (src + of_nat k) = (unat src + k) mod 2 ^ 32"
    by (simp add: unat_word_ariths unat_of_nat mod_simps)
  ultimately show ?thesis by (simp add: flash_mem_def mod_mod_cancel)
qed

lemma flashread_mem:
  "m25p_ok fl \<Longrightarrow> flashread fl dst src n m =
    (True, ready fl, write_bytes dst (read_bytes (flash_mem fl) src (unat n)) m)"
  using flashread_ok [of fl dst src n m]
  by (simp, intro arg_cong [where f = "\<lambda>xs. write_bytes dst xs m"] nth_equalityI)
     (simp_all add: read_bytes_nth flash_mem_add)

lemma sum_swab16_append:
  "sum_swab16 m a (n + k) acc = sum_swab16 m (a + 2 * of_nat n) k (sum_swab16 m a n acc)"
  by (induction n arbitrary: a acc) (simp_all add: algebra_simps)

lemma sum_swab16_cong:
  "(\<And>j. j < 2 * n \<Longrightarrow> m (a + of_nat j) = m' (b + of_nat j)) \<Longrightarrow> sum_swab16 m a n acc = sum_swab16 m' b n acc"
proof (induction n arbitrary: a b acc)
  case (Suc n)
  have "load16 m a = load16 m' b"
    using Suc.prems [of 0] Suc.prems [of 1] by (simp add: load16_def)
  moreover have "sum_swab16 m (a + 2) n t = sum_swab16 m' (b + 2) n t" for t
  proof (rule Suc.IH)
    fix j assume "j < 2 * n"
    then show "m (a + 2 + of_nat j) = m' (b + 2 + of_nat j)"
      using Suc.prems [of "j + 2"] by (simp add: algebra_simps)
  qed
  ultimately show ?case by simp
qed simp

lemma user_interrupt_frame:
  "user_interrupt s = (hit, s') \<Longrightarrow> flash s' = flash s \<and> return_addr s' = return_addr s \<and> mem s' = mem s
    \<and> run s' = run s \<and> txlog s' = txlog s"
  by (auto simp: user_interrupt_def pollingDownModeKeyword_def Let_def split: list.splits option.splits if_splits)

text \<open>One round of the loop: interrupted, or a chunk further.\<close>

lemma sum_flash_step:
  fixes s :: "'a boot_state_scheme"
  assumes ok: "m25p_ok (flash s)" and more: "len - rd > 0"
  defines "n \<equiv> chunk (len - rd)"
  shows "\<exists>hit s2 buf' acc'. flash s2 = flash s \<and> return_addr s2 = return_addr s \<and>
    (gCHKKEY_CNT s < ACCCNT_TOCHKKEY \<longrightarrow> \<not> hit \<and> gCHKKEY_CNT s2 = gCHKKEY_CNT s + 1) \<and>
    sum_flash s addr len rd acc buf =
      (if hit then (None, s2)
       else sum_flash (s2\<lparr>flash := ready (flash s)\<rparr>) addr len (rd + n) acc' buf') \<and>
    (even (unat n) \<longrightarrow> acc' = sum_swab16 (flash_mem (flash s)) (addr + rd) (unat n div 2) acc)"
proof -
  let ?s1 = "s\<lparr>gCHKKEY_CNT := gCHKKEY_CNT s + 1\<rparr>"
  define q where "q = (if gCHKKEY_CNT ?s1 > ACCCNT_TOCHKKEY
     then user_interrupt (?s1\<lparr>gCHKKEY_CNT := 0\<rparr>) else (False, ?s1))"
  obtain hit s2 where hs: "q = (hit, s2)" by (cases q)
  have frame: "flash s2 = flash s" "return_addr s2 = return_addr s"
    using hs user_interrupt_frame [of "?s1\<lparr>gCHKKEY_CNT := 0\<rparr>" hit s2]
    by (auto simp: q_def split: if_splits)
  have low: "gCHKKEY_CNT s < ACCCNT_TOCHKKEY \<longrightarrow> \<not> hit \<and> gCHKKEY_CNT s2 = gCHKKEY_CNT s + 1"
  proof
    assume "gCHKKEY_CNT s < ACCCNT_TOCHKKEY"
    then have "\<not> gCHKKEY_CNT s + 1 > ACCCNT_TOCHKKEY"
      by (simp add: not_less inc_le)
    then show "\<not> hit \<and> gCHKKEY_CNT s2 = gCHKKEY_CNT s + 1" using hs by (auto simp: q_def)
  qed
  define buf' where "buf' = write_bytes 0 (read_bytes (flash_mem (flash s)) (addr + rd) (unat n)) buf"
  have "sum_swab16 buf' 0 ((unat n + 1) div 2) acc = sum_swab16 (flash_mem (flash s)) (addr + rd) (unat n div 2) acc"
    if evn: "even (unat n)"
  proof -
    have "(unat n + 1) div 2 = unat n div 2" using evn by simp
    moreover have "sum_swab16 buf' 0 (unat n div 2) acc = sum_swab16 (flash_mem (flash s)) (addr + rd) (unat n div 2) acc"
    proof (rule sum_swab16_cong)
      fix j assume "j < 2 * (unat n div 2)"
      then have j: "j < unat n" by simp
      have "unat n \<le> 256" by (simp add: n_def chunk_bounds)
      then show "buf' (0 + of_nat j) = flash_mem (flash s) (addr + rd + of_nat j)"
        using write_bytes_nth [of j "read_bytes (flash_mem (flash s)) (addr + rd) (unat n)" 0 buf] j
        by (simp add: buf'_def read_bytes_nth)
    qed
    ultimately show ?thesis by simp
  qed
  moreover have "sum_flash s addr len rd acc buf =
      (if hit then (None, s2) else sum_flash (s2\<lparr>flash := ready (flash s)\<rparr>) addr len (rd + n)
        (sum_swab16 buf' 0 ((unat n + 1) div 2) acc) buf')"
    using more hs flashread_mem [OF ok, of 0 "addr + rd" n buf] frame(1)
    unfolding q_def by (subst sum_flash.simps) (simp add: Let_def n_def buf'_def)
  ultimately show ?thesis using frame low by blast
qed

lemma sum_flash_ok:
  assumes "m25p_ok (flash s)"
  shows "\<exists>r s'. sum_flash s addr len rd acc buf = (r, s') \<and> ready (flash s') = ready (flash s) \<and>
    return_addr s' = return_addr s \<and>
    (\<forall>v. r = Some v \<longrightarrow> even (unat (len - rd)) \<longrightarrow>
       v = sum_swab16 (flash_mem (flash s)) (addr + rd) (unat (len - rd) div 2) acc) \<and>
    (unat (gCHKKEY_CNT s) + (unat (len - rd) + 255) div 256 \<le> unat ACCCNT_TOCHKKEY \<longrightarrow> r \<noteq> None)"
  using assms
proof (induction "unat (len - rd)" arbitrary: s rd acc buf rule: less_induct)
  case less
  show ?case
  proof (cases "len - rd > 0")
    case False
    then have "len - rd = 0" by (simp add: word_gt_0)
    then show ?thesis by (subst sum_flash.simps) simp
  next
    case True
    define n where "n = chunk (len - rd)"
    have rest: "unat (len - (rd + n)) = unat (len - rd) - unat n"
      by (simp add: n_def diff_diff_eq [symmetric] chunk_sub)
    have n: "0 < unat n" "unat n \<le> unat (len - rd)" "even (unat (len - rd)) \<Longrightarrow> even (unat n)"
      using True by (auto simp: n_def chunk_bounds word_less_nat_alt min_def)
    obtain hit s2 buf' acc' where s2: "flash s2 = flash s" "return_addr s2 = return_addr s"
      "gCHKKEY_CNT s < ACCCNT_TOCHKKEY \<longrightarrow> \<not> hit \<and> gCHKKEY_CNT s2 = gCHKKEY_CNT s + 1"
      and step: "sum_flash s addr len rd acc buf =
        (if hit then (None, s2)
         else sum_flash (s2\<lparr>flash := ready (flash s)\<rparr>) addr len (rd + n) acc' buf')"
      and acc': "even (unat n) \<Longrightarrow> acc' = sum_swab16 (flash_mem (flash s)) (addr + rd) (unat n div 2) acc"
      using sum_flash_step [OF less.prems(1) True, of addr acc buf] unfolding n_def by blast
    show ?thesis
    proof (cases hit)
      case True
      then have "\<not> unat (gCHKKEY_CNT s) + 1 \<le> unat ACCCNT_TOCHKKEY"
        using s2(3) by (auto simp: word_less_nat_alt)
      moreover have "1 \<le> (unat (len - rd) + 255) div 256" using n by linarith
      ultimately show ?thesis using step True s2 by simp
    next
      case False
      let ?s = "s2\<lparr>flash := ready (flash s)\<rparr>"
      obtain r s' where IH: "sum_flash ?s addr len (rd + n) acc' buf' = (r, s')"
        "ready (flash s') = ready (flash s)" "return_addr s' = return_addr s"
        "\<forall>v. r = Some v \<longrightarrow> even (unat (len - (rd + n))) \<longrightarrow>
           v = sum_swab16 (flash_mem (flash s)) (addr + (rd + n)) (unat (len - (rd + n)) div 2) acc'"
        "unat (gCHKKEY_CNT s2) + (unat (len - (rd + n)) + 255) div 256 \<le> unat ACCCNT_TOCHKKEY \<longrightarrow> r \<noteq> None"
        using less.hyps [of "rd + n" ?s acc' buf'] less.prems n s2 by (auto simp: rest)
      have "sum_swab16 (flash_mem (flash s)) (addr + (rd + n)) (unat (len - (rd + n)) div 2) acc' =
          sum_swab16 (flash_mem (flash s)) (addr + rd) (unat (len - rd) div 2) acc"
        if ev: "even (unat (len - rd))"
      proof -
        have "of_nat (2 * (unat n div 2)) = n" using n(3) [OF ev] by simp
        then have "2 * of_nat (unat n div 2) = n" by simp
        moreover have "unat n div 2 + unat (len - (rd + n)) div 2 = unat (len - rd) div 2"
          using div_plus_div_distrib_dvd_left [OF n(3) [OF ev], of "unat (len - (rd + n))"] n(2) by (simp add: rest)
        ultimately show ?thesis
          using sum_swab16_append [of "flash_mem (flash s)" "addr + rd" "unat n div 2"
            "unat (len - (rd + n)) div 2" acc] by (simp only: add.assoc acc' [OF n(3) [OF ev]])
      qed
      moreover have "even (unat (len - (rd + n)))" if "even (unat (len - rd))"
        using n(2) n(3) [OF that] that by (simp add: rest)
      moreover have "r \<noteq> None"
        if le: "unat (gCHKKEY_CNT s) + (unat (len - rd) + 255) div 256 \<le> unat ACCCNT_TOCHKKEY"
      proof -
        have rounds: "(unat (len - (rd + n)) + 255) div 256 + 1 = (unat (len - rd) + 255) div 256"
        proof -
          have "unat n = min 256 (unat (len - rd))" by (simp add: n_def chunk_bounds)
          moreover have "(L - min 256 L + 255) div 256 + 1 = (L + 255) div 256" if "0 < L" for L :: nat
            using that by (cases "256 \<le> L") (auto simp: min_def dest!: le_Suc_ex)
          ultimately show ?thesis using n by (simp only: rest)
        qed
        then have "gCHKKEY_CNT s < ACCCNT_TOCHKKEY" using le by (simp add: word_less_nat_alt)
        then have "unat (gCHKKEY_CNT s2) = unat (gCHKKEY_CNT s) + 1"
          using s2(3) by (simp add: unat_word_ariths word_less_nat_alt ACCCNT_TOCHKKEY_def)
        then show ?thesis using rounds le IH(5) by simp
      qed
      ultimately show ?thesis using step False IH by auto
    qed
  qed
qed

lemma read_header_cong:
  assumes "\<And>k. k < 16 \<Longrightarrow> m (a + of_nat k) = m' (b + of_nat k)"
  shows "read_header m a = read_header m' b"
proof -
  have "read_bytes m a 16 = read_bytes m' b 16"
    by (rule nth_equalityI) (use assms in \<open>simp_all only: length_read_bytes read_bytes_nth\<close>)
  then show ?thesis
    by (simp add: read_header_def load32_def algebra_simps)
qed

lemma read_header_flash:
  assumes "m25p_ok fl"
  shows "flashread fl 0 addr SIZEOF_IMG_HEADER (\<lambda>_. 0) = (True, ready fl, m) \<Longrightarrow>
    read_header m 0 = read_header (flash_mem fl) addr"
proof -
  assume "flashread fl 0 addr SIZEOF_IMG_HEADER (\<lambda>_. 0) = (True, ready fl, m)"
  then have m: "m = write_bytes 0 (read_bytes (flash_mem fl) addr 16) (\<lambda>_. 0)"
    by (simp add: flashread_mem [OF assms] SIZEOF_IMG_HEADER_def del: read_bytes_Suc_numeral)
  show ?thesis
  proof (rule read_header_cong)
    fix k :: nat assume k: "k < 16"
    then show "m (0 + of_nat k) = flash_mem fl (addr + of_nat k)"
      using write_bytes_nth [of k "read_bytes (flash_mem fl) addr 16" 0 "\<lambda>_. 0"]
      by (simp add: m read_bytes_nth del: read_bytes_Suc_numeral)
  qed
qed

text \<open>
  What a successful check vouches for: a system signature, and payload halfwords that add up
  to 0 (for a payload of even length; an odd last byte is summed with stale buffer contents).
\<close>

definition bootable :: "memory \<Rightarrow> u32 \<Rightarrow> bool" where
  "bootable m a \<longleftrightarrow>
     (let H = read_header m a
      in (same_sig 4 (signature H) FW_SIGNATURE \<or> same_sig 4 (signature H) FW_SIGNATURE_WITH_ROOT)
         \<and> (even (unat (hlen H)) \<longrightarrow> sum_swab16 m (a + SIZEOF_IMG_HEADER) (unat (hlen H) div 2) 0 = 0))"

text \<open>
  What a successful check of a root file system vouches for: its signature, and halfwords that add
  up to 0 over the length in the superblock and 642 bytes more.
\<close>

definition rootfs_sig :: "memory \<Rightarrow> u32 \<Rightarrow> bool" where
  "rootfs_sig m a \<longleftrightarrow> same_sig 4 (read_bytes m a 4) SQSH_SIGNATURE \<or> same_sig 4 (read_bytes m a 4) SQSH_SIGNATURE_LE"

definition rootfs_len :: "memory \<Rightarrow> u32 \<Rightarrow> u32" where
  "rootfs_len m a = swab32 (load32 m (a + 8)) + 642"

definition rootfs_ok :: "memory \<Rightarrow> u32 \<Rightarrow> bool" where
  "rootfs_ok m a \<longleftrightarrow> rootfs_sig m a \<and> (even (unat (rootfs_len m a)) \<longrightarrow> sum_swab16 m a (unat (rootfs_len m a) div 2) 0 = 0)"

text \<open>The addresses the search looks at for a root file system.\<close>

definition window :: "u32 list \<Rightarrow> u32 list" where "window = map (\<lambda>i. FLASH_BASE + i + 0)"

definition ROOT_ADDRS :: "u32 list" where
  "ROOT_ADDRS = window ([ROOT_FS_OFFSET, ROOT_FS_OFFSET + ROOT_FS_OFFSET_OP1, ROOT_FS_OFFSET + ROOT_FS_OFFSET_OP1 + ROOT_FS_OFFSET_OP2]
     @ filter (\<lambda>i. i \<notin> {ROOT_FS_OFFSET, ROOT_FS_OFFSET + ROOT_FS_OFFSET_OP1, ROOT_FS_OFFSET + ROOT_FS_OFFSET_OP1 + ROOT_FS_OFFSET_OP2})
         ROOT_OFFSETS)"

definition vouched :: "'a boot_state_scheme \<Rightarrow> int \<times> IMG_HEADER_T \<times> 'a boot_state_scheme \<Rightarrow> bool" where
  "vouched s0 r \<longleftrightarrow>
     (case r of (ret, h, s) \<Rightarrow> ready (flash s) = ready (flash s0) \<and>
        (ret \<noteq> 0 \<longrightarrow> (ret = 1 \<and> same_sig 4 (signature h) FW_SIGNATURE \<or> ret = 2)
          \<and> bootable (flash_mem (flash s0)) (return_addr s) \<and> h = read_header (flash_mem (flash s0)) (return_addr s)))"

text \<open>\<open>check_system_image\<close> with the flash accesses carried out.\<close>

lemma check_system_image_eq:
  fixes addr :: u32
  assumes ok: "m25p_ok (flash s)" and "\<not> gCHKKEY_HIT s"
  defines "H \<equiv> read_header (flash_mem (flash s)) addr" and "s1 \<equiv> s\<lparr>flash := ready (flash s)\<rparr>"
  shows "check_system_image s addr h =
    (let ret = (if same_sig 4 (signature H) FW_SIGNATURE then 1
                else if same_sig 4 (signature H) FW_SIGNATURE_WITH_ROOT then 2 else 0)
     in if ret = 0 then (0, H, s1)
        else (case sum_flash s1 (addr + SIZEOF_IMG_HEADER) (hlen H) 0 0 (\<lambda>_. 0) of
                (None, s) \<Rightarrow> (0, H, s) | (Some tot, s) \<Rightarrow> (if tot \<noteq> 0 then 0 else ret, H, s)))"
proof -
  obtain m where m: "flashread (flash s) 0 addr SIZEOF_IMG_HEADER (\<lambda>_. 0) = (True, ready (flash s), m)"
    by (simp add: flashread_mem [OF ok])
  have hdr: "read_header m 0 = H" using read_header_flash [OF ok m] by (simp add: H_def)
  show ?thesis
    using assms(2) unfolding check_system_image_def m Let_def prod.case hdr s1_def by simp
qed

lemma check_system_image_ok:
  assumes ok: "m25p_ok (flash s)" and res: "check_system_image s addr h = (ret, h', s')"
  shows "ready (flash s') = ready (flash s) \<and> return_addr s' = return_addr s \<and>
    (ret \<noteq> 0 \<longrightarrow> (ret = 1 \<and> same_sig 4 (signature h') FW_SIGNATURE \<or> ret = 2) \<and> bootable (flash_mem (flash s)) addr
      \<and> h' = read_header (flash_mem (flash s)) addr)"
proof (cases "gCHKKEY_HIT s")
  case True
  then show ?thesis using res by (auto simp: check_system_image_def)
next
  case False
  define H where "H = read_header (flash_mem (flash s)) addr"
  let ?s1 = "s\<lparr>flash := ready (flash s)\<rparr>"
  obtain r s2 where sum: "sum_flash ?s1 (addr + SIZEOF_IMG_HEADER) (hlen H) 0 0 (\<lambda>_. 0) = (r, s2)"
    "ready (flash s2) = ready (flash s)" "return_addr s2 = return_addr s"
    "\<forall>v. r = Some v \<longrightarrow> even (unat (hlen H)) \<longrightarrow>
       v = sum_swab16 (flash_mem (flash s)) (addr + SIZEOF_IMG_HEADER) (unat (hlen H) div 2) 0"
    using sum_flash_ok [where s = ?s1 and len = "hlen H" and rd = 0 and addr = "addr + SIZEOF_IMG_HEADER"
        and acc = 0 and buf = "\<lambda>_. 0"] ok by auto
  show ?thesis
    using res check_system_image_eq [OF ok False, of addr h] sum
    by (cases r) (auto simp: H_def [symmetric] bootable_def Let_def split: if_splits)
qed

text \<open>\<open>check_rootfs_image\<close> with the flash accesses carried out.\<close>

lemma check_rootfs_image_eq:
  fixes addr :: u32
  assumes ok: "m25p_ok (flash s)" and "\<not> gCHKKEY_HIT s"
  defines "m \<equiv> flash_mem (flash s)" and "s1 \<equiv> s\<lparr>flash := ready (flash s)\<rparr>"
    and "buf \<equiv> write_bytes 0 (read_bytes (flash_mem (flash s)) addr 16) (\<lambda>_. 0)"
  shows "check_rootfs_image s addr =
    (if rootfs_sig m addr
     then (case sum_flash s1 addr (rootfs_len m addr) 0 0 buf of (None, s) \<Rightarrow> (False, s) | (Some tot, s) \<Rightarrow> (tot = 0, s))
     else (False, s1))"
proof -
  have rd: "flashread (flash s) 0 addr 16 (\<lambda>_. 0) = (True, ready (flash s), buf)"
    using flashread_mem [OF ok, of 0 addr 16 "\<lambda>_. 0"] by (simp add: buf_def del: read_bytes_Suc_numeral)
  have byte: "buf (of_nat k) = m (addr + of_nat k)" if "k < 16" for k
    using write_bytes_nth [of k "read_bytes m addr 16" 0 "\<lambda>_. 0"] that
    by (simp add: buf_def m_def read_bytes_nth del: read_bytes_Suc_numeral)
  have sig: "read_bytes buf 0 4 = read_bytes m addr 4"
    by (rule read_bytes_cong) (simp add: byte)
  have len: "swab32 (load32 buf 8) + 640 + 2 = rootfs_len m addr"
    using byte [of 8] byte [of 9] byte [of 10] byte [of 11] by (simp add: rootfs_len_def load32_def algebra_simps)
  show ?thesis
    using assms(2) unfolding check_rootfs_image_def rd rootfs_sig_def s1_def
    by (simp add: Let_def len sig del: read_bytes_Suc_numeral split: option.splits)
qed

lemma check_rootfs_image_ok:
  assumes ok: "m25p_ok (flash s)" and res: "check_rootfs_image s addr = (ret, s')"
  shows "ready (flash s') = ready (flash s) \<and> return_addr s' = return_addr s
    \<and> (ret \<longrightarrow> rootfs_ok (flash_mem (flash s)) addr)"
proof (cases "gCHKKEY_HIT s")
  case True
  then show ?thesis using res by (auto simp: check_rootfs_image_def)
next
  case False
  let ?s1 = "s\<lparr>flash := ready (flash s)\<rparr>" and ?m = "flash_mem (flash s)"
  let ?buf = "write_bytes 0 (read_bytes ?m addr 16) (\<lambda>_. 0)"
  obtain r s2 where sum: "sum_flash ?s1 addr (rootfs_len ?m addr) 0 0 ?buf = (r, s2)"
    "ready (flash s2) = ready (flash s)" "return_addr s2 = return_addr s"
    "\<forall>v. r = Some v \<longrightarrow> even (unat (rootfs_len ?m addr)) \<longrightarrow> v = sum_swab16 ?m addr (unat (rootfs_len ?m addr) div 2) 0"
    using sum_flash_ok [where s = ?s1 and len = "rootfs_len ?m addr" and rd = 0
        and addr = addr and acc = 0 and buf = ?buf] ok by auto
  show ?thesis
    using res sum unfolding check_rootfs_image_eq [OF ok False] by (cases r) (auto simp: rootfs_ok_def split: if_splits)
qed

section \<open>The search vouches for what it finds\<close>

lemma vouched_ok: "vouched s0 (ret, h, s) \<Longrightarrow> m25p_ok (flash s0) \<Longrightarrow>
    m25p_ok (flash s) \<and> flash_mem (flash s) = flash_mem (flash s0)"
  using m25p_ok_eq [of "flash s" "flash s0"] flash_mem_eq [of "flash s" "flash s0"]
  by (simp add: vouched_def)

lemma vouched_check:
  assumes "vouched s0 (0, h, s)" "m25p_ok (flash s0)"
  shows "vouched s0 (check_system_image (s\<lparr>return_addr := a\<rparr>) a h)"
proof -
  obtain ret h' s' where res: "check_system_image (s\<lparr>return_addr := a\<rparr>) a h = (ret, h', s')"
    by (metis prod_cases3)
  have ok: "m25p_ok (flash (s\<lparr>return_addr := a\<rparr>))" using vouched_ok [OF assms] by simp
  show ?thesis
    using check_system_image_ok [OF ok res] vouched_ok [OF assms] assms(1) by (auto simp: res vouched_def)
qed

lemma vouched_try: "vouched s0 r \<Longrightarrow> m25p_ok (flash s0) \<Longrightarrow> vouched s0 (try_image i bank r)"
  using vouched_check by (auto simp: try_image_def split: prod.splits)

lemma vouched_scan: "vouched s0 r \<Longrightarrow> m25p_ok (flash s0) \<Longrightarrow> vouched s0 (scan_linux is bank r)"
proof (induction "is" arbitrary: r)
  case (Cons i "is")
  obtain ret h s where r: "r = (ret, h, s)" by (cases r)
  have "vouched s0 (0, h, s\<lparr>return_addr := a\<rparr>)" if "ret = 0" for a
    using Cons.prems(1) that by (simp add: vouched_def r)
  note set_ret = this
  show ?case
  proof (cases "ret = 0")
    case True
    note checked = vouched_check [OF _ Cons.prems(2), of h s "FLASH_BASE + i + bank"]
    have "vouched s0 (check_system_image (s\<lparr>return_addr := FLASH_BASE + i + bank\<rparr>) (FLASH_BASE + i + bank) h)"
      using Cons.prems(1) True by (intro checked) (simp add: r)
    from Cons.IH [OF this Cons.prems(2)] Cons.IH [OF set_ret [OF True] Cons.prems(2)] show ?thesis
      using True by (simp add: r Let_def)
  qed (use Cons.prems(1) in \<open>simp add: r\<close>)
qed simp

text \<open>The state of the search for a root file system after the addresses \<open>as\<close>.\<close>

definition roots_ok :: "'a boot_state_scheme \<Rightarrow> u32 list \<Rightarrow> bool \<times> 'a boot_state_scheme \<Rightarrow> bool" where
  "roots_ok s0 as q \<longleftrightarrow>
     (case q of (ret, s) \<Rightarrow> ready (flash s) = ready (flash s0) \<and> return_addr s = return_addr s0
        \<and> (ret \<longrightarrow> (\<exists>a \<in> set as. rootfs_ok (flash_mem (flash s0)) a)))"

lemma roots_check:
  assumes "m25p_ok (flash s0)" "roots_ok s0 as (False, s)" "a \<in> set as'" "set as \<subseteq> set as'"
  shows "roots_ok s0 as' (check_rootfs_image s a)"
proof -
  have s: "ready (flash s) = ready (flash s0)" "return_addr s = return_addr s0" using assms(2) by (simp_all add: roots_ok_def)
  obtain ret t where c: "check_rootfs_image s a = (ret, t)" by (cases "check_rootfs_image s a")
  have "m25p_ok (flash s)" using m25p_ok_eq [OF s(1)] assms(1) by simp
  from check_rootfs_image_ok [OF this c] show ?thesis
    using s flash_mem_eq [OF s(1)] assms(3) by (auto simp: roots_ok_def c)
qed

lemma roots_more: "roots_ok s0 as q \<Longrightarrow> set as \<subseteq> set as' \<Longrightarrow> roots_ok s0 as' q"
  by (auto simp: roots_ok_def)

lemma roots_try:
  assumes "m25p_ok (flash s0)" "roots_ok s0 as q"
  shows "roots_ok s0 (as @ [FLASH_BASE + i + bank]) (try_rootfs i bank q)"
proof -
  let ?a = "FLASH_BASE + i + bank"
  obtain ret s where q: "q = (ret, s)" by (cases q)
  show ?thesis
  proof (cases ret)
    case True
    then show ?thesis using roots_more [OF assms(2), of "as @ [?a]"] by (simp add: q try_rootfs_def subset_insertI)
  next
    case False
    then have "roots_ok s0 (as @ [?a]) (check_rootfs_image s ?a)"
      using assms(2) by (intro roots_check [OF assms(1)]) (auto simp: q)
    then show ?thesis using False by (simp add: q try_rootfs_def)
  qed
qed

lemma roots_scan:
  assumes "m25p_ok (flash s0)" "roots_ok s0 as q"
    and Q: "\<And>i. Q i \<longleftrightarrow> \<not> (ROOT_FS_OFFSET = i \<or> ROOT_FS_OFFSET + ROOT_FS_OFFSET_OP1 = i
      \<or> ROOT_FS_OFFSET + ROOT_FS_OFFSET_OP1 + ROOT_FS_OFFSET_OP2 = i)"
  shows "roots_ok s0 (as @ map (\<lambda>i. FLASH_BASE + i + bank) (filter Q is)) (scan_rootfs is bank q)"
  using assms(2)
proof (induction "is" arbitrary: as q)
  case (Cons i "is")
  obtain ret s where q: "q = (ret, s)" by (cases q)
  let ?a = "FLASH_BASE + i + bank"
  show ?case
  proof (cases "ret \<or> \<not> Q i")
    case True
    show ?thesis
    proof (cases ret)
      case True
      have "scan_rootfs (i # is) bank q = q" using True by (simp add: q)
      moreover have "roots_ok s0 (as @ map (\<lambda>i. FLASH_BASE + i + bank) (filter Q (i # is))) q"
        by (rule roots_more [OF Cons.prems]) simp
      ultimately show ?thesis by simp
    next
      case False
      then have "\<not> Q i" using \<open>ret \<or> \<not> Q i\<close> by simp
      then show ?thesis using Cons.IH [OF Cons.prems] False Q [of i] by (simp add: q)
    qed
  next
    case False
    then have "roots_ok s0 (as @ [?a]) (check_rootfs_image s ?a)"
      using Cons.prems by (intro roots_check [OF assms(1)]) (auto simp: q)
    from Cons.IH [OF this] show ?thesis using False Q [of i] by (simp add: q)
  qed
qed simp

lemma ROOT_ADDRS_eq:
  "ROOT_ADDRS = ([FLASH_BASE + ROOT_FS_OFFSET + 0] @ [FLASH_BASE + (ROOT_FS_OFFSET + ROOT_FS_OFFSET_OP1) + 0]
     @ [FLASH_BASE + (ROOT_FS_OFFSET + ROOT_FS_OFFSET_OP1 + ROOT_FS_OFFSET_OP2) + 0])
     @ map (\<lambda>i. FLASH_BASE + i + 0) (filter (\<lambda>i. i \<notin> {ROOT_FS_OFFSET, ROOT_FS_OFFSET + ROOT_FS_OFFSET_OP1,
         ROOT_FS_OFFSET + ROOT_FS_OFFSET_OP1 + ROOT_FS_OFFSET_OP2}) ROOT_OFFSETS)"
  by (simp add: ROOT_ADDRS_def window_def)

lemma check_image_header_ok:
  assumes ok: "m25p_ok (flash s)" and res: "check_image_header s h 0 = (ret, h', s')" and "ret \<noteq> 0"
  shows "bootable (flash_mem (flash s)) (return_addr s') \<and>
    h' = read_header (flash_mem (flash s)) (return_addr s') \<and> ret = 1 \<and>
    (same_sig 4 (signature h') FW_SIGNATURE \<or> (\<exists>a \<in> set ROOT_ADDRS. rootfs_ok (flash_mem (flash s)) a))"
proof -
  let ?m = "flash_mem (flash s)"
  define r where "r = scan_linux LINUX_OFFSETS 0 (try_image CODE_IMAGE_OFFSET3 0
    (try_image CODE_IMAGE_OFFSET2 0 (try_image CODE_IMAGE_OFFSET 0 (0, h, s))))"
  obtain ret1 h1 s1 where r: "r = (ret1, h1, s1)" by (cases r)
  have v: "vouched s (ret1, h1, s1)"
    unfolding r [symmetric] r_def by (intro vouched_scan vouched_try ok) (simp add: vouched_def)
  note m = vouched_ok [OF v ok]
  define q where "q = scan_rootfs ROOT_OFFSETS 0 (try_rootfs (ROOT_FS_OFFSET + ROOT_FS_OFFSET_OP1 + ROOT_FS_OFFSET_OP2) 0
    (try_rootfs (ROOT_FS_OFFSET + ROOT_FS_OFFSET_OP1) 0 (check_rootfs_image s1 (FLASH_BASE + ROOT_FS_OFFSET + 0))))"
  have "roots_ok s1 [FLASH_BASE + ROOT_FS_OFFSET + 0] (check_rootfs_image s1 (FLASH_BASE + ROOT_FS_OFFSET + 0))"
    using m by (intro roots_check [where as = "[]"]) (simp_all add: roots_ok_def)
  then have q: "roots_ok s1 ROOT_ADDRS q"
    unfolding ROOT_ADDRS_eq q_def append_assoc [symmetric] using m by (intro roots_scan roots_try) auto
  have eq: "check_image_header s h 0 =
      (if ret1 = 2 then (if fst q then 1 else 0, h1, snd q) else (ret1, h1, s1))"
    by (simp add: check_image_header_def r_def [symmetric] r q_def Let_def split: prod.split)
  show ?thesis
  proof (cases "ret1 = 2")
    case True
    then have q': "fst q" "ret = 1" "h' = h1" "s' = snd q" using res assms(3) by (auto simp: eq split: if_splits)
    then have "return_addr s' = return_addr s1" "\<exists>a \<in> set ROOT_ADDRS. rootfs_ok ?m a"
      using q m by (auto simp: roots_ok_def split: prod.splits)
    then show ?thesis using v q' True by (simp add: vouched_def)
  next
    case False
    then have "ret = ret1" "h' = h1" "s' = s1" using res by (simp_all add: eq)
    then show ?thesis using v False assms(3) by (auto simp: vouched_def)
  qed
qed

lemma check_image_first:
  assumes ok: "m25p_ok (flash s)" and "\<not> gCHKKEY_HIT s"
    and boot: "bootable (flash_mem (flash s)) (FLASH_BASE + CODE_IMAGE_OFFSET)"
    and sig: "signature (read_header (flash_mem (flash s)) (FLASH_BASE + CODE_IMAGE_OFFSET)) = FW_SIGNATURE"
    and even: "even (unat (hlen (read_header (flash_mem (flash s)) (FLASH_BASE + CODE_IMAGE_OFFSET))))"
    and poll: "unat (gCHKKEY_CNT s) +
      (unat (hlen (read_header (flash_mem (flash s)) (FLASH_BASE + CODE_IMAGE_OFFSET))) + 255) div 256
        \<le> unat ACCCNT_TOCHKKEY"
  shows "\<exists>s'. check_image s h =
    (1, read_header (flash_mem (flash s)) (FLASH_BASE + CODE_IMAGE_OFFSET), s') \<and>
    return_addr s' = FLASH_BASE + CODE_IMAGE_OFFSET"
proof -
  let ?a = "FLASH_BASE + CODE_IMAGE_OFFSET"
  let ?H = "read_header (flash_mem (flash s)) ?a" and ?s = "s\<lparr>return_addr := ?a\<rparr>"
  let ?s1 = "?s\<lparr>flash := ready (flash s)\<rparr>"
  obtain r s2 where sum: "sum_flash ?s1 (?a + SIZEOF_IMG_HEADER) (hlen ?H) 0 0 (\<lambda>_. 0) = (r, s2)"
    "return_addr s2 = ?a" "r \<noteq> None"
    "\<forall>v. r = Some v \<longrightarrow> v = sum_swab16 (flash_mem (flash s)) (?a + SIZEOF_IMG_HEADER) (unat (hlen ?H) div 2) 0"
    using sum_flash_ok [where s = ?s1 and len = "hlen ?H" and rd = 0 and addr = "?a + SIZEOF_IMG_HEADER"
        and acc = 0 and buf = "\<lambda>_. 0"] ok even poll by auto
  have fw: "same_sig 4 (signature ?H) FW_SIGNATURE" by (simp add: sig same_sig_def)
  have "r = Some 0" using sum(3,4) boot even by (auto simp: bootable_def Let_def)
  then have "check_system_image ?s ?a h = (1, ?H, s2)"
    using check_system_image_eq [of ?s ?a h] ok assms(2) sum(1) fw by simp
  then have first: "try_image CODE_IMAGE_OFFSET 0 (0, h, s) = (1, ?H, s2)"
    by (simp add: try_image_def)
  have rest: "scan_linux is 0 (1, ?H, s2) = (1, ?H, s2)" for "is"
    by (cases "is") simp_all
  show ?thesis
    using sum(2) by (simp add: check_image_def check_image_header_def first try_image_def [of CODE_IMAGE_OFFSET2]
        try_image_def [of CODE_IMAGE_OFFSET3] rest)
qed

lemma flash_mem_window:
  assumes "m25p_ok fl"
  shows "flash_mem fl (a - FLASH_BASE) = flash_mem fl a"
proof -
  have "nor_size (chip fl) dvd 2 ^ 24 \<or> nor_size (chip fl) dvd 2 ^ 28"
    using assms unfolding m25p_ok_def by blast
  define K :: nat where "K = 5 * 2 ^ 28"
  have "(2 ^ 24 :: nat) dvd K" "(2 ^ 28 :: nat) dvd K"
    by (simp_all add: K_def dvd_eq_mod_eq_0)
  then have "nor_size (chip fl) dvd K"
    using \<open>nor_size (chip fl) dvd 2 ^ 24 \<or> nor_size (chip fl) dvd 2 ^ 28\<close> dvd_trans by blast
  then obtain N where N: "K = nor_size (chip fl) * N" by auto
  have "a - FLASH_BASE = a + of_nat K" by (simp add: FLASH_BASE_def K_def)
  then have "flash_mem fl (a - FLASH_BASE) = cells (chip fl) ((unat a + K) mod nor_size (chip fl))"
    by (simp only: flash_mem_add [OF assms])
  also have "\<dots> = flash_mem fl a" by (simp add: N flash_mem_def)
  finally show ?thesis .
qed

text \<open>A chip that holds one firmware image where the first offset leads.\<close>

definition sample_image :: "u8 list" where
  "sample_image = FW_SIGNATURE @ [0x80, 0x50, 0, 0] @ [0, 1, 0, 0] @ [0, 0, 0, 4] @ [0x12, 0x34, 0xED, 0xCC]"

definition sample_image_flash :: m25p where
  "sample_image_flash = with_cells sample_flash (\<lambda>a. buf_of sample_image a)"

lemma sample_image_ok: "m25p_ok sample_image_flash"
  by (simp add: sample_image_flash_def sample_flash_ok)

lemma sample_image_header:
  "read_header (flash_mem sample_image_flash) (FLASH_BASE + CODE_IMAGE_OFFSET) =
    \<lparr>signature = FW_SIGNATURE, startAddr = 0x80500000, burnAddr = 0x10000, hlen = 4\<rparr>"
  by (simp add: read_header_def load32_def flash_mem_def sample_image_flash_def sample_image_def
      ascii_sigs FLASH_BASE_def CODE_IMAGE_OFFSET_def) (simp add: le32_def)

lemma sample_image_bootable: "bootable (flash_mem sample_image_flash) (FLASH_BASE + CODE_IMAGE_OFFSET)"
proof -
  have "sum_swab16 (flash_mem sample_image_flash) (FLASH_BASE + CODE_IMAGE_OFFSET + SIZEOF_IMG_HEADER) 2 0 = 0"
    by (simp add: load16_def flash_mem_def sample_image_flash_def sample_image_def
        ascii_sigs FLASH_BASE_def CODE_IMAGE_OFFSET_def SIZEOF_IMG_HEADER_def) (simp add: le16_def)
  then show ?thesis by (simp add: bootable_def sample_image_header same_sig_def Let_def)
qed

definition sample_start :: boot_state where
  "sample_start = (sample_boot (\<lambda>_. 0))\<lparr>flash := sample_image_flash\<rparr>"

lemma sample_start_simps [simp]:
  "flash sample_start = sample_image_flash" "\<not> gCHKKEY_HIT sample_start" "gCHKKEY_CNT sample_start = 0"
  by (simp_all add: sample_start_def sample_boot_def)

definition no_header :: IMG_HEADER_T where
  "no_header = \<lparr>signature = [0, 0, 0, 0], startAddr = 0, burnAddr = 0, hlen = 0\<rparr>"

section \<open>Properties\<close>

text \<open>
  C2: The boot code starts only what it has verified: when \<open>check_image\<close> reports an image,
  the flash at \<open>return_addr\<close> holds a header with a system signature, the header handed to the
  caller is that one, the payload's halfwords add up to 0 if its length is even, and unless the
  image carries its root file system the flash holds one at an address of the search that passed the
  same kind of test.
\<close>

theorem check_image_safe:
  assumes "m25p_ok (flash s)" "check_image s h = (ret, h', s')" "ret \<noteq> 0"
  shows "bootable (flash_mem (flash s)) (return_addr s') \<and>
    h' = read_header (flash_mem (flash s)) (return_addr s') \<and>
    (same_sig 4 (signature h') FW_SIGNATURE \<or> (\<exists>a \<in> set ROOT_ADDRS. rootfs_ok (flash_mem (flash s)) a))"
  using check_image_header_ok [OF assms(1) _ assms(3)] assms(2) by (simp add: check_image_def)

lemma check_image_safe_witness:
  "bootable (flash_mem sample_image_flash) (return_addr (snd (snd (check_image sample_start no_header))))"
proof -
  obtain s' where s': "check_image sample_start no_header = (1, read_header (flash_mem sample_image_flash)
      (FLASH_BASE + CODE_IMAGE_OFFSET), s')"
    using check_image_first [of sample_start no_header] sample_image_ok sample_image_bootable
    by (auto simp: sample_image_header ACCCNT_TOCHKKEY_def)
  show ?thesis using check_image_safe [OF _ s'] sample_image_ok by (simp add: s')
qed

text \<open>
  A valid firmware at the first offset is found, wherever else images lie, as long as the
  user has not interrupted and the key poll is not due during the check.
\<close>

theorem check_image_finds:
  assumes ok: "m25p_ok (flash s)" and "\<not> gCHKKEY_HIT s"
    and boot: "bootable (flash_mem (flash s)) (FLASH_BASE + CODE_IMAGE_OFFSET)"
    and sig: "signature (read_header (flash_mem (flash s)) (FLASH_BASE + CODE_IMAGE_OFFSET)) = FW_SIGNATURE"
    and even: "even (unat (hlen (read_header (flash_mem (flash s)) (FLASH_BASE + CODE_IMAGE_OFFSET))))"
    and poll: "unat (gCHKKEY_CNT s) +
      (unat (hlen (read_header (flash_mem (flash s)) (FLASH_BASE + CODE_IMAGE_OFFSET))) + 255) div 256
        \<le> unat ACCCNT_TOCHKKEY"
  shows "\<exists>s'. check_image s h =
    (1, read_header (flash_mem (flash s)) (FLASH_BASE + CODE_IMAGE_OFFSET), s') \<and>
    return_addr s' = FLASH_BASE + CODE_IMAGE_OFFSET"
  by (rule check_image_first [OF assms])

lemma check_image_finds_witness:
  "\<exists>s'. check_image sample_start no_header =
    (1, \<lparr>signature = FW_SIGNATURE, startAddr = 0x80500000, burnAddr = 0x10000, hlen = 4\<rparr>, s') \<and>
    return_addr s' = FLASH_BASE + CODE_IMAGE_OFFSET"
  using check_image_finds [of sample_start no_header] sample_image_ok sample_image_bootable
  by (simp add: sample_image_header ACCCNT_TOCHKKEY_def)

text \<open>
  Starting an image copies its payload, without the two checksum bytes, from flash to the
  uncached alias of the start address and then transfers control to the start address.
\<close>

theorem goToLocalStartMode_starts:
  assumes ok: "m25p_ok (flash s)" and H: "H = read_header (flash_mem (flash s)) addr"
  shows "run (goToLocalStartMode s addr h) = Jumped (startAddr H) \<and>
    read_bytes (mem (goToLocalStartMode s addr h)) (startAddr H OR 0x20000000) (unat (hlen H - 2)) =
      read_bytes (flash_mem (flash s)) (addr + SIZEOF_IMG_HEADER) (unat (hlen H - 2))"
proof -
  obtain m where m: "flashread (flash s) 0 addr SIZEOF_IMG_HEADER (\<lambda>_. 0) = (True, ready (flash s), m)"
    by (simp add: flashread_mem [OF ok])
  have hdr: "read_header m 0 = H" using read_header_flash [OF ok m] by (simp add: H)
  let ?src = "addr - FLASH_BASE + SIZEOF_IMG_HEADER" and ?n = "unat (hlen H - 2)"
  have "goToLocalStartMode s addr h = s\<lparr>flash := ready (flash s), run := Jumped (startAddr H),
      mem := write_bytes (startAddr H OR 0x20000000) (read_bytes (flash_mem (flash s)) ?src ?n) (mem s)\<rparr>"
    using ok unfolding goToLocalStartMode_def m Let_def prod.case hdr by (simp add: flashread_mem)
  moreover have "read_bytes (flash_mem (flash s)) ?src ?n = read_bytes (flash_mem (flash s)) (addr + SIZEOF_IMG_HEADER) ?n"
  proof (rule read_bytes_cong)
    fix k
    show "flash_mem (flash s) (?src + of_nat k) = flash_mem (flash s) (addr + SIZEOF_IMG_HEADER + of_nat k)"
      using flash_mem_window [OF ok, of "addr + SIZEOF_IMG_HEADER + of_nat k"] by (simp add: algebra_simps)
  qed
  moreover have "?n \<le> 2 ^ 32"
  proof -
    have "?n < 2 ^ LENGTH(32)" by (rule unsigned_less)
    then show ?thesis by simp
  qed
  ultimately show ?thesis
    using read_write_bytes [of "read_bytes (flash_mem (flash s)) ?src ?n"] by simp
qed

lemma goToLocalStartMode_starts_witness:
  "run (goToLocalStartMode sample_start (FLASH_BASE + CODE_IMAGE_OFFSET) no_header) = Jumped 0x80500000"
  using goToLocalStartMode_starts [of sample_start _ "FLASH_BASE + CODE_IMAGE_OFFSET"] sample_image_ok
  by (simp add: sample_image_header)

end
