(* ===== verification/Tftpd.thy ===== *)
theory Tftpd
  imports CString Image
begin

text \<open>
  The TFTP server and client of \<^verbatim>\<open>boot/init/eth_tftpd.c\<close>: the state machine
  \<open>BootStateEvent\<close> with its handlers, the frames they send and the client's retry logic.
  The packet under treatment (\<open>nic.packet\<close>) is a buffer indexed from its Ethernet header:
  the IP header starts at 14, UDP at 34, the TFTP opcode at 42, an ARP packet at 14. A handler
  has the value \<open>None\<close> when a call in it does not return.
\<close>

section \<open>State\<close>

datatype BootState_t =
    BOOT_STATE0_INIT_ARP | BOOT_STATE1_TFTP_CLIENT_RRQ | BOOT_STATE2_TFTP_CLIENT_WRQ
  | BOOT_STATE3_TFTP_SERVER_DATA | BOOT_STATE4_TFTP_SERVER_DATA

datatype BootEvent_t =
    BOOT_EVENT0_ARP_REQ | BOOT_EVENT1_ARP_REPLY | BOOT_EVENT2_TFTP_RRQ | BOOT_EVENT3_TFTP_WRQ
  | BOOT_EVENT4_TFTP_DATA | BOOT_EVENT5_TFTP_ACK | BOOT_EVENT6_TFTP_ERROR | BOOT_EVENT7_TFTP_OACK

record tftp_state = boot_state +
  packet :: buffer
  packetlen :: nat
  tftpd_is_ready :: bool
  rx_kickofftime :: u32
  one_tftp_lock :: bool
  image_address :: u32
  address_to_store :: u32
  file_length_to_server :: u32
  file_length_to_client :: u32
  block_expected :: u16
  it_is_EOF :: bool
  filename :: "u8 list"
  bootState :: BootState_t
  CLIENT_port :: u16
  SERVER_port :: u16
  jump_to_test :: bool
  autoBurn :: bool
  tftp_client_enabled :: bool
  last_sent_time :: u32
  retry_cnt :: int
  tftp_from_command :: bool
  tftp_client_recvdone :: bool
  tftpfilename :: "u8 list"
  errcode :: u16
  errmsg :: "u8 list"

definition TFTP_SERVER :: nat where "TFTP_SERVER = 0"
definition TFTP_CLIENT :: nat where "TFTP_CLIENT = 1"
definition HTTPD_ARPENTRY :: nat where "HTTPD_ARPENTRY = 2"
definition TFTP_PORT :: u16 where "TFTP_PORT = 69"
definition TFTP_DEFAULTSIZE_PACKET :: nat where "TFTP_DEFAULTSIZE_PACKET = 512"
definition MAX_RETRY_NUM :: int where "MAX_RETRY_NUM = 5"
definition WAIT_TIMEOUT :: u32 where "WAIT_TIMEOUT = 50"
definition FILESTART :: u32 where "FILESTART = 0x80300000"
definition BOOTSTART :: u32 where "BOOTSTART = 0x80000000"
definition TEST_FILENAME :: "u8 list" where "TEST_FILENAME = ascii ''nfjrom''"
definition BOOT_FILENAME :: "u8 list" where "BOOT_FILENAME = ascii ''boot.img''"

text \<open>Offsets in the frame.\<close>

definition o_ip :: nat where "o_ip = 14"
definition o_udp :: nat where "o_udp = 34"
definition o_tftp :: nat where "o_tftp = 42"

lemmas tftp_consts = TFTP_SERVER_def TFTP_CLIENT_def HTTPD_ARPENTRY_def TFTP_PORT_def
  TFTP_DEFAULTSIZE_PACKET_def o_ip_def o_udp_def o_tftp_def

definition udp_src :: "buffer \<Rightarrow> u16" where "udp_src p = get16 p o_udp"
definition udp_dest :: "buffer \<Rightarrow> u16" where "udp_dest p = get16 p (o_udp + 2)"
definition udp_len :: "buffer \<Rightarrow> u16" where "udp_len p = get16 p (o_udp + 4)"

definition set_arp :: "nat \<Rightarrow> (arptable_t \<Rightarrow> arptable_t) \<Rightarrow> 'a boot_state_scheme \<Rightarrow> 'a boot_state_scheme" where
  "set_arp i f s = s\<lparr>arptable_tftp := (arptable_tftp s)(i := f (arptable_tftp s i))\<rparr>"

definition send :: "u16 \<Rightarrow> u8 list \<Rightarrow> u8 list \<Rightarrow> 'a boot_state_scheme \<Rightarrow> 'a boot_state_scheme" where
  "send type dest data s = s\<lparr>txlog := txlog s @ [prepare_txpkt (eth0_mac s) type dest data]\<rparr>"

section \<open>Frames\<close>

definition arp_body :: "u16 \<Rightarrow> u8 list \<Rightarrow> u32 \<Rightarrow> u8 list \<Rightarrow> u32 \<Rightarrow> u8 list" where
  "arp_body opcode shw sip thw tip =
     bytes16 (htons 1) @ bytes16 (htons FRAME_IP) @ [6, 4] @ bytes16 (htons opcode)
       @ shw @ bytes32 sip @ thw @ bytes32 tip"

definition send_arp_request :: "'a tftp_state_scheme \<Rightarrow> 'a tftp_state_scheme" where
  "send_arp_request s =
     (let c = arptable_tftp s TFTP_CLIENT; sv = arptable_tftp s TFTP_SERVER
      in send FRAME_ARP (node sv) (arp_body 1 (node c) (ipaddr c) (node sv) (ipaddr sv)) s)"

definition send_tftp_rrq :: "u8 list \<Rightarrow> 'a tftp_state_scheme \<Rightarrow> 'a tftp_state_scheme" where
  "send_tftp_rrq fname s =
     (let c = arptable_tftp s TFTP_CLIENT; sv = arptable_tftp s TFTP_SERVER;
          body = fname @ [0] @ ascii ''octet'' @ [0]; n = of_nat (length body)
      in send FRAME_IP (node sv)
           (ip_header (30 + n) (ipaddr c) (ipaddr sv) @ udp_header (CLIENT_port s) (SERVER_port s) (n + 2 + 8)
             @ bytes16 (htons 1) @ body) s)"

definition tftpd_send_ack :: "u16 \<Rightarrow> 'a tftp_state_scheme \<Rightarrow> 'a tftp_state_scheme" where
  "tftpd_send_ack number s =
     (let c = arptable_tftp s TFTP_CLIENT; sv = arptable_tftp s TFTP_SERVER;
          body = bytes16 (htons 4) @ bytes16 (htons number)
      in if tftp_client_enabled s
         then send FRAME_IP (node sv)
                (ip_header 32 (ipaddr c) (ipaddr sv) @ udp_header (CLIENT_port s) (SERVER_port s) 12 @ body) s
         else send FRAME_IP (node c)
                (ip_header 32 (ipaddr sv) (ipaddr c) @ udp_header (SERVER_port s) (CLIENT_port s) 12 @ body) s)"

text \<open>
  \<open>tftpd_send_data\<close>: \<open>512*block_number\<close> is computed in \<open>int\<close> and compared with unsigned
  numbers. The length of the block and the end-of-file flag follow from the file length. For a
  block behind the end of the file the length is negative, and \<open>memcpy\<close> runs over the frame on the
  stack: \<open>None\<close>.
\<close>

definition data_length :: "u32 \<Rightarrow> u16 \<Rightarrow> (u32 \<times> bool) option" where
  "data_length flen block_number =
     (let b = ucast block_number :: u32
      in if 512 * b = flen + 512 then Some (0, True)
         else if 512 * b > flen then (if 512 * (b - 1) > flen then None else Some (flen - 512 * (b - 1), True))
         else Some (512, False))"

definition tftpd_send_data :: "u16 \<Rightarrow> 'a tftp_state_scheme \<Rightarrow> 'a tftp_state_scheme option" where
  "tftpd_send_data block_number s =
     (let c = arptable_tftp s TFTP_CLIENT; sv = arptable_tftp s TFTP_SERVER;
          data = image_address s + 512 * (ucast block_number - 1)
      in case data_length (file_length_to_client s) block_number of None \<Rightarrow> None
         | Some (n, eof) \<Rightarrow>
             (let s = s\<lparr>it_is_EOF := (it_is_EOF s \<or> eof)\<rparr>
              in Some (send FRAME_IP (node c)
                   (ip_header (32 + ucast n) (ipaddr sv) (ipaddr c)
                     @ udp_header (SERVER_port s) (CLIENT_port s) (ucast n + 4 + 8)
                     @ bytes16 (htons 3) @ bytes16 (htons block_number) @ read_bytes (mem s) data (unat n)) s)))"

section \<open>Handlers\<close>

definition errorDrop :: "'a tftp_state_scheme \<Rightarrow> 'a tftp_state_scheme option" where
  "errorDrop s = Some s"

definition errorTFTP :: "'a tftp_state_scheme \<Rightarrow> 'a tftp_state_scheme option" where
  "errorTFTP s =
     (if \<not> tftpd_is_ready s then Some s
      else
        (let s = (if bootState s = BOOT_STATE3_TFTP_SERVER_DATA \<or> bootState s = BOOT_STATE4_TFTP_SERVER_DATA
                  then s\<lparr>tftp_client_recvdone := True\<rparr> else s);
             s = s\<lparr>bootState := BOOT_STATE0_INIT_ARP\<rparr>
         in Some (if tftp_client_enabled s
                  then s\<lparr>tftp_client_enabled := False, tftpd_is_ready := False\<rparr> else s)))"

definition doARPReply :: "'a tftp_state_scheme \<Rightarrow> 'a tftp_state_scheme option" where
  "doARPReply s =
     (let p = packet s; targetIP = get32 p (o_ip + 24);
          shw = get_bytes p (o_ip + 8) 6; sip = get32 p (o_ip + 14);
          reply = (\<lambda>e. send FRAME_ARP shw (arp_body 2 (node e) (ipaddr e) shw sip) s)
      in if targetIP = ipaddr (arptable_tftp s HTTPD_ARPENTRY)
         then Some (reply (arptable_tftp s HTTPD_ARPENTRY))
         else if tftp_client_enabled s \<and> targetIP = ipaddr (arptable_tftp s TFTP_CLIENT)
           \<or> \<not> tftp_client_enabled s \<and> targetIP = ipaddr (arptable_tftp s TFTP_SERVER)
         then Some (reply (arptable_tftp s (if tftp_client_enabled s then TFTP_CLIENT else TFTP_SERVER)))
         else Some s)"

definition updateARPTable :: "'a tftp_state_scheme \<Rightarrow> 'a tftp_state_scheme option" where
  "updateARPTable s =
     (if tftp_client_enabled s \<and> get32 (packet s) (o_ip + 14) = ipaddr (arptable_tftp s TFTP_SERVER)
      then
        (let s = set_arp TFTP_SERVER (\<lambda>e. e\<lparr>node := get_bytes (packet s) (o_ip + 8) 6\<rparr>) s;
             s = send_tftp_rrq (if tftp_from_command s then tftpfilename s else TEST_FILENAME) s;
             s = (if tftp_from_command s then s else s\<lparr>image_address := FILESTART\<rparr>)
         in Some (s\<lparr>bootState := BOOT_STATE3_TFTP_SERVER_DATA, block_expected := 1,
              address_to_store := image_address s, file_length_to_server := 0,
              retry_cnt := 0, last_sent_time := jiffies s\<rparr>))
      else Some s)"

text \<open>The client of a request is remembered by IP address, MAC and port.\<close>

definition memorize_client :: "'a tftp_state_scheme \<Rightarrow> 'a tftp_state_scheme" where
  "memorize_client s =
     (let p = packet s
      in set_arp TFTP_CLIENT (\<lambda>e. e\<lparr>ipaddr := get32 p (o_ip + 12), node := get_bytes p 6 6\<rparr>)
           (s\<lparr>CLIENT_port := ntohs (udp_src p)\<rparr>))"

text \<open>
  The name in a request: the bytes up to a NUL. Without one in the first 512 bytes the NUL that is added
  lies behind the array: \<open>None\<close>.
\<close>

definition request_name :: "buffer \<Rightarrow> u8 list option" where
  "request_name p =
     (let name = takeWhile (\<lambda>c. c \<noteq> 0) (get_bytes p (o_tftp + 2) TFTP_DEFAULTSIZE_PACKET)
      in if length name < TFTP_DEFAULTSIZE_PACKET then Some name else None)"

definition setTFTP_RRQ :: "'a tftp_state_scheme \<Rightarrow> 'a tftp_state_scheme option" where
  "setTFTP_RRQ s =
     (if \<not> tftpd_is_ready s then Some s
      else if udp_dest (packet s) = htons TFTP_PORT then
        (case request_name (packet s) of None \<Rightarrow> None
         | Some name \<Rightarrow>
             map_option (\<lambda>s. s\<lparr>block_expected := 1, bootState := BOOT_STATE1_TFTP_CLIENT_RRQ\<rparr>)
               (tftpd_send_data 1 ((memorize_client s)\<lparr>filename := name, one_tftp_lock := True\<rparr>)))
      else Some s)"

text \<open>String literals have their terminating NUL.\<close>

definition lit :: "u8 list \<Rightarrow> buffer" where
  "lit xs = buf_of (xs @ [0])"

definition setTFTP_WRQ :: "'a tftp_state_scheme \<Rightarrow> 'a tftp_state_scheme option" where
  "setTFTP_WRQ s =
     (if \<not> tftpd_is_ready s then Some s
      else if udp_dest (packet s) = htons TFTP_PORT then
        (let s = memorize_client s; p = packet s; name = o_tftp + 2
         in case strstr p name (lit TEST_FILENAME) 0 of
              None \<Rightarrow> None
            | Some found \<Rightarrow>
                (case (if found \<noteq> None then Some (s\<lparr>jump_to_test := True\<rparr>)
                       else (case strcmp p name (lit BOOT_FILENAME) 0 of
                               None \<Rightarrow> None
                             | Some r \<Rightarrow>
                                 Some (if r = 0 then s\<lparr>jump_to_test := True, image_address := BOOTSTART\<rparr> else s))) of
                   None \<Rightarrow> None
                 | Some s \<Rightarrow>
                     (let s = s\<lparr>address_to_store := image_address s, file_length_to_server := 0\<rparr>;
                          s = tftpd_send_ack 0 s
                      in Some (s\<lparr>block_expected := 1, one_tftp_lock := True,
                           bootState := BOOT_STATE2_TFTP_CLIENT_WRQ\<rparr>))))
      else Some s)"

text \<open>
  The jump into a test image: the uncached bit of the address is cleared. The interrupt and
  timer registers it clears are not part of the state.
\<close>

definition jump_to_image :: "'a tftp_state_scheme \<Rightarrow> 'a tftp_state_scheme" where
  "jump_to_image s =
     (let a = image_address s AND NOT 0x20000000
      in s\<lparr>jump_to_test := False, image_address := a, run := Jumped a\<rparr>)"

text \<open>
  The last packet of an upload. The driver sets \<open>nic.packet\<close> before every packet, so only
  the length is reset here.
\<close>

definition upload_done :: "'a tftp_state_scheme \<Rightarrow> 'a tftp_state_scheme option" where
  "upload_done s =
     (let s = s\<lparr>packetlen := 0, block_expected := 0, address_to_store := image_address s,
            file_length_to_client := file_length_to_server s, it_is_EOF := False,
            tftp_client_recvdone := (tftp_from_command s \<or> tftp_client_recvdone s),
            bootState := BOOT_STATE0_INIT_ARP, one_tftp_lock := False, SERVER_port := SERVER_port s + 1\<rparr>
      in if jump_to_test s then Some (jump_to_image s)
         else if autoBurn s then checkAutoFlashing s (image_address s) (file_length_to_server s)
         else Some s)"

definition prepareACK :: "'a tftp_state_scheme \<Rightarrow> 'a tftp_state_scheme option" where
  "prepareACK s =
     (let p = packet s
      in if \<not> tftpd_is_ready s then Some s
         else if \<not> (tftp_client_enabled s \<and> udp_dest p = htons (CLIENT_port s)
                   \<or> \<not> tftp_client_enabled s \<and> udp_dest p = htons (SERVER_port s)) then Some s
         else
           (let s = (if tftp_client_enabled s then s\<lparr>SERVER_port := ntohs (udp_src p)\<rparr>
                     else s\<lparr>CLIENT_port := ntohs (udp_src p)\<rparr>);
                block_received = ntohs (get16 p (o_tftp + 2))
            in if block_received \<noteq> block_expected s then Some (tftpd_send_ack (block_expected s - 1) s)
               else
                 (let n = ucast (ntohs (udp_len p)) - 4 - 8 :: u32;
                      s = s\<lparr>mem := write_bytes (address_to_store s) (get_bytes p (o_tftp + 4) (unat n)) (mem s)\<rparr>;
                      s = s\<lparr>address_to_store := address_to_store s + n,
                            file_length_to_server := file_length_to_server s + n\<rparr>;
                      s = tftpd_send_ack (block_expected s) s;
                      s = s\<lparr>block_expected := block_expected s + 1\<rparr>;
                      r = (if n < 512 then upload_done s
                           else if tftp_client_enabled s \<and> block_expected s = 2
                           then Some (s\<lparr>bootState := BOOT_STATE4_TFTP_SERVER_DATA,
                                        jump_to_test := (\<not> tftp_from_command s \<or> jump_to_test s)\<rparr>)
                           else Some s)
                  in map_option (\<lambda>s. if run s = Running then s\<lparr>last_sent_time := jiffies s\<rparr> else s) r)))"

definition prepareDATA :: "'a tftp_state_scheme \<Rightarrow> 'a tftp_state_scheme option" where
  "prepareDATA s =
     (let p = packet s
      in if \<not> tftpd_is_ready s \<or> udp_dest p \<noteq> htons (SERVER_port s) then Some s
         else
           (let s = s\<lparr>CLIENT_port := ntohs (udp_src p)\<rparr>;
                block_received = ntohs (get16 p (o_tftp + 2))
            in if block_received \<noteq> block_expected s then tftpd_send_data (block_expected s) s
               else
                 (let s = s\<lparr>block_expected := block_expected s + 1\<rparr>
                  in if \<not> it_is_EOF s then tftpd_send_data (block_expected s) s
                     else Some (s\<lparr>bootState := BOOT_STATE0_INIT_ARP, one_tftp_lock := False, packetlen := 0,
                                  block_expected := 0, it_is_EOF := False\<rparr>))))"

section \<open>The state machine\<close>

fun BootStateEvent ::
    "BootState_t \<Rightarrow> BootEvent_t \<Rightarrow> 'a tftp_state_scheme \<Rightarrow> 'a tftp_state_scheme option" where
  "BootStateEvent _ BOOT_EVENT0_ARP_REQ = doARPReply"
| "BootStateEvent _ BOOT_EVENT1_ARP_REPLY = updateARPTable"
| "BootStateEvent BOOT_STATE0_INIT_ARP BOOT_EVENT2_TFTP_RRQ = setTFTP_RRQ"
| "BootStateEvent BOOT_STATE0_INIT_ARP BOOT_EVENT3_TFTP_WRQ = setTFTP_WRQ"
| "BootStateEvent BOOT_STATE0_INIT_ARP _ = errorDrop"
| "BootStateEvent BOOT_STATE1_TFTP_CLIENT_RRQ BOOT_EVENT2_TFTP_RRQ = setTFTP_RRQ"
| "BootStateEvent BOOT_STATE1_TFTP_CLIENT_RRQ BOOT_EVENT4_TFTP_DATA = prepareACK"
| "BootStateEvent BOOT_STATE1_TFTP_CLIENT_RRQ BOOT_EVENT5_TFTP_ACK = prepareDATA"
| "BootStateEvent BOOT_STATE1_TFTP_CLIENT_RRQ _ = errorTFTP"
| "BootStateEvent BOOT_STATE2_TFTP_CLIENT_WRQ BOOT_EVENT3_TFTP_WRQ = setTFTP_WRQ"
| "BootStateEvent BOOT_STATE2_TFTP_CLIENT_WRQ BOOT_EVENT4_TFTP_DATA = prepareACK"
| "BootStateEvent BOOT_STATE2_TFTP_CLIENT_WRQ BOOT_EVENT5_TFTP_ACK = prepareDATA"
| "BootStateEvent BOOT_STATE2_TFTP_CLIENT_WRQ _ = errorTFTP"
| "BootStateEvent BOOT_STATE3_TFTP_SERVER_DATA BOOT_EVENT4_TFTP_DATA = prepareACK"
| "BootStateEvent BOOT_STATE3_TFTP_SERVER_DATA _ = errorTFTP"
| "BootStateEvent BOOT_STATE4_TFTP_SERVER_DATA BOOT_EVENT4_TFTP_DATA = prepareACK"
| "BootStateEvent BOOT_STATE4_TFTP_SERVER_DATA _ = errorTFTP"

text \<open>The client's periodic work: the value tells what it waits for, -1 that it gave up.\<close>

definition check_tftp_client_state :: "'a tftp_state_scheme \<Rightarrow> int \<times> 'a tftp_state_scheme" where
  "check_tftp_client_state s =
     (if \<not> tftp_client_enabled s then (- 1, s)
      else if bootState s = BOOT_STATE0_INIT_ARP then
        (if last_sent_time s = 0 \<or> jiffies s - last_sent_time s > WAIT_TIMEOUT then
           (let old = retry_cnt s; s = s\<lparr>retry_cnt := retry_cnt s + 1\<rparr>
            in if old > MAX_RETRY_NUM then (- 1, s)
               else (0, (send_arp_request s)\<lparr>last_sent_time := jiffies s\<rparr>))
         else (0, s))
      else if bootState s = BOOT_STATE3_TFTP_SERVER_DATA then
        (if jiffies s - last_sent_time s > WAIT_TIMEOUT then
           (let s = s\<lparr>retry_cnt := retry_cnt s + 1\<rparr>
            in if retry_cnt s > MAX_RETRY_NUM then (- 1, s)
               else (1, (send_tftp_rrq (if tftp_from_command s then tftpfilename s else TEST_FILENAME) s)
                          \<lparr>last_sent_time := jiffies s\<rparr>))
         else (1, s))
      else if bootState s = BOOT_STATE4_TFTP_SERVER_DATA then
        (if jiffies s - last_sent_time s > WAIT_TIMEOUT then (- 1, s) else (2, s))
      else (- 1, s))"

definition tftpd_entry :: "bool \<Rightarrow> 'a tftp_state_scheme \<Rightarrow> 'a tftp_state_scheme" where
  "tftpd_entry is_client_mode s =
     (let s = set_arp TFTP_SERVER (\<lambda>e. e\<lparr>ipaddr := htonl (IPTOUL 192 168 1 6), node := take 6 (eth0_mac s)\<rparr>) s;
          s = set_arp TFTP_CLIENT (\<lambda>e. e\<lparr>ipaddr := htonl (IPTOUL 192 162 1 116)\<rparr>) s;
          s = s\<lparr>bootState := BOOT_STATE0_INIT_ARP, packetlen := 0, block_expected := 0, one_tftp_lock := False,
                it_is_EOF := False, address_to_store := image_address s, file_length_to_server := 0,
                file_length_to_client := 0, SERVER_port := (if is_client_mode then 69 else 2098),
                tftpd_is_ready := True\<rparr>
      in if is_client_mode
         then (let s = set_arp TFTP_SERVER (\<lambda>e. \<lparr>ipaddr = htonl (IPTOUL 192 168 1 97), node = replicate 6 0xff\<rparr>) s;
                   s = set_arp TFTP_CLIENT (\<lambda>e. \<lparr>ipaddr = htonl (IPTOUL 192 168 1 116), node = take 6 (eth0_mac s)\<rparr>) s
               in s\<lparr>CLIENT_port := 1010, tftp_client_enabled := True\<rparr>)
         else s\<lparr>tftp_client_enabled := False\<rparr>)"

end
