(* ===== verification/Dhcpd.thy ===== *)
theory Dhcpd
  imports Tftpd
begin

text \<open>
  The DHCP server of \<^verbatim>\<open>boot/init/dhcpd.c\<close> with the layouts of
  \<^verbatim>\<open>boot/init/dhcp.h\<close>: the option search, the two-entry lease table, address selection,
  the messages it sends and the treatment of a request. Addresses are in network byte order
  as in the code, \<open>ntohl\<close> marks the places where they are compared as numbers.
  The invariant is that no address is leased twice and that every leased address is in the pool.
\<close>

section \<open>State\<close>

record dhcpOfferedAddr =
  chaddr :: "u8 list"
  yiaddr :: u32
  expires :: u32

record dhcp_state = tftp_state +
  leases :: "dhcpOfferedAddr list"
  cfg_server :: u32
  cfg_start :: u32
  cfg_end :: u32
  cfg_lease :: u32
  max_leases :: nat
  decline_time :: u32
  offer_time :: u32
  min_lease :: u32
  eth0_ip_httpd :: u32       \<comment> \<open>the four bytes as a word\<close>
  eth0_mac_httpd :: "u8 list"

definition MAX_LEASE :: nat where "MAX_LEASE = 2"
definition o_dhcp :: nat where "o_dhcp = 42"
definition no_lease :: dhcpOfferedAddr where
  "no_lease = \<lparr>chaddr = replicate 16 0, yiaddr = 0, expires = 0\<rparr>"

definition time :: "'a dhcp_state_scheme \<Rightarrow> u32 \<Rightarrow> u32" where
  "time s t = jiffies s + t"

definition lease_expired :: "'a dhcp_state_scheme \<Rightarrow> dhcpOfferedAddr \<Rightarrow> bool" where
  "lease_expired s l \<longleftrightarrow> expires l < time s 0"

section \<open>Options\<close>

text \<open>
  \<open>get_option\<close>: \<open>base\<close> is the field searched (options, file or sname), \<open>fld\<close> its number.
  After an overload option the length is taken from the first option of the field.
\<close>

function get_option_loop :: "buffer \<Rightarrow> u8 \<Rightarrow> nat \<Rightarrow> nat \<Rightarrow> nat \<Rightarrow> u8 \<Rightarrow> nat \<Rightarrow> nat option" where
  "get_option_loop p code base i len over fld =
     (if i \<ge> len then None
      else if p (base + i) = code then
        (if i + 1 + unat (p (base + i + 1)) \<ge> len then None else Some (base + i + 2))
      else if p (base + i) = 0 then get_option_loop p code base (i + 1) len over fld
      else if p (base + i) = 0x34 then
        (if i + 1 + unat (p (base + i + 1)) \<ge> len then None
         else get_option_loop p code base (i + unat (p (base + 1)) + 2) len (p (base + i + 3)) fld)
      else if p (base + i) = 0xFF then
        (if fld = 0 \<and> over AND 1 \<noteq> 0 then get_option_loop p code (o_dhcp + 108) 0 128 over 1
         else if fld = 1 \<and> over AND 2 \<noteq> 0 then get_option_loop p code (o_dhcp + 44) 0 64 over 2
         else None)
      else get_option_loop p code base (i + unat (p (base + i + 1)) + 2) len over fld)"
  by pat_completeness auto
termination
  by (relation "measures [\<lambda>(p, code, base, i, len, over, fld). 2 - fld,
      \<lambda>(p, code, base, i, len, over, fld). len - i]") auto

declare get_option_loop.simps [simp del]

definition get_option :: "buffer \<Rightarrow> u8 \<Rightarrow> nat option" where
  "get_option p code = get_option_loop p code (o_dhcp + 240) 0 308 0 0"

text \<open>Where the end option of an option field stands; running off the field gives its length.\<close>

function end_option :: "u8 list \<Rightarrow> nat \<Rightarrow> nat" where
  "end_option opts i =
     (if i \<ge> length opts then i
      else if opts ! i = 0xFF then i
      else if opts ! i = 0 then end_option opts (i + 1)
      else end_option opts (i + unat (nth_default 0 opts (i + 1)) + 2))"
  by pat_completeness auto
termination
  by (relation "measure (\<lambda>(opts, i). length opts - i)") auto

declare end_option.simps [simp del]

definition put_at :: "nat \<Rightarrow> 'b list \<Rightarrow> 'b list \<Rightarrow> 'b list" where
  "put_at i xs ys = take i ys @ xs @ drop (i + length xs) ys"

definition add_option_string :: "u8 list \<Rightarrow> u8 list \<Rightarrow> u8 list" where
  "add_option_string opts str =
     (let e = end_option opts 0; n = unat (str ! 1)
      in if e + n + 2 + 1 \<ge> 308 then opts else put_at e (take (n + 2) str @ [0xFF]) opts)"

text \<open>The codes of the table \<open>options\<close> with the lengths of their types.\<close>

definition option_table :: "(u8 \<times> nat) list" where
  "option_table =
     [(0x01, 4), (0x02, 4), (0x03, 4), (0x04, 4), (0x05, 4), (0x06, 4), (0x07, 4), (0x08, 4),
      (0x09, 4), (0x0c, 1), (0x0d, 2), (0x0f, 1), (0x10, 4), (0x11, 1), (0x17, 1), (0x1a, 2),
      (0x1c, 4), (0x2a, 4), (0x2c, 4), (0x32, 4), (0x33, 4), (0x35, 1), (0x36, 4), (0x38, 1),
      (0x42, 1), (0x43, 1)]"

definition add_simple_option :: "u8 list \<Rightarrow> u8 \<Rightarrow> u32 \<Rightarrow> u8 list" where
  "add_simple_option opts code data =
     (case map_of option_table code of
        None \<Rightarrow> opts
      | Some n \<Rightarrow> add_option_string opts (code # of_nat n # take n (bytes32 data)))"

section \<open>Leases\<close>

fun find_index :: "('b \<Rightarrow> bool) \<Rightarrow> 'b list \<Rightarrow> nat option" where
  "find_index P [] = None"
| "find_index P (x # xs) = (if P x then Some 0 else map_option Suc (find_index P xs))"

definition find_lease_by_yiaddr :: "'a dhcp_state_scheme \<Rightarrow> u32 \<Rightarrow> nat option" where
  "find_lease_by_yiaddr s y = find_index (\<lambda>l. yiaddr l = y) (take (max_leases s) (leases s))"

definition find_lease_by_chaddr :: "'a dhcp_state_scheme \<Rightarrow> u8 list \<Rightarrow> nat option" where
  "find_lease_by_chaddr s ch = find_index (\<lambda>l. chaddr l = ch) (take (max_leases s) (leases s))"

text \<open>The loop over the pool; \<open>n\<close> addresses are left from \<open>addr\<close> on.\<close>

primrec find_address_loop :: "'a dhcp_state_scheme \<Rightarrow> nat \<Rightarrow> u32 \<Rightarrow> u32" where
  "find_address_loop s 0 addr = 0"
| "find_address_loop s (Suc n) addr =
     (if addr AND 0xFF = 0 \<or> addr AND 0xFF = 0xFF then find_address_loop s n (addr + 1)
      else if find_lease_by_yiaddr s (htonl addr) = None then htonl addr
      else find_address_loop s n (addr + 1))"

definition find_address :: "'a dhcp_state_scheme \<Rightarrow> u32" where
  "find_address s =
     find_address_loop s (Suc (unat (ntohl (cfg_end s))) - unat (ntohl (cfg_start s))) (ntohl (cfg_start s))"

definition clear_lease :: "u8 list \<Rightarrow> u32 \<Rightarrow> 'a dhcp_state_scheme \<Rightarrow> 'a dhcp_state_scheme" where
  "clear_lease ch y s =
     s\<lparr>leases :=
        map (\<lambda>l. if (\<exists>c \<in> set ch. c \<noteq> 0) \<and> chaddr l = ch \<or> y \<noteq> 0 \<and> yiaddr l = y then no_lease else l)
          (take (max_leases s) (leases s)) @ drop (max_leases s) (leases s)\<rparr>"

text \<open>The index of the lease that expired first, if one has expired.\<close>

fun oldest_loop :: "u32 \<Rightarrow> nat option \<Rightarrow> nat \<Rightarrow> dhcpOfferedAddr list \<Rightarrow> nat option" where
  "oldest_loop t r i [] = r"
| "oldest_loop t r i (l # ls) =
     (if t > expires l then oldest_loop (expires l) (Some i) (Suc i) ls else oldest_loop t r (Suc i) ls)"

definition oldest_expired_lease :: "'a dhcp_state_scheme \<Rightarrow> nat option" where
  "oldest_expired_lease s = oldest_loop (time s 0) None 0 (take (max_leases s) (leases s))"

definition add_lease :: "u8 list \<Rightarrow> u32 \<Rightarrow> u32 \<Rightarrow> 'a dhcp_state_scheme \<Rightarrow> bool \<times> 'a dhcp_state_scheme" where
  "add_lease ch y lease s =
     (let s = clear_lease ch y s
      in case oldest_expired_lease s of
           None \<Rightarrow> (False, s)
         | Some i \<Rightarrow>
             (True, s\<lparr>leases := (leases s)[i := \<lparr>chaddr = ch, yiaddr = y,
                expires = (if cfg_lease s = 0xFFFFFFFF then 0xFFFFFFFF else time s 0 + lease)\<rparr>]\<rparr>))"

section \<open>Messages\<close>

text \<open>A message under construction; the fields the server leaves at 0 are not listed.\<close>

record dhcpMessage =
  m_op :: u8
  m_xid :: u32
  m_flags :: u16
  m_ciaddr :: u32
  m_yiaddr :: u32
  m_giaddr :: u32
  m_chaddr :: "u8 list"
  m_options :: "u8 list"

definition DHCP_MAGIC :: u32 where "DHCP_MAGIC = 0x63825363"

definition encode_message :: "dhcpMessage \<Rightarrow> u8 list" where
  "encode_message m =
     [m_op m, 1, 6, 0] @ bytes32 (m_xid m) @ [0, 0] @ bytes16 (m_flags m) @ bytes32 (m_ciaddr m)
       @ bytes32 (m_yiaddr m) @ bytes32 0 @ bytes32 (m_giaddr m) @ m_chaddr m
       @ replicate 64 0 @ replicate 128 0 @ bytes32 (htonl DHCP_MAGIC) @ m_options m"

definition init_header :: "u8 \<Rightarrow> dhcpMessage" where
  "init_header type =
     \<lparr>m_op = (if type \<in> {1, 3, 7, 8} then 1 else if type \<in> {2, 5, 6} then 2 else 0),
      m_xid = 0, m_flags = 0, m_ciaddr = 0, m_yiaddr = 0, m_giaddr = 0, m_chaddr = replicate 16 0,
      m_options = add_simple_option (0xFF # replicate 307 0) 0x35 (ucast type)\<rparr>"

text \<open>The fields of the received message at \<open>packet s\<close>.\<close>

definition rx_chaddr :: "'a dhcp_state_scheme \<Rightarrow> u8 list" where
  "rx_chaddr s = get_bytes (packet s) (o_dhcp + 28) 16"

definition rx_ciaddr :: "'a dhcp_state_scheme \<Rightarrow> u32" where
  "rx_ciaddr s = get32 (packet s) (o_dhcp + 12)"

definition init_packet :: "'a dhcp_state_scheme \<Rightarrow> u8 \<Rightarrow> dhcpMessage" where
  "init_packet s type =
     (let p = packet s; m = init_header type
      in m\<lparr>m_xid := get32 p (o_dhcp + 4), m_chaddr := rx_chaddr s, m_flags := get16 p (o_dhcp + 10),
           m_giaddr := get32 p (o_dhcp + 24), m_ciaddr := rx_ciaddr s,
           m_options := add_simple_option (m_options m) 0x36 (cfg_server s)\<rparr>)"

text \<open>
  \<open>raw_packet\<close>: the UDP checksum is computed over the packet while the IP header holds only
  the protocol, the addresses and the UDP length; the IP header is completed afterwards.
\<close>

definition dhcp_ip :: "u8 \<Rightarrow> u16 \<Rightarrow> u8 \<Rightarrow> u16 \<Rightarrow> u32 \<Rightarrow> u32 \<Rightarrow> u8 list" where
  "dhcp_ip ver len ttl ck src dst =
     [ver, 0] @ bytes16 len @ [0, 0] @ [0, 0] @ [ttl, IP_UDP] @ bytes16 ck @ bytes32 src @ bytes32 dst"

definition raw_packet ::
    "u8 list \<Rightarrow> u32 \<Rightarrow> u16 \<Rightarrow> u32 \<Rightarrow> u16 \<Rightarrow> u8 list \<Rightarrow> 'a dhcp_state_scheme \<Rightarrow> 'a dhcp_state_scheme" where
  "raw_packet payload src sport dst dport dest_arp s =
     (let ulen = htons (8 + 548);
          udp = (\<lambda>ck. bytes16 (htons sport) @ bytes16 (htons dport) @ bytes16 ulen @ bytes16 ck);
          uck = ipheader_chksum (buf_of (dhcp_ip 0 ulen 0 0 src dst @ udp 0 @ payload)) 576;
          iplen = htons 576;
          ick = ipheader_chksum (buf_of (dhcp_ip 0x45 iplen 64 0 src dst)) SIZEOF_IPHDR
      in send FRAME_IP dest_arp (dhcp_ip 0x45 iplen 64 ick src dst @ udp uck @ payload) s)"

definition send_packet_to_client :: "dhcpMessage \<Rightarrow> bool \<Rightarrow> 'a dhcp_state_scheme \<Rightarrow> 'a dhcp_state_scheme" where
  "send_packet_to_client m force_broadcast s =
     (let (ci, ch) =
        (if force_broadcast then (0xFFFFFFFF, replicate 6 0xFF)
         else if m_ciaddr m \<noteq> 0 then (m_ciaddr m, m_chaddr m)
         else if ntohs (m_flags m) AND 0x8000 \<noteq> 0 then (0xFFFFFFFF, replicate 6 0xFF)
         else (m_yiaddr m, m_chaddr m))
      in raw_packet (encode_message m) (cfg_server s) 67 ci 68 ch s)"

definition send_packet :: "dhcpMessage \<Rightarrow> bool \<Rightarrow> 'a dhcp_state_scheme \<Rightarrow> 'a dhcp_state_scheme" where
  "send_packet m force_broadcast s = (if m_giaddr m \<noteq> 0 then s else send_packet_to_client m force_broadcast s)"

text \<open>The address \<open>sendOffer\<close> picks, and the lease time a client gets.\<close>

definition in_pool :: "'a dhcp_state_scheme \<Rightarrow> u32 \<Rightarrow> bool" where
  "in_pool s y \<longleftrightarrow> ntohl (cfg_start s) \<le> ntohl y \<and> ntohl y \<le> ntohl (cfg_end s)"

definition offer_address :: "'a dhcp_state_scheme \<Rightarrow> u32" where
  "offer_address s =
     (case find_lease_by_chaddr s (rx_chaddr s) of
        Some i \<Rightarrow> yiaddr (leases s ! i)
      | None \<Rightarrow>
          (case get_option (packet s) 0x32 of
             None \<Rightarrow> find_address s
           | Some o1 \<Rightarrow>
               (let req = get32 (packet s) o1
                in if in_pool s req \<and> find_lease_by_yiaddr s req = None then req else find_address s)))"

definition requested_lease :: "'a dhcp_state_scheme \<Rightarrow> u32" where
  "requested_lease s =
     (case get_option (packet s) 0x33 of
        None \<Rightarrow> cfg_lease s
      | Some o1 \<Rightarrow> (let t = ntohl (get32 (packet s) o1) in if t > cfg_lease s then cfg_lease s else t))"

definition sendOffer :: "'a dhcp_state_scheme \<Rightarrow> 'a dhcp_state_scheme" where
  "sendOffer s =
     (if \<forall>c \<in> set (rx_chaddr s). c = 0 then s
      else
        (let m = init_packet s 2; y = offer_address s; m = m\<lparr>m_yiaddr := y\<rparr>
         in if y = 0 then s
            else
              (let (ok, s) = add_lease (m_chaddr m) y (offer_time s) s
               in if \<not> ok then s
                  else
                    (let t = requested_lease s; t = (if t < min_lease s then cfg_lease s else t);
                         m = m\<lparr>m_options := add_simple_option (m_options m) 0x33 (htonl t)\<rparr>
                     in send_packet m True s))))"

definition sendNAK :: "'a dhcp_state_scheme \<Rightarrow> 'a dhcp_state_scheme" where
  "sendNAK s = send_packet (init_packet s 6) True s"

definition send_inform :: "'a dhcp_state_scheme \<Rightarrow> 'a dhcp_state_scheme" where
  "send_inform s = send_packet (init_packet s 5) True s"

definition sendACK :: "u32 \<Rightarrow> 'a dhcp_state_scheme \<Rightarrow> 'a dhcp_state_scheme" where
  "sendACK y s =
     (let m = (init_packet s 5)\<lparr>m_yiaddr := y\<rparr>;
          t = requested_lease s;
          t = (if get_option (packet s) 0x33 \<noteq> None \<and> t < min_lease s then cfg_lease s else t);
          m = m\<lparr>m_options := add_simple_option (m_options m) 0x33 (htonl t)\<rparr>;
          s = send_packet m True s
      in snd (add_lease (m_chaddr m) (m_yiaddr m) t s))"

section \<open>A request\<close>

definition set_lease :: "nat \<Rightarrow> (dhcpOfferedAddr \<Rightarrow> dhcpOfferedAddr) \<Rightarrow> 'a dhcp_state_scheme \<Rightarrow> 'a dhcp_state_scheme" where
  "set_lease i f s = s\<lparr>leases := (leases s)[i := f (leases s ! i)]\<rparr>"

definition dhcp_request :: "nat option \<Rightarrow> 'a dhcp_state_scheme \<Rightarrow> 'a dhcp_state_scheme" where
  "dhcp_request lease s =
     (let p = packet s;
          requested = map_option (get32 p) (get_option p 0x32);
          server_id = map_option (get32 p) (get_option p 0x36)
      in case lease of
           Some i \<Rightarrow>
             (let y = yiaddr (leases s ! i)
              in case server_id of
                   Some sid \<Rightarrow> if sid = cfg_server s \<and> requested = Some y then sendACK y s else s
                 | None \<Rightarrow>
                     (case requested of
                        Some r \<Rightarrow> if y = r then sendACK y s else sendNAK s
                      | None \<Rightarrow> if y = rx_ciaddr s then sendACK y s else sendNAK s))
         | None \<Rightarrow>
             (if server_id \<noteq> None then s
              else
                (case requested of
                   None \<Rightarrow> sendNAK s
                 | Some r \<Rightarrow>
                     (case find_lease_by_yiaddr s r of
                        Some i \<Rightarrow> if lease_expired s (leases s ! i)
                                  then set_lease i (\<lambda>l. l\<lparr>chaddr := replicate 16 0\<rparr>) s else sendNAK s
                      | None \<Rightarrow> if r < cfg_start s \<or> r > cfg_end s then sendNAK s else sendNAK s))))"

definition dhcps_input :: "'a dhcp_state_scheme \<Rightarrow> 'a dhcp_state_scheme" where
  "dhcps_input s =
     (case get_option (packet s) 0x35 of
        None \<Rightarrow> s
      | Some o1 \<Rightarrow>
          (let lease = find_lease_by_chaddr s (rx_chaddr s); state = packet s o1
           in if state = 1 then sendOffer s
              else if state = 3 then dhcp_request lease s
              else if state = 4 then
                (case lease of None \<Rightarrow> s
                 | Some i \<Rightarrow> set_lease i (\<lambda>l. l\<lparr>chaddr := replicate 16 0, expires := time s 0 + decline_time s\<rparr>) s)
              else if state = 7 then
                (case lease of None \<Rightarrow> s | Some i \<Rightarrow> set_lease i (\<lambda>l. l\<lparr>expires := time s 0\<rparr>) s)
              else if state = 8 then send_inform s
              else s))"

definition dhcps_entry :: "'a dhcp_state_scheme \<Rightarrow> 'a dhcp_state_scheme" where
  "dhcps_entry s =
     (let ip = (if eth0_ip_httpd s = 0 then ipaddr (arptable_tftp s TFTP_SERVER) else eth0_ip_httpd s);
          ip = ntohl ip; net = ip AND 0xFFFFFF00;
          (a, e) =
            (if ip AND 0xC0 = 0xC0 then (net OR 0x80, net OR 0xBF)
             else if ip AND 0x80 = 0x80 then (net OR 0x02, net OR 0x7F)
             else (net OR 0xC0, net OR 0xFE))
      in s\<lparr>leases := replicate MAX_LEASE no_lease, max_leases := MAX_LEASE,
           cfg_start := htonl a, cfg_end := htonl e, cfg_lease := 60 * 60 * 24 * 10,
           decline_time := 3600, min_lease := 60, offer_time := 60, cfg_server := htonl 0xc0a80106\<rparr>)"

section \<open>Options stay in their field\<close>

definition option_fields :: "(nat \<times> nat) set" where
  "option_fields = {(o_dhcp + 240, 308), (o_dhcp + 108, 128), (o_dhcp + 44, 64)}"

definition option_at :: "buffer \<Rightarrow> u8 \<Rightarrow> nat \<Rightarrow> bool" where
  "option_at p code o1 \<longleftrightarrow>
     (\<exists>(base, len) \<in> option_fields.
        base + 2 \<le> o1 \<and> o1 + unat (p (o1 - 1)) \<le> base + len \<and> p (o1 - 2) = code)"

lemma get_option_loop_ok:
  assumes "get_option_loop p code base i len over fld = Some o1" "(base, len) \<in> option_fields"
  shows "option_at p code o1"
  using assms
proof (induction p code base i len over fld rule: get_option_loop.induct)
  case (1 p code base i len over fld)
  have fields: "(o_dhcp + 108, 128) \<in> option_fields" "(o_dhcp + 44, 64) \<in> option_fields"
    by (simp_all add: option_fields_def)
  have found: "option_at p code (base + i + 2)"
    if "p (base + i) = code" "i + 1 + unat (p (base + i + 1)) < len"
    unfolding option_at_def
    by (rule bexI [OF _ "1.prems"(2)]) (use that in \<open>simp add: ac_simps\<close>)
  note unfold = "1.prems"(1) [unfolded get_option_loop.simps [of p code base i len over fld]]
  consider "p (base + i) = code" | "p (base + i) \<noteq> code" "p (base + i) = 0"
    | "p (base + i) \<noteq> code" "p (base + i) = 0x34"
    | "p (base + i) \<noteq> code" "p (base + i) = 0xFF"
    | "p (base + i) \<noteq> code" "p (base + i) \<noteq> 0" "p (base + i) \<noteq> 0x34" "p (base + i) \<noteq> 0xFF"
    by blast
  then show ?case
  proof cases
    case 1
    then show ?thesis using unfold found by (auto split: if_splits)
  next
    case 2
    then show ?thesis using unfold "1.IH"(1) "1.prems"(2) by (auto split: if_splits)
  next
    case 3
    then show ?thesis using unfold "1.IH"(2) "1.prems"(2) by (auto split: if_splits)
  next
    case 4
    then show ?thesis using unfold "1.IH"(3,4) fields by (auto split: if_splits)
  next
    case 5
    then show ?thesis using unfold "1.IH"(5) "1.prems"(2) by (auto split: if_splits)
  qed
qed

section \<open>The lease table\<close>

definition lease_inv :: "'a dhcp_state_scheme \<Rightarrow> bool" where
  "lease_inv s \<longleftrightarrow>
     (\<forall>i < length (leases s). yiaddr (leases s ! i) \<noteq> 0 \<longrightarrow>
        in_pool s (yiaddr (leases s ! i))
        \<and> (\<forall>j < length (leases s). j \<noteq> i \<longrightarrow> yiaddr (leases s ! j) \<noteq> yiaddr (leases s ! i)))"

text \<open>Everything but the lease table is irrelevant to the invariant.\<close>

definition same_pool :: "'a dhcp_state_scheme \<Rightarrow> 'a dhcp_state_scheme \<Rightarrow> bool" where
  "same_pool s t \<longleftrightarrow> cfg_start t = cfg_start s \<and> cfg_end t = cfg_end s"

lemma in_pool_cong: "same_pool s t \<Longrightarrow> in_pool t y = in_pool s y"
  by (simp add: same_pool_def in_pool_def)

lemma lease_inv_cong: "same_pool s t \<Longrightarrow> leases t = leases s \<Longrightarrow> lease_inv t = lease_inv s"
  by (simp add: lease_inv_def in_pool_cong)

text \<open>An entry may lose its address, or get a new one that no other entry holds.\<close>

lemma lease_inv_fewer:
  assumes "lease_inv s" "same_pool s t" "length (leases t) = length (leases s)"
    and "\<And>i. i < length (leases s) \<Longrightarrow>
      yiaddr (leases t ! i) = yiaddr (leases s ! i) \<or> yiaddr (leases t ! i) = 0"
  shows "lease_inv t"
  unfolding lease_inv_def assms(3) in_pool_cong [OF assms(2)]
  using assms(1) assms(4) unfolding lease_inv_def by metis

lemma lease_inv_update:
  assumes "lease_inv s" "i < length (leases s)" "y \<noteq> 0 \<Longrightarrow> in_pool s y"
    and "\<And>l. l \<in> set (leases s) \<Longrightarrow> y \<noteq> 0 \<Longrightarrow> yiaddr l \<noteq> y" "yiaddr l = y"
  shows "lease_inv (s\<lparr>leases := (leases s)[i := l]\<rparr>)"
proof -
  have other: "yiaddr (leases s ! j) \<noteq> y" if "j < length (leases s)" "y \<noteq> 0" for j
    using assms(4) [OF nth_mem [OF that(1)] that(2)] .
  have pool: "in_pool (s\<lparr>leases := ls\<rparr>) a = in_pool s a" for ls a
    by (simp add: in_pool_def)
  show ?thesis
    unfolding lease_inv_def pool using assms(1,2,3,5) other
    by (auto simp: lease_inv_def nth_list_update) blast
qed

lemma same_pool_simps [simp]:
  "same_pool s s" "same_pool s (t\<lparr>leases := ls\<rparr>) = same_pool s t" "same_pool s (t\<lparr>txlog := x\<rparr>) = same_pool s t"
  by (simp_all add: same_pool_def)

lemma clear_lease_inv: "lease_inv s \<Longrightarrow> lease_inv (clear_lease ch y s)"
  by (rule lease_inv_fewer [of s])
     (auto simp: clear_lease_def no_lease_def nth_append min_def)

lemma clear_lease_length [simp]:
  "length (leases (clear_lease ch y s)) = length (leases s)"
  "max_leases (clear_lease ch y s) = max_leases s"
  by (simp_all add: clear_lease_def)

lemma clear_lease_gone:
  assumes "length (leases s) \<le> max_leases s" "l \<in> set (leases (clear_lease ch y s))" "y \<noteq> 0"
  shows "yiaddr l \<noteq> y"
  using assms by (auto simp: clear_lease_def no_lease_def)

lemma oldest_loop_index:
  "oldest_loop t r i ls = Some k \<Longrightarrow> r = Some k \<or> i \<le> k \<and> k < i + length ls"
  by (induction t r i ls rule: oldest_loop.induct) (auto split: if_splits)

lemma oldest_expired_lease_index:
  "oldest_expired_lease s = Some k \<Longrightarrow> k < length (leases s)"
  using oldest_loop_index [of "time s 0" None 0 "take (max_leases s) (leases s)" k]
  by (auto simp: oldest_expired_lease_def)

lemma add_lease_inv:
  assumes "lease_inv s" "length (leases s) \<le> max_leases s" "y \<noteq> 0 \<Longrightarrow> in_pool s y"
  shows "lease_inv (snd (add_lease ch y lease s))"
proof -
  let ?c = "clear_lease ch y s"
  have c: "lease_inv ?c" using assms(1) by (rule clear_lease_inv)
  have pool: "y \<noteq> 0 \<Longrightarrow> in_pool ?c y" using assms(3) by (simp add: clear_lease_def in_pool_def)
  show ?thesis
  proof (cases "oldest_expired_lease ?c")
    case None
    then show ?thesis using c by (simp add: add_lease_def Let_def)
  next
    case (Some i)
    show ?thesis
      unfolding add_lease_def Let_def Some option.case snd_conv
      by (rule lease_inv_update [OF c oldest_expired_lease_index [OF Some] pool])
         (use clear_lease_gone [OF assms(2)] in auto)
  qed
qed

text \<open>What the table keeps through any operation.\<close>

definition table_ok :: "'a dhcp_state_scheme \<Rightarrow> bool" where
  "table_ok s \<longleftrightarrow> lease_inv s \<and> length (leases s) \<le> max_leases s"

lemma table_ok_cong [simp]:
  "table_ok (s\<lparr>txlog := x\<rparr>) = table_ok s" "table_ok (s\<lparr>packet := p\<rparr>) = table_ok s"
  "table_ok (s\<lparr>jiffies := t\<rparr>) = table_ok s"
  by (simp_all add: table_ok_def lease_inv_def in_pool_def)

lemma table_ok_send [simp]:
  "table_ok (send ty d x s) = table_ok s" "table_ok (send_packet m b s) = table_ok s"
  by (simp_all add: send_def send_packet_def send_packet_to_client_def raw_packet_def Let_def
      split: prod.split)

lemma add_lease_ok:
  assumes "table_ok s" "y \<noteq> 0 \<Longrightarrow> in_pool s y"
  shows "table_ok (snd (add_lease ch y lease s))"
  using assms add_lease_inv [of s y ch lease]
  by (auto simp: table_ok_def) (simp add: add_lease_def Let_def split: option.split)

lemma yiaddr_list_update:
  "(\<And>l. yiaddr (f l) = yiaddr l) \<Longrightarrow> k < length ls \<Longrightarrow> yiaddr (ls[i := f (ls ! i)] ! k) = yiaddr (ls ! k)"
  by (cases "i = k") auto

lemma set_lease_ok:
  assumes "table_ok s" "\<And>l. yiaddr (f l) = yiaddr l"
  shows "table_ok (set_lease i f s)"
proof -
  have "lease_inv (set_lease i f s)"
    by (rule lease_inv_fewer [of s])
       (use assms in \<open>simp_all add: table_ok_def set_lease_def yiaddr_list_update\<close>)
  then show ?thesis using assms(1) by (simp add: table_ok_def set_lease_def)
qed

text \<open>The addresses the server picks.\<close>

lemma find_address_loop_pool:
  "find_address_loop s n addr = y \<Longrightarrow> y \<noteq> 0 \<Longrightarrow> unat addr + n \<le> Suc (unat e) \<Longrightarrow>
    addr \<le> ntohl y \<and> ntohl y \<le> e"
proof (induction n arbitrary: addr)
  case (Suc n)
  have here: "addr \<le> e" using Suc.prems(3) by (simp add: word_le_nat_alt)
  show ?case
  proof (cases "n = 0")
    case True
    then show ?thesis using Suc.prems here by (auto split: if_splits)
  next
    case False
    have "unat addr < unat e" using Suc.prems(3) False by linarith
    moreover have "unat e < 2 ^ LENGTH(32)" by (rule unsigned_less)
    ultimately have up: "unat (addr + 1) = unat addr + 1"
      by (simp add: unat_word_ariths)
    then have le: "addr \<le> addr + 1" by (simp add: word_le_nat_alt)
    note IH = Suc.IH [of "addr + 1"]
    show ?thesis
      using Suc.prems here up le IH by (auto split: if_splits)
  qed
qed simp

lemma find_address_pool: "find_address s \<noteq> 0 \<Longrightarrow> in_pool s (find_address s)"
proof -
  assume nz: "find_address s \<noteq> 0"
  show ?thesis
  proof (cases "unat (ntohl (cfg_start s)) \<le> Suc (unat (ntohl (cfg_end s)))")
    case True
    show ?thesis
      unfolding in_pool_def
      by (rule find_address_loop_pool [where n = "Suc (unat (ntohl (cfg_end s))) - unat (ntohl (cfg_start s))"
            and s = s])
         (use nz True in \<open>simp_all add: find_address_def\<close>)
  next
    case False
    then show ?thesis using nz by (simp add: find_address_def)
  qed
qed

lemma find_index_bound: "find_index P xs = Some i \<Longrightarrow> i < length xs \<and> P (xs ! i)"
  by (induction xs arbitrary: i) (auto split: if_splits)

lemma find_lease_nth:
  "find_lease_by_chaddr s ch = Some i \<Longrightarrow> i < length (leases s) \<and> chaddr (leases s ! i) = ch"
  "find_lease_by_yiaddr s y = Some i \<Longrightarrow> i < length (leases s) \<and> yiaddr (leases s ! i) = y"
  by (auto simp: find_lease_by_chaddr_def find_lease_by_yiaddr_def dest!: find_index_bound)

lemma leased_in_pool:
  "table_ok s \<Longrightarrow> i < length (leases s) \<Longrightarrow> yiaddr (leases s ! i) \<noteq> 0 \<Longrightarrow> in_pool s (yiaddr (leases s ! i))"
  by (simp add: table_ok_def lease_inv_def)

lemma offer_address_pool: "table_ok s \<Longrightarrow> offer_address s \<noteq> 0 \<Longrightarrow> in_pool s (offer_address s)"
  by (auto simp: offer_address_def Let_def find_address_pool leased_in_pool
      dest!: find_lease_nth split: option.splits if_splits)

lemma sendOffer_ok: "table_ok s \<Longrightarrow> table_ok (sendOffer s)"
  using add_lease_ok [of s "offer_address s"] offer_address_pool [of s]
  by (auto simp: sendOffer_def Let_def split: prod.split) (metis snd_conv)+

lemma sendACK_ok:
  assumes "table_ok s" "y \<noteq> 0 \<Longrightarrow> in_pool s y"
  shows "table_ok (sendACK y s)"
proof -
  have pool: "in_pool (send_packet m b s) y = in_pool s y" for m b
    by (simp add: send_packet_def send_packet_to_client_def raw_packet_def send_def in_pool_def Let_def
        split: prod.split)
  show ?thesis unfolding sendACK_def Let_def
    by (rule add_lease_ok) (use assms in \<open>auto simp: pool\<close>)
qed

lemma dhcp_request_ok:
  assumes "table_ok s" "\<And>i. lease = Some i \<Longrightarrow> i < length (leases s)"
  shows "table_ok (dhcp_request lease s)"
proof (cases lease)
  case None
  then show ?thesis using assms(1)
    by (auto simp: dhcp_request_def Let_def sendNAK_def intro!: set_lease_ok split: option.split)
next
  case (Some i)
  have "table_ok (sendACK (yiaddr (leases s ! i)) s)"
    by (rule sendACK_ok [OF assms(1)]) (rule leased_in_pool [OF assms(1) assms(2) [OF Some]])
  then show ?thesis using assms(1)
    by (auto simp: dhcp_request_def Let_def sendNAK_def Some split: option.split)
qed

lemma dhcps_input_ok: "table_ok s \<Longrightarrow> table_ok (dhcps_input s)"
  using dhcp_request_ok [of s "find_lease_by_chaddr s (rx_chaddr s)"]
    find_lease_nth(1) [of s "rx_chaddr s"]
  by (auto simp: dhcps_input_def Let_def sendOffer_ok set_lease_ok send_inform_def split: option.split)

section \<open>Runs of the server\<close>

text \<open>An event is a received packet and the time at which it is treated.\<close>

definition dhcp_step :: "'a dhcp_state_scheme \<Rightarrow> buffer \<times> u32 \<Rightarrow> 'a dhcp_state_scheme" where
  "dhcp_step s e = dhcps_input (s\<lparr>packet := fst e, jiffies := snd e\<rparr>)"

interpretation dhcps: event_machine dhcp_step table_ok
  by unfold_locales (simp add: dhcp_step_def dhcps_input_ok)

lemma dhcps_entry_ok: "table_ok (dhcps_entry s)"
  by (simp add: dhcps_entry_def table_ok_def lease_inv_def no_lease_def Let_def split: prod.split)

definition leases_unique :: "'a dhcp_state_scheme \<Rightarrow> bool" where
  "leases_unique s \<longleftrightarrow>
     distinct (filter (\<lambda>y. y \<noteq> 0) (map yiaddr (leases s)))
     \<and> list_all (\<lambda>l. yiaddr l = 0 \<or> in_pool s (yiaddr l)) (leases s)"

lemma distinct_filter_nth:
  assumes "\<And>i j. i < length xs \<Longrightarrow> j < length xs \<Longrightarrow> j \<noteq> i \<Longrightarrow> P (xs ! i) \<Longrightarrow> xs ! j \<noteq> xs ! i"
  shows "distinct (filter P xs)"
  using assms
proof (induction xs)
  case (Cons x xs)
  have "distinct (filter P xs)"
    by (rule Cons.IH) (use Cons.prems [of "Suc _" "Suc _"] in simp)
  moreover have "x \<notin> set xs" if "P x"
    using Cons.prems [of 0 "Suc _"] that by (auto simp: in_set_conv_nth)
  ultimately show ?case by auto
qed simp

lemma table_ok_unique: "table_ok s \<Longrightarrow> leases_unique s"
  unfolding leases_unique_def
  by (rule conjI, rule distinct_filter_nth)
     (auto simp: table_ok_def lease_inv_def list_all_length)

text \<open>C15: From its start on, whatever packets arrive at whatever time, the DHCP server never holds
  two leases for one address, and every leased address lies in the configured pool.\<close>

theorem dhcp_leases_unique: "leases_unique (run_events dhcp_step (dhcps_entry s) es)"
  by (rule table_ok_unique) (rule dhcps.run_inv [OF dhcps_entry_ok])

section \<open>A renewal\<close>

lemma oldest_loop_some: "r \<noteq> None \<or> (\<exists>l \<in> set ls. expires l < t) \<Longrightarrow> oldest_loop t r i ls \<noteq> None"
  by (induction t r i ls rule: oldest_loop.induct) fastforce+

text \<open>A client that has an entry never finds the table full: its entry is cleared first.\<close>

lemma add_lease_records:
  assumes "max_leases s = length (leases s)" "l \<in> set (leases s)" "chaddr l = ch" "\<exists>c \<in> set ch. c \<noteq> 0"
    and "jiffies s \<noteq> 0"
  shows "\<lparr>chaddr = ch, yiaddr = y,
           expires = (if cfg_lease s = 0xFFFFFFFF then 0xFFFFFFFF else jiffies s + lease)\<rparr>
    \<in> set (leases (snd (add_lease ch y lease s)))"
proof -
  let ?c = "clear_lease ch y s"
  have "no_lease \<in> set (leases ?c)"
    using assms by (auto simp: clear_lease_def image_iff intro!: bexI [of _ l])
  moreover have "expires no_lease < time ?c 0"
    using assms(5) by (simp add: no_lease_def time_def clear_lease_def word_neq_0_conv)
  ultimately have "oldest_expired_lease ?c \<noteq> None"
    unfolding oldest_expired_lease_def using assms(1) by (intro oldest_loop_some) auto
  then obtain i where i: "oldest_expired_lease ?c = Some i" by blast
  note index = oldest_expired_lease_index [OF i]
  have same: "cfg_lease ?c = cfg_lease s" "time ?c 0 = jiffies s"
    by (simp_all add: clear_lease_def time_def)
  show ?thesis
    unfolding add_lease_def Let_def i option.case snd_conv
    using index by (simp add: same set_update_memI)
qed

definition sample_dhcp :: "buffer \<Rightarrow> dhcp_state" where
  "sample_dhcp p =
     \<lparr>mem = (\<lambda>_. 0), flash = sample_flash, jiffies = 700,
      arptable_tftp = arptable_tftp (sample_boot (\<lambda>_. 0)), eth0_mac = [0x56, 0xaa, 0xa5, 0x5a, 0x7d, 0xe8],
      txlog = [], run = Running, gCHKKEY_HIT = False, gCHKKEY_CNT = 0, uart = [], return_addr = 0,
      packet = p, packetlen = 590, tftpd_is_ready = True, rx_kickofftime = 0, one_tftp_lock = False,
      image_address = FILESTART, address_to_store = FILESTART, file_length_to_server = 0,
      file_length_to_client = 0, block_expected = 0, it_is_EOF = False, filename = [],
      bootState = BOOT_STATE0_INIT_ARP, CLIENT_port = 0, SERVER_port = 2098, jump_to_test = False,
      autoBurn = True, tftp_client_enabled = False, last_sent_time = 0, retry_cnt = 0,
      tftp_from_command = False, tftp_client_recvdone = False, tftpfilename = [], errcode = 0, errmsg = [],
      leases = [\<lparr>chaddr = [0, 1, 2, 3, 4, 5] @ replicate 10 0, yiaddr = le32 192 168 1 130, expires = 800\<rparr>,
                no_lease],
      cfg_server = le32 192 168 1 6, cfg_start = le32 192 168 1 128, cfg_end = le32 192 168 1 191,
      cfg_lease = 864000, max_leases = 2, decline_time = 3600, offer_time = 60, min_lease = 60,
      eth0_ip_httpd = 0, eth0_mac_httpd = replicate 6 0\<rparr>"

text \<open>A DHCPREQUEST for 192.168.1.130 sent to the server 192.168.1.6.\<close>

definition sample_request :: buffer where
  "sample_request =
     (\<lambda>_. 0)(71 := 1, 72 := 2, 73 := 3, 74 := 4, 75 := 5,
       282 := 53, 283 := 1, 284 := 3,
       285 := 50, 286 := 4, 287 := 192, 288 := 168, 289 := 1, 290 := 130,
       291 := 54, 292 := 4, 293 := 192, 294 := 168, 295 := 1, 296 := 6, 297 := 255)"

lemma dhcps_input_request:
  assumes "get_option (packet s) 0x35 = Some o1" "packet s o1 = 3"
    and "find_lease_by_chaddr s (rx_chaddr s) = Some i"
    and "get_option (packet s) 0x36 = Some o2" "get32 (packet s) o2 = cfg_server s"
    and "get_option (packet s) 0x32 = Some o3" "get32 (packet s) o3 = yiaddr (leases s ! i)"
  shows "dhcps_input s = sendACK (yiaddr (leases s ! i)) s"
  using assms by (simp add: dhcps_input_def dhcp_request_def)

lemma raw_packet_frame:
  "\<exists>hdr. length hdr = 28 \<and> raw_packet payload src sport dst dport arp s = send FRAME_IP arp (hdr @ payload) s"
  unfolding raw_packet_def Let_def append_assoc [symmetric]
  by (rule exI, rule conjI [OF _ refl]) (simp add: dhcp_ip_def)

lemma send_packet_broadcast:
  assumes "m_giaddr m = 0" "length (eth0_mac s) = 6"
  shows "\<exists>frame. send_packet m True s = s\<lparr>txlog := txlog s @ [frame]\<rparr> \<and> take 6 frame = replicate 6 0xFF
    \<and> drop 42 frame = encode_message m"
proof -
  obtain hdr where hdr: "length hdr = 28"
    "send_packet m True s = send FRAME_IP (replicate 6 0xFF) (hdr @ encode_message m) s"
    using exE [OF raw_packet_frame [where payload = "encode_message m" and src = "cfg_server s"
        and sport = 67 and dst = "0xFFFFFFFF" and dport = 68 and arp = "replicate 6 0xFF" and s = s]] assms(1)
    by (auto simp: send_packet_def send_packet_to_client_def)
  show ?thesis unfolding hdr(2)
    by (rule exI [of _ "prepare_txpkt (eth0_mac s) FRAME_IP (replicate 6 0xFF) (hdr @ encode_message m)"])
       (simp add: send_def prepare_txpkt_def assms(2) hdr(1))
qed

lemma encode_message_yiaddr: "take 4 (drop 16 (encode_message m)) = bytes32 (m_yiaddr m)"
  by (simp add: encode_message_def)

text \<open>Options are appended in front of the end option.\<close>

lemma end_option_skip:
  assumes "c \<noteq> 0" "c \<noteq> 0xFF" "unat n = length d"
  shows "end_option (pre @ c # n # d @ rest) (length pre) = end_option (pre @ c # n # d @ rest) (length pre + length d + 2)"
  using assms by (subst end_option.simps) (simp add: nth_append nth_default_append add.commute)

lemma end_option_stop: "end_option (pre @ 0xFF # rest) (length pre) = length pre"
  by (subst end_option.simps) simp

lemma add_option_string_appends:
  assumes "end_option (pre @ 0xFF # replicate k 0) 0 = length pre" "unat n = length d"
    and "length d + 2 \<le> k" "length pre + length d + 3 < 308"
  shows "add_option_string (pre @ 0xFF # replicate k 0) (c # n # d)
    = (pre @ c # n # d) @ 0xFF # replicate (k - (length d + 2)) 0"
  using assms by (simp add: add_option_string_def put_at_def drop_Cons')

lemma reply_options:
  "add_simple_option (m_options (init_packet s t)) 0x33 x
    = [0x35, 1, t, 0x36, 4] @ bytes32 (cfg_server s) @ [0x33, 4] @ bytes32 x @ 0xFF # replicate 292 0"
proof -
  have len: "length (bytes32 y) = 4" for y by (simp add: bytes32_def)
  have one: "add_simple_option (0xFF # replicate 307 0) 0x35 (ucast t) = [0x35, 1, t] @ 0xFF # replicate 304 0"
    using add_option_string_appends [where pre = "[]" and k = 307 and n = 1 and d = "[t]" and c = "0x35"]
      end_option_stop [where pre = "[]" and rest = "replicate 307 0"]
    by (simp add: add_simple_option_def option_table_def bytes32_def unsigned_ucast_eq take_bit_word_eq_self)
  have e1: "end_option ([0x35, 1, t] @ 0xFF # replicate 304 0) 0 = length [0x35, 1, t]"
    using end_option_skip [of "0x35" 1 "[t]" "[]" "0xFF # replicate 304 0"]
      end_option_stop [of "[0x35, 1, t]" "replicate 304 0"] by simp
  have two: "add_simple_option ([0x35, 1, t] @ 0xFF # replicate 304 0) 0x36 y
      = ([0x35, 1, t] @ 0x36 # 4 # bytes32 y) @ 0xFF # replicate 298 0" for y
    using add_option_string_appends [OF e1, of 4 "bytes32 y" "0x36"]
    by (simp add: add_simple_option_def option_table_def len)
  have e2: "end_option (([0x35, 1, t] @ 0x36 # 4 # bytes32 y) @ 0xFF # replicate 298 0) 0
      = length ([0x35, 1, t] @ 0x36 # 4 # bytes32 y)" for y
    using end_option_skip [of "0x35" 1 "[t]" "[]" "0x36 # 4 # bytes32 y @ 0xFF # replicate 298 0"]
      end_option_skip [of "0x36" 4 "bytes32 y" "[0x35, 1, t]" "0xFF # replicate 298 0"]
      end_option_stop [of "[0x35, 1, t] @ 0x36 # 4 # bytes32 y" "replicate 298 0"] by (simp add: len)
  have three: "add_simple_option (([0x35, 1, t] @ 0x36 # 4 # bytes32 y) @ 0xFF # replicate 298 0) 0x33 x
      = (([0x35, 1, t] @ 0x36 # 4 # bytes32 y) @ 0x33 # 4 # bytes32 x) @ 0xFF # replicate 292 0" for y
    using add_option_string_appends [OF e2 [of y], of 4 "bytes32 x" "0x33"]
    by (simp add: add_simple_option_def option_table_def len)
  show ?thesis
    using one two [of "cfg_server s"] three [of "cfg_server s"] by (simp add: init_packet_def init_header_def Let_def)
qed

lemma encode_message_options:
  "length (m_chaddr m) = 16 \<Longrightarrow> drop 240 (encode_message m) = m_options m"
  "length (m_chaddr m) = 16 \<Longrightarrow> take 16 (drop 28 (encode_message m)) = m_chaddr m"
  "take 4 (drop 4 (encode_message m)) = bytes32 (m_xid m)"
  "take 1 (encode_message m) = [m_op m]"
  by (simp_all add: encode_message_def bytes32_def bytes16_def)

text \<open>C16: A client whose hardware address has a lease, and which requests that lease's address from
  this server (server identifier option with the server's address, requested address option, no
  lease time option of its own, not through a relay), is answered by one broadcast frame: a
  DHCPACK that echoes its transaction id and hardware address, gives that address, and carries
  message type 5, the server's address and the configured lease time as its options. Its lease is
  renewed: the table has an entry with its hardware address, the address and the new time of
  expiry.\<close>

theorem dhcp_request_renews:
  assumes "get_option (packet s) 0x35 = Some o1" "packet s o1 = 3"
    and "find_lease_by_chaddr s (rx_chaddr s) = Some i" "\<exists>c \<in> set (rx_chaddr s). c \<noteq> 0"
    and "get_option (packet s) 0x36 = Some o2" "get32 (packet s) o2 = cfg_server s"
    and "get_option (packet s) 0x32 = Some o3" "get32 (packet s) o3 = yiaddr (leases s ! i)"
    and "get_option (packet s) 0x33 = None" "get32 (packet s) (o_dhcp + 24) = 0"
    and "max_leases s = length (leases s)" "jiffies s \<noteq> 0" "cfg_lease s \<noteq> 0xFFFFFFFF"
    and "length (eth0_mac s) = 6"
  shows "\<lparr>chaddr = rx_chaddr s, yiaddr = yiaddr (leases s ! i), expires = jiffies s + cfg_lease s\<rparr>
      \<in> set (leases (dhcps_input s))
    \<and> (\<exists>frame. txlog (dhcps_input s) = txlog s @ [frame] \<and> take 6 frame = replicate 6 0xFF
        \<and> take 1 (drop 42 frame) = [2] \<and> take 4 (drop 46 frame) = bytes32 (get32 (packet s) (o_dhcp + 4))
        \<and> take 4 (drop 58 frame) = bytes32 (yiaddr (leases s ! i)) \<and> take 16 (drop 70 frame) = rx_chaddr s
        \<and> drop 282 frame = [0x35, 1, 5, 0x36, 4] @ bytes32 (cfg_server s)
            @ [0x33, 4] @ bytes32 (htonl (cfg_lease s)) @ 0xFF # replicate 292 0)"
proof -
  let ?y = "yiaddr (leases s ! i)"
  note input = dhcps_input_request [OF assms(1-3) assms(5-8)]
  define m where "m = (init_packet s 5)\<lparr>m_yiaddr := ?y,
      m_options := add_simple_option (m_options (init_packet s 5)) 0x33 (htonl (cfg_lease s))\<rparr>"
  have m: "m_giaddr m = 0" "m_yiaddr m = ?y" "m_chaddr m = rx_chaddr s" "m_op m = 2"
    "m_xid m = get32 (packet s) (o_dhcp + 4)"
    using assms(10) by (simp_all add: m_def init_packet_def init_header_def Let_def)
  have opts: "m_options m = [0x35, 1, 5, 0x36, 4] @ bytes32 (cfg_server s)
      @ [0x33, 4] @ bytes32 (htonl (cfg_lease s)) @ 0xFF # replicate 292 0"
    using reply_options [of s 5 "htonl (cfg_lease s)"] by (simp add: m_def)
  have ch: "length (m_chaddr m) = 16" by (simp add: m(3) rx_chaddr_def)
  have ack: "sendACK ?y s = snd (add_lease (rx_chaddr s) ?y (cfg_lease s) (send_packet m True s))"
    using assms(9) by (simp add: sendACK_def requested_lease_def Let_def m_def init_packet_def)
  obtain frame where frame: "send_packet m True s = s\<lparr>txlog := txlog s @ [frame]\<rparr>"
      "take 6 frame = replicate 6 0xFF" "drop 42 frame = encode_message m"
    using send_packet_broadcast [OF m(1) assms(14)] by blast
  have at: "drop (k + 42) frame = drop k (encode_message m)" for k
    using frame(3) by (metis drop_drop)
  have y: "take 1 (drop 42 frame) = [2]" "take 4 (drop 46 frame) = bytes32 (get32 (packet s) (o_dhcp + 4))"
    "take 4 (drop 58 frame) = bytes32 ?y" "take 16 (drop 70 frame) = rx_chaddr s"
    "drop 282 frame = m_options m"
    using at [of 0] at [of 4] at [of 16] at [of 28] at [of 240] encode_message_options [of m] ch
    by (simp_all add: m encode_message_yiaddr)
  have i: "i < length (leases s)" "chaddr (leases s ! i) = rx_chaddr s"
    using find_lease_nth(1) [OF assms(3)] by simp_all
  have "\<lparr>chaddr = rx_chaddr s, yiaddr = ?y, expires = jiffies s + cfg_lease s\<rparr>
      \<in> set (leases (snd (add_lease (rx_chaddr s) ?y (cfg_lease s) (send_packet m True s))))"
    unfolding frame(1)
    using add_lease_records [of "s\<lparr>txlog := txlog s @ [frame]\<rparr>" "leases s ! i" "rx_chaddr s" ?y "cfg_lease s"]
      i assms(4,11-13) by simp
  moreover have "txlog (snd (add_lease ch z l t)) = txlog t" for ch z l and t :: "'a dhcp_state_scheme"
    by (simp add: add_lease_def clear_lease_def Let_def split: option.split)
  ultimately show ?thesis
    unfolding input ack using frame(1,2) y opts by (intro conjI exI [of _ frame]) simp_all
qed

lemma dhcp_request_renews_witness:
  "let s = sample_dhcp sample_request
   in \<lparr>chaddr = [0, 1, 2, 3, 4, 5] @ replicate 10 0, yiaddr = le32 192 168 1 130, expires = 864700\<rparr>
      \<in> set (leases (dhcps_input s))
    \<and> (\<exists>frame. txlog (dhcps_input s) = [frame] \<and> take 3 (drop 282 frame) = [0x35, 1, 5])"
proof -
  let ?s = "sample_dhcp sample_request"
  have opt: "get_option sample_request 0x35 = Some 284" "get_option sample_request 0x32 = Some 287"
    "get_option sample_request 0x36 = Some 293" "get_option sample_request 0x33 = None"
    by (simp_all add: get_option_def o_dhcp_def sample_request_def get_option_loop.simps)
  have z: "replicate 10 (0 :: u8) = [0, 0, 0, 0, 0, 0, 0, 0, 0, 0]" by (simp add: numeral_eq_Suc)
  have ch: "rx_chaddr ?s = [0, 1, 2, 3, 4, 5] @ replicate 10 0"
    by (simp add: rx_chaddr_def sample_dhcp_def get_bytes_def o_dhcp_def sample_request_def upt_conv_Cons z)
  have sel: "packet ?s = sample_request" "jiffies ?s = 700" "cfg_lease ?s = 864000" "max_leases ?s = 2"
    "cfg_server ?s = le32 192 168 1 6" "length (eth0_mac ?s) = 6"
    "leases ?s = [\<lparr>chaddr = [0, 1, 2, 3, 4, 5] @ replicate 10 0, yiaddr = le32 192 168 1 130, expires = 800\<rparr>,
                no_lease]"
    by (simp_all add: sample_dhcp_def)
  have lease: "find_lease_by_chaddr ?s (rx_chaddr ?s) = Some 0"
    by (simp add: find_lease_by_chaddr_def sel ch)
  have words: "sample_request 284 = 3" "get32 sample_request 293 = le32 192 168 1 6"
    "get32 sample_request 287 = le32 192 168 1 130" "get32 sample_request (o_dhcp + 24) = 0"
    by (simp_all add: sample_request_def get32_def o_dhcp_def) (simp add: le32_def)
  have log: "txlog ?s = []" by (simp add: sample_dhcp_def)
  note applied = dhcp_request_renews [of ?s 284 0 293 287, unfolded sel ch]
  have "(\<exists>frame. txlog (dhcps_input ?s) = txlog ?s @ [frame] \<and> take 3 (drop 282 frame) = [0x35, 1, 5])
    \<and> \<lparr>chaddr = [0, 1, 2, 3, 4, 5] @ replicate 10 0, yiaddr = le32 192 168 1 130, expires = 864700\<rparr>
      \<in> set (leases (dhcps_input ?s))"
    using applied opt lease words by (auto simp: sel ch)
  then show ?thesis by (simp add: log)
qed

text \<open>An option that \<open>get_option\<close> finds has the code that was asked for, and the data its length
  byte announces lie within the field it was found in: options, file or sname.\<close>

theorem get_option_in_field: "get_option p code = Some o1 \<Longrightarrow> option_at p code o1"
  unfolding get_option_def by (erule get_option_loop_ok) (simp add: option_fields_def)

lemma get_option_in_field_witness: "option_at sample_request 0x32 287"
  by (rule get_option_in_field)
     (simp add: get_option_def o_dhcp_def sample_request_def get_option_loop.simps)

end
