(* ===== verification/Utcp.thy ===== *)
theory Utcp
  imports Dhcpd
begin

text \<open>
  The emergency web server of \<^verbatim>\<open>boot/init/utcp.c\<close> (with \<^verbatim>\<open>boot/init/utcp.h\<close>): a TCP
  endpoint for one session at a time and the upload of a firmware file by an HTTP POST.
  Sequence numbers and addresses are the 32-bit words in memory, in network byte order, as
  in the code. A function has the value \<open>None\<close> when one of its scans for a line end does
  not end, or when the code goes on with a value it never set (a missing \<open>return\<close>, an
  uninitialised variable).
\<close>

section \<open>State\<close>

datatype tcp_state =
    TCP_ESTABLISHED | TCP_SYN_SENT | TCP_SYN_RECV | TCP_FIN_WAIT1 | TCP_FIN_WAIT2 | TCP_TIME_WAIT
  | TCP_CLOSE | TCP_CLOSE_WAIT | TCP_LAST_ACK | TCP_LISTEN | TCP_CLOSING

record UTCPINFO_T =
  sessionsaved :: bool
  tcpi_state :: tcp_state
  tcpi_node :: "u8 list"
  tcpi_sport :: u16
  tcpi_dport :: u16
  tcpi_ack :: u32
  tcpi_acked :: u32
  tcpi_seq :: u32
  tcpi_dst :: u32
  tcpi_src :: u32
  uploadstarted :: bool

record http_state = dhcp_state +
  utcp_info :: UTCPINFO_T
  content_offset :: u32
  content_length :: u32
  httpd_mem :: u32          \<comment> \<open>where uploads are stored; \<open>IMAGE_MEM_ADDR\<close> until LOADADDR changes it\<close>
  httpd_mem_len :: u32
  upload_len :: u32
  foundboundary :: nat
  ip_seq :: u16
  readyToUpgrade :: bool
  message :: "u8 list"       \<comment> \<open>the C string the failed check left\<close>

definition ACK_MASK :: u8 where "ACK_MASK = 16"
definition RST_MASK :: u8 where "RST_MASK = 4"
definition SYN_MASK :: u8 where "SYN_MASK = 2"
definition FIN_MASK :: u8 where "FIN_MASK = 1"

lemmas tcp_masks = ACK_MASK_def RST_MASK_def SYN_MASK_def FIN_MASK_def

definition set_tcp :: "(UTCPINFO_T \<Rightarrow> UTCPINFO_T) \<Rightarrow> 'a http_state_scheme \<Rightarrow> 'a http_state_scheme" where
  "set_tcp f s = s\<lparr>utcp_info := f (utcp_info s)\<rparr>"

definition set_tcpi_state :: "tcp_state \<Rightarrow> 'a http_state_scheme \<Rightarrow> 'a http_state_scheme" where
  "set_tcpi_state st = set_tcp (\<lambda>u. u\<lparr>tcpi_state := st\<rparr>)"

definition incseq :: "u32 \<Rightarrow> u32 \<Rightarrow> u32" where
  "incseq seq len = htonl (ntohl seq + len)"

definition inc_ack :: "u32 \<Rightarrow> 'a http_state_scheme \<Rightarrow> 'a http_state_scheme" where
  "inc_ack n = set_tcp (\<lambda>u. u\<lparr>tcpi_ack := incseq (tcpi_ack u) n\<rparr>)"

definition inc_seq :: "u32 \<Rightarrow> 'a http_state_scheme \<Rightarrow> 'a http_state_scheme" where
  "inc_seq n = set_tcp (\<lambda>u. u\<lparr>tcpi_seq := incseq (tcpi_seq u) n\<rparr>)"

text \<open>The fields of the segment at \<open>packet s\<close>; the TCP header starts at 34.\<close>

definition tcp_source :: "'a tftp_state_scheme \<Rightarrow> u16" where "tcp_source s = ntohs (get16 (packet s) 34)"
definition tcp_dest :: "'a tftp_state_scheme \<Rightarrow> u16" where "tcp_dest s = ntohs (get16 (packet s) 36)"
definition tcp_seq :: "'a tftp_state_scheme \<Rightarrow> u32" where "tcp_seq s = get32 (packet s) 38"
definition tcp_flags :: "'a tftp_state_scheme \<Rightarrow> u8" where "tcp_flags s = packet s 47"
definition tcp_doff :: "'a tftp_state_scheme \<Rightarrow> nat" where
  "tcp_doff s = unat (drop_bit 4 (packet s 46)) * 4"
definition ip_src :: "'a tftp_state_scheme \<Rightarrow> u32" where "ip_src s = get32 (packet s) 26"
definition ip_dst :: "'a tftp_state_scheme \<Rightarrow> u32" where "ip_dst s = get32 (packet s) 30"

definition tcp_length :: "'a tftp_state_scheme \<Rightarrow> u32" where
  "tcp_length s =
     ucast (ntohs (get16 (packet s) 16)) - push_bit 2 (ucast (packet s 14 AND 0xF)) - of_nat (tcp_doff s)"

lemmas tcp_fields = tcp_source_def tcp_dest_def tcp_seq_def tcp_flags_def tcp_doff_def ip_src_def ip_dst_def
  tcp_length_def

section \<open>The pages\<close>

text \<open>The strings of the file with their terminating NUL, which \<open>sizeof\<close> counts.\<close>

definition indexdata :: "u8 list" where
  "indexdata =
    ascii ''HTTP/1.0 200 OK'' @ [13, 10] @ ascii ''Content-type: text/html'' @ [13, 10, 13, 10]
      @ ascii ''<html><head><title>System Repair</title><META content='' @ [39]
      @ ascii ''text/html; charset=iso-8859-1'' @ [39]
      @ ascii '' http-equiv=Content-Type><META http-equiv=Pragma content=no-cache ><META HTTP-EQUIV=''
      @ [39] @ ascii ''CACHE-CONTROL'' @ [39] @ ascii '' CONTENT='' @ [39] @ ascii ''NO-CACHE''
      @ [39]
      @ ascii ''></head><body><form enctype=multipart/form-data method=post><center><br><br><font size=5''
      @ ascii ''><b>Emergency Web Server</b></font><br><table><br><tr><td align=right>File</td><td><inpu''
      @ ascii ''t type=file name=userfile value=></td><td><input type=submit value='' @ [39]
      @ ascii ''upload'' @ [39] @ ascii ''></td></tr></table></center></form></body></html>'' @ [0]"

definition postCnt_1 :: "u8 list" where
  "postCnt_1 =
    ascii ''HTTP/1.0 200 OK'' @ [13, 10] @ ascii ''Content-type: text/html'' @ [13, 10, 13, 10]
      @ ascii ''<html><head><title>Upgrade Successfully</title>'' @ [10] @ ascii ''<META content=''
      @ [39] @ ascii ''text/html; charset=iso-8859-1'' @ [39] @ ascii '' http-equiv=Content-Type>''
      @ [10] @ ascii ''<META http-equiv=Pragma content=no-cache >'' @ [10]
      @ ascii ''<META HTTP-EQUIV='' @ [39] @ ascii ''CACHE-CONTROL'' @ [39] @ ascii '' CONTENT=''
      @ [39] @ ascii ''NO-CACHE'' @ [39] @ ascii ''>'' @ [10] @ ascii ''</head>'' @ [10]
      @ ascii ''<script language=JavaScript><!--'' @ [10] @ ascii ''var count = 60;'' @ [10]
      @ ascii ''function do_count_down(){'' @ [10] @ ascii ''document.getElementById('' @ [39]
      @ ascii ''show_sec'' @ [39] @ ascii '').innerHTML = count;'' @ [10]
      @ ascii ''if(count == 0) {location.href='' @ [39] @ ascii ''http://'' @ [0]"

definition postCnt_2 :: "u8 list" where
  "postCnt_2 =
    [39] @ ascii ''; return false;}'' @ [10] @ ascii ''if (count > 0) {count--;setTimeout('' @ [39]
      @ ascii ''do_count_down()'' @ [39] @ ascii '',1000);}}'' @ [10]
      @ ascii ''//--></script></head><body onload='' @ [39] @ ascii ''do_count_down();'' @ [39]
      @ ascii ''><br><br><center><font size=4><b>Updateing File</b></font><br><p><hr><table ><br><tr><td''
      @ ascii '' align=center><font color=red><b>Don'' @ [39]
      @ ascii ''t Power Down.</b></font></td></tr><tr><td><br><P align=center>Please wait for <font colo''
      @ ascii ''r=red><B><SPAN id=show_sec></SPAN></B></font>&nbsp;seconds ...</P></center></body></html''
      @ ascii ''>'' @ [0]"

definition postinvalidfile :: "u8 list" where
  "postinvalidfile =
    ascii ''Invalid image file.'' @ [0]"

definition postresponseheader :: "u8 list" where
  "postresponseheader =
    ascii ''HTTP/1.0 200 OK'' @ [13, 10] @ ascii ''Content-type: text/html'' @ [13, 10, 13, 10]
      @ ascii ''<html><head><title>Upload Complete</title></head><body>'' @ [0]"

definition postresponsefooter :: "u8 list" where
  "postresponsefooter =
    ascii ''seconds</body></html>'' @ [0]"


section \<open>Checksums\<close>

text \<open>An odd last byte is added as the high byte of a word, although the CPU is little endian.\<close>

fun chksum :: "buffer \<Rightarrow> nat \<Rightarrow> nat \<Rightarrow> u32 \<Rightarrow> u32" where
  "chksum p i 0 acc = acc"
| "chksum p i (Suc 0) acc = acc + push_bit 8 (ucast (p i))"
| "chksum p i (Suc (Suc n)) acc = chksum p (i + 2) n (acc + ucast (get16 p i))"

lemma fold_decreases:
  fixes acc :: u32
  assumes "drop_bit 16 acc \<noteq> 0"
  shows "unat ((acc AND 0xffff) + drop_bit 16 acc) = unat acc mod 65536 + unat acc div 65536"
    "unat ((acc AND 0xffff) + drop_bit 16 acc) < unat acc"
proof -
  have lo: "unat (acc AND 0xffff) = unat acc mod 65536"
    unfolding mask_literal_ffff take_bit_eq_mask [symmetric] unsigned_take_bit_eq
    by (simp add: take_bit_nat_def)
  have hi: "unat (drop_bit 16 acc) = unat acc div 65536"
    by (simp only: unat_drop_bit_eq) (simp add: drop_bit_eq_div)
  have "unat acc < 2 ^ LENGTH(32)" by (rule unsigned_less)
  then have b: "unat acc < 4294967296" by simp
  then show eq: "unat ((acc AND 0xffff) + drop_bit 16 acc) = unat acc mod 65536 + unat acc div 65536"
    by (simp add: unat_word_ariths lo hi)
  have "unat acc div 65536 \<noteq> 0" using assms hi by (metis unat_eq_zero)
  then have "65536 \<le> unat acc" by (simp add: div_eq_0_iff)
  moreover have "unat acc = 65536 * (unat acc div 65536) + unat acc mod 65536" by simp
  ultimately show "unat ((acc AND 0xffff) + drop_bit 16 acc) < unat acc"
    unfolding eq using \<open>unat acc div 65536 \<noteq> 0\<close> by linarith
qed

function fold16 :: "u32 \<Rightarrow> u32" where
  "fold16 acc = (if drop_bit 16 acc \<noteq> 0 then fold16 ((acc AND 0xffff) + drop_bit 16 acc) else acc)"
  by pat_completeness auto
termination
  by (relation "measure unat") (auto simp only: wf_measure in_measure intro: fold_decreases(2))

declare fold16.simps [simp del]

definition inet_chksum_pseudo :: "buffer \<Rightarrow> nat \<Rightarrow> u32 \<Rightarrow> u32 \<Rightarrow> u8 \<Rightarrow> nat \<Rightarrow> u16" where
  "inet_chksum_pseudo p i src dest proto len =
     (let acc = chksum p i len 0 + (src AND 0xffff) + (drop_bit 16 src AND 0xffff)
            + (dest AND 0xffff) + (drop_bit 16 dest AND 0xffff)
            + ucast (htons (ucast proto)) + ucast (htons (of_nat len))
      in ucast (NOT (fold16 acc AND 0xffff)))"

section \<open>Sending\<close>

text \<open>
  The segment is assembled in \<open>packet_buff\<close>, zeroed before: the TCP header with its options
  and data, then the IP header with the checksums.
\<close>

definition tcp_bytes :: "UTCPINFO_T \<Rightarrow> u8 \<Rightarrow> u8 \<Rightarrow> u16 \<Rightarrow> u8 list" where
  "tcp_bytes u f0 f1 check =
     bytes16 (htons (tcpi_dport u)) @ bytes16 (htons (tcpi_sport u)) @ bytes32 (tcpi_seq u)
       @ bytes32 (tcpi_ack u) @ [f0, f1] @ bytes16 (htons 2048) @ bytes16 check @ [0, 0]"

definition tcp_ip_bytes :: "UTCPINFO_T \<Rightarrow> u16 \<Rightarrow> u16 \<Rightarrow> u16 \<Rightarrow> u8 list" where
  "tcp_ip_bytes u ident len ck =
     [0x45, 0] @ bytes16 (htons len) @ bytes16 (htons ident) @ bytes16 (htons 0x4000) @ [0x80, IP_TCP]
       @ bytes16 ck @ bytes32 (tcpi_dst u) @ bytes32 (tcpi_src u)"

definition tcp_segment :: "UTCPINFO_T \<Rightarrow> u8 \<Rightarrow> u8 \<Rightarrow> u8 list \<Rightarrow> u8 list" where
  "tcp_segment u f0 f1 data =
     (let check = inet_chksum_pseudo (buf_of (tcp_bytes u f0 f1 0 @ data)) 0 (tcpi_dst u) (tcpi_src u) IP_TCP
                    (20 + length data)
      in tcp_bytes u f0 f1 check @ data)"

definition ipoutput :: "UTCPINFO_T \<Rightarrow> u8 list \<Rightarrow> 'a http_state_scheme \<Rightarrow> 'a http_state_scheme" where
  "ipoutput u segment s =
     (let len = of_nat (length segment) + 20;
          ck = ipheader_chksum (buf_of (tcp_ip_bytes u (ip_seq s) len 0)) SIZEOF_IPHDR
      in send FRAME_IP (tcpi_node u) (tcp_ip_bytes u (ip_seq s) len ck @ segment) (s\<lparr>ip_seq := ip_seq s + 1\<rparr>))"

text \<open>\<open>n\<close> is the length \<open>tcpoutput\<close> is called with: options do not count.\<close>

definition tcpoutput :: "u8 \<Rightarrow> u8 \<Rightarrow> u8 list \<Rightarrow> u32 \<Rightarrow> 'a http_state_scheme \<Rightarrow> 'a http_state_scheme" where
  "tcpoutput f0 f1 data n s =
     (let u = utcp_info s in ipoutput u (tcp_segment u f0 f1 data) (inc_seq n s))"

text \<open>Data that do not fit behind the two headers only draw a warning before they are copied over
  the end of the 1024 bytes of \<open>packet_buff\<close>: the value is then None.\<close>

definition tcpwrite :: "u8 list \<Rightarrow> 'a http_state_scheme \<Rightarrow> 'a http_state_scheme option" where
  "tcpwrite data s =
     (if length data + 40 > 1024 then None
      else Some (tcpoutput 0x50 ACK_MASK data (of_nat (length data)) s))"

definition tcpSendSynAck :: "'a http_state_scheme \<Rightarrow> 'a http_state_scheme" where
  "tcpSendSynAck = tcpoutput 0x70 (SYN_MASK OR ACK_MASK) [0x02, 0x04, 0x05, 0xb4, 0x01, 0x01, 0x04, 0x02] 0"

definition tcpSendFinAck :: "'a http_state_scheme \<Rightarrow> 'a http_state_scheme" where
  "tcpSendFinAck = tcpoutput 0x50 (ACK_MASK OR FIN_MASK) [] 0"

definition tcpSendFin :: "'a http_state_scheme \<Rightarrow> 'a http_state_scheme" where
  "tcpSendFin = tcpoutput 0x50 FIN_MASK [] 0"

definition tcpAck :: "'a http_state_scheme \<Rightarrow> 'a http_state_scheme" where
  "tcpAck = tcpoutput 0x50 ACK_MASK [] 0"

definition tcpReset :: "'a http_state_scheme \<Rightarrow> 'a http_state_scheme" where
  "tcpReset = tcpoutput 0x50 RST_MASK [] 0"

definition tcpConnected :: "'a http_state_scheme \<Rightarrow> 'a http_state_scheme" where
  "tcpConnected = inc_seq 1"

section \<open>Sessions\<close>

definition tcpSaveSession :: "'a http_state_scheme \<Rightarrow> 'a http_state_scheme" where
  "tcpSaveSession s =
     set_tcp (\<lambda>u. u\<lparr>tcpi_node := get_bytes (packet s) 6 6, tcpi_src := ip_src s, tcpi_dst := ip_dst s,
       tcpi_dport := tcp_dest s, tcpi_sport := tcp_source s, sessionsaved := True,
       tcpi_ack := incseq (tcp_seq s) 1\<rparr>) s"

definition isthisSession :: "'a http_state_scheme \<Rightarrow> bool \<times> 'a http_state_scheme" where
  "isthisSession s =
     (let u = utcp_info s
      in if \<not> sessionsaved u then (True, s)
         else if tcpi_dport u = tcp_dest s \<and> tcpi_sport u = tcp_source s \<and> tcpi_src u = ip_src s
           \<and> tcpi_dst u = ip_dst s
         then (True, inc_ack (tcp_length s) s)
         else (False, s))"

definition no_session :: UTCPINFO_T where
  "no_session = \<lparr>sessionsaved = False, tcpi_state = TCP_CLOSE, tcpi_node = replicate 6 0, tcpi_sport = 0,
     tcpi_dport = 0, tcpi_ack = 0, tcpi_acked = 0, tcpi_seq = 0, tcpi_dst = 0, tcpi_src = 0,
     uploadstarted = False\<rparr>"

definition tcpClearSession :: "'a http_state_scheme \<Rightarrow> 'a http_state_scheme" where
  "tcpClearSession s =
     s\<lparr>utcp_info := no_session, content_length := 0, content_offset := 0, upload_len := 0,
       httpd_mem_len := 0, foundboundary := 0\<rparr>"

section \<open>The upload\<close>

partial_function (option) find_crlf :: "buffer \<Rightarrow> nat \<Rightarrow> nat option" where
  "find_crlf p i = (if p i = 13 \<and> p (i + 1) = 10 then Some (i + 2) else find_crlf p (i + 1))"

partial_function (option) content_length_from :: "buffer \<Rightarrow> int \<Rightarrow> nat \<Rightarrow> u32 option" where
  "content_length_from p len i =
     (if int i < len then
        (case find_crlf p i of
           None \<Rightarrow> None
         | Some j \<Rightarrow>
             if get_bytes p j 12 = ascii ''Content-Leng'' then map_option fst (strtol p (j + 15) 10)
             else content_length_from p len (j + 1))
      else Some 0)"

definition findContentlength :: "buffer \<Rightarrow> int \<Rightarrow> u32 option" where
  "findContentlength p len = content_length_from p len 0"

definition blank_line :: "buffer \<Rightarrow> nat \<Rightarrow> bool" where
  "blank_line p i \<longleftrightarrow> p i = 13 \<and> p (i + 1) = 10 \<and> p (i + 2) = 13 \<and> p (i + 3) = 10"

text \<open>Without a blank line \<open>findContentoffset\<close> runs into its end and returns nothing.\<close>

function find_blank :: "buffer \<Rightarrow> int \<Rightarrow> nat \<Rightarrow> nat option" where
  "find_blank p len i =
     (if int i < len then (if blank_line p i then Some (i + 4) else find_blank p len (i + 1)) else None)"
  by pat_completeness auto
termination by (relation "measure (\<lambda>(p, len, i). nat (len - int i))") auto

declare find_blank.simps [simp del]

definition findContentoffset :: "buffer \<Rightarrow> int \<Rightarrow> u32 option" where
  "findContentoffset p len =
     (if 0 < len then
        (case find_crlf p 0 of None \<Rightarrow> None | Some j \<Rightarrow> map_option of_nat (find_blank p len j))
      else None)"

text \<open>
  The image starts after the second blank line. The value is the count of blank lines seen
  and the offset of the image if it is in this packet.
\<close>

function count_blank :: "buffer \<Rightarrow> int \<Rightarrow> nat \<Rightarrow> nat \<Rightarrow> nat \<times> nat option" where
  "count_blank p len i fb =
     (if int i < len then
        (if blank_line p i then
           (if Suc fb = 2 then (2, Some (i + 4)) else count_blank p len (i + 5) (Suc fb))
         else count_blank p len (i + 1) fb)
      else (fb, None))"
  by pat_completeness auto
termination by (relation "measure (\<lambda>(p, len, i, fb). nat (len - int i))") auto

declare count_blank.simps [simp del]

definition findimagehead :: "buffer \<Rightarrow> int \<Rightarrow> nat \<Rightarrow> (nat \<times> nat option) option" where
  "findimagehead p len fb =
     (if fb = 2 then Some (2, Some 0)
      else if 0 < len then
        (case find_crlf p 0 of None \<Rightarrow> None | Some j \<Rightarrow> Some (count_blank p len j fb))
      else Some (fb, None))"

text \<open>The digits of one byte: \<open>j\<close> is 100, 10 and 1, \<open>firstNumFlag\<close> suppresses leading zeros.\<close>

definition ip_digit :: "nat \<Rightarrow> nat \<Rightarrow> nat \<times> bool \<times> u8 list \<Rightarrow> nat \<times> bool \<times> u8 list" where
  "ip_digit b j st =
     (case st of (cutNum, firstNumFlag, out) \<Rightarrow>
       (let num = (b - cutNum) div j
        in if num = 0 \<and> \<not> (firstNumFlag \<or> j = 1) then st
           else if num \<le> 9 then (cutNum + num * j, firstNumFlag \<or> num \<noteq> 0, out @ [48 + of_nat num])
           else st))"

definition ip_octet :: "u8 \<Rightarrow> u8 list" where
  "ip_octet b = snd (snd (fold (ip_digit (unat b)) [100, 10, 1] (0, False, [])))"

definition utcp_GetIpStr :: "'a dhcp_state_scheme \<Rightarrow> u8 list" where
  "utcp_GetIpStr s =
     (let ip = (if eth0_ip_httpd s = 0 then [192, 168, 1, 254] else bytes32 (eth0_ip_httpd s))
      in ip_octet (ip ! 0) @ [46] @ ip_octet (ip ! 1) @ [46] @ ip_octet (ip ! 2) @ [46] @ ip_octet (ip ! 3))"

definition createResponseData :: "'a dhcp_state_scheme \<Rightarrow> u8 list" where
  "createResponseData s =
     (let ip = utcp_GetIpStr s in postCnt_1 @ take 16 (ip @ replicate 16 0) @ postCnt_2)"

definition writeImagetoflash :: "u32 \<Rightarrow> u32 \<Rightarrow> 'a http_state_scheme \<Rightarrow> 'a http_state_scheme option" where
  "writeImagetoflash img len s = (if autoBurn s then checkAutoFlashing s img len else Some s)"

text \<open>\<open>autoreboot\<close> after the image is written, unless that did not come back.\<close>

definition write_and_reboot :: "'a http_state_scheme \<Rightarrow> 'a http_state_scheme option" where
  "write_and_reboot s =
     map_option (\<lambda>s. if run s = Running then autoreboot s else s)
       (writeImagetoflash (httpd_mem s) (httpd_mem_len s) s)"

text \<open>The end of an upload: the file is checked, then burnt or refused.\<close>

definition upload_finished :: "'a http_state_scheme \<Rightarrow> 'a http_state_scheme option" where
  "upload_finished s =
     (case imageFileValid (mem s) (httpd_mem s) (httpd_mem_len s) of
        None \<Rightarrow> None
      | Some retVal \<Rightarrow>
          if retVal > 0 then
            Option.bind (tcpwrite (createResponseData s) (tcpAck s))
              (\<lambda>s. write_and_reboot (tcpSendFinAck s\<lparr>readyToUpgrade := True\<rparr>))
          else
            map_option tcpSendFinAck (tcpwrite
              (postresponseheader @ (if retVal = 0 then postinvalidfile else message s) @ postresponsefooter) s))"

text \<open>The count of the packet's bytes is added up and the image part is stored.\<close>

definition httpuploadfile :: "buffer \<Rightarrow> u32 \<Rightarrow> 'a http_state_scheme \<Rightarrow> (bool \<times> 'a http_state_scheme) option" where
  "httpuploadfile p plen s =
     (let len = sint plen
      in case (if content_length s = 0 then findContentlength p len else Some (content_length s)) of
           None \<Rightarrow> None
         | Some cl \<Rightarrow>
      (case (if content_offset s = 0 then findContentoffset p len else Some (content_offset s)) of
           None \<Rightarrow> None
         | Some co \<Rightarrow>
      (case findimagehead p len (foundboundary s) of
           None \<Rightarrow> None
         | Some (fb, headlen) \<Rightarrow>
             (let s = s\<lparr>content_length := cl, content_offset := co, foundboundary := fb\<rparr>;
                  s = (case headlen of
                         None \<Rightarrow> s
                       | Some h \<Rightarrow>
                           (let n = plen - of_nat h
                            in s\<lparr>mem := write_bytes (httpd_mem s + httpd_mem_len s) (get_bytes p h (unat n)) (mem s),
                                 httpd_mem_len := httpd_mem_len s + n\<rparr>));
                  s = s\<lparr>upload_len := upload_len s + plen\<rparr>
              in if sint (upload_len s) \<ge> sint (cl + co)
                 then map_option (\<lambda>s. (True, if run s = Running then set_tcpi_state TCP_FIN_WAIT1 s else s))
                        (upload_finished s)
                 else Some (False, s)))))"

section \<open>Input\<close>

text \<open>The value tells whether the data need no further ACK.\<close>

definition tcpInputData :: "'a http_state_scheme \<Rightarrow> (bool \<times> 'a http_state_scheme) option" where
  "tcpInputData s =
     (let payload = (\<lambda>k. packet s (34 + tcp_doff s + k)); len = tcp_length s
      in if get_bytes payload 0 3 = ascii ''GET'' then
           map_option (\<lambda>s. (True, tcpSendFinAck (set_tcpi_state TCP_FIN_WAIT1 s))) (tcpwrite indexdata s)
         else if get_bytes payload 0 4 = ascii ''POST'' then
           map_option (apsnd (set_tcp (\<lambda>u. u\<lparr>uploadstarted := True\<rparr>))) (httpuploadfile payload len s)
         else if len = 0 then Some (True, s)
         else if uploadstarted (utcp_info s) then httpuploadfile payload len s
         else None)"

definition tcp_syn :: "'a http_state_scheme \<Rightarrow> 'a http_state_scheme" where
  "tcp_syn s =
     (if tcpi_state (utcp_info s) = TCP_CLOSE
      then tcpSendSynAck (tcpSaveSession (set_tcpi_state TCP_SYN_RECV s))
      else tcpReset s)"

definition tcp_fin_state :: "'a http_state_scheme \<Rightarrow> 'a http_state_scheme" where
  "tcp_fin_state s =
     (let st = tcpi_state (utcp_info s);
          acked = tcpAck (inc_seq 1 (inc_ack 1 s))
      in if st = TCP_FIN_WAIT2 then tcpClearSession (set_tcpi_state TCP_CLOSE acked)
         else if st = TCP_FIN_WAIT1 then
           (if tcp_flags s AND ACK_MASK \<noteq> 0 then tcpClearSession (set_tcpi_state TCP_CLOSE acked)
            else set_tcpi_state TCP_CLOSING acked)
         else if st = TCP_ESTABLISHED
         then tcpSendFin (inc_seq 1 (inc_ack 1 (set_tcpi_state TCP_CLOSE_WAIT s)))
         else s)"

definition tcp_fin :: "'a http_state_scheme \<Rightarrow> 'a http_state_scheme option" where
  "tcp_fin s =
     map_option (\<lambda>s. if run s = Running then tcp_fin_state s else s)
       (if readyToUpgrade s then write_and_reboot s else Some s)"

definition tcp_acked :: "'a http_state_scheme \<Rightarrow> 'a http_state_scheme option" where
  "tcp_acked s =
     (let st = tcpi_state (utcp_info s)
      in if st = TCP_SYN_RECV then Some (tcpConnected (set_tcpi_state TCP_ESTABLISHED s))
         else if st = TCP_ESTABLISHED then
           map_option (\<lambda>(r, s). if \<not> r \<and> run s = Running then tcpAck s else s) (tcpInputData s)
         else if st = TCP_CLOSE_WAIT \<or> st = TCP_CLOSE \<or> st = TCP_CLOSING then Some (tcpClearSession s)
         else if st = TCP_FIN_WAIT1 then Some (set_tcpi_state TCP_FIN_WAIT2 s)
         else Some (tcpReset (set_tcpi_state TCP_CLOSE s)))"

definition tcpinput :: "'a http_state_scheme \<Rightarrow> 'a http_state_scheme option" where
  "tcpinput s =
     (if tcp_dest s \<noteq> 80 then Some s
      else
        (let (this, s) = isthisSession s; fl = tcp_flags s
         in if \<not> this then Some s
            else if fl AND SYN_MASK \<noteq> 0 then Some (tcp_syn s)
            else if fl AND FIN_MASK \<noteq> 0 then tcp_fin s
            else if fl AND ACK_MASK \<noteq> 0 then tcp_acked s
            else Some (if tcpi_state (utcp_info s) \<noteq> TCP_CLOSE then tcpReset s else s)))"

definition httpd_entry :: "'a http_state_scheme \<Rightarrow> 'a http_state_scheme" where
  "httpd_entry s =
     (let s = s\<lparr>utcp_info := no_session\<rparr>; server = arptable_tftp s TFTP_SERVER
      in if eth0_ip_httpd s \<noteq> 0
         then set_arp HTTPD_ARPENTRY
                (\<lambda>e. \<lparr>ipaddr = eth0_ip_httpd s,
                      node = (if take 4 (eth0_mac_httpd s) \<noteq> replicate 4 0 then take 6 (eth0_mac_httpd s)
                              else node server)\<rparr>) s
         else set_arp HTTPD_ARPENTRY (\<lambda>e. server) s)"

section \<open>Checksums verify\<close>

text \<open>
  The sum a receiver takes (RFC 1071): the bytes as 16-bit words, an odd last byte padded
  with a zero byte, behind the pseudo header. Words are read little endian, which the RFC allows.
\<close>

fun ocsum :: "u8 list \<Rightarrow> nat" where
  "ocsum [] = 0"
| "ocsum [a] = unat a"
| "ocsum (a # b # xs) = unat a + 256 * unat b + ocsum xs"

definition pseudo_header :: "u32 \<Rightarrow> u32 \<Rightarrow> u8 \<Rightarrow> nat \<Rightarrow> u8 list" where
  "pseudo_header src dst proto len = bytes32 src @ bytes32 dst @ [0, proto] @ bytes16 (htons (of_nat len))"

definition sum_verifies :: "u8 list \<Rightarrow> bool" where
  "sum_verifies xs \<longleftrightarrow> 0 < ocsum xs \<and> 65535 dvd ocsum xs"

lemma ocsum_append: "even (length xs) \<Longrightarrow> ocsum (xs @ ys) = ocsum xs + ocsum ys"
  by (induction xs rule: ocsum.induct) auto

lemma ocsum_bytes16 [simp]: "ocsum (bytes16 w) = unat w"
proof -
  have "unat w = unat (le16 (ucast w) (ucast (drop_bit 8 w)))" by simp
  also have "\<dots> = ocsum (bytes16 w)" unfolding unat_le16 by (simp add: bytes16_def)
  finally show ?thesis by simp
qed

lemma bytes32_halves: "bytes32 v = bytes16 (ucast v) @ bytes16 (ucast (drop_bit 16 v))"
  by (simp add: bytes32_def bytes16_def; intro conjI; rule bit_word_eqI; simp add: bit_simps)

lemma ocsum_bytes32: "ocsum (bytes32 v) = unat (v AND 0xffff) + unat (drop_bit 16 v AND 0xffff)"
proof -
  have low: "unat (ucast w :: u16) = unat (w AND 0xffff)" for w :: u32
    unfolding mask_literal_ffff take_bit_eq_mask [symmetric] unsigned_ucast_eq unsigned_take_bit_eq by simp
  show ?thesis by (simp add: bytes32_halves ocsum_append low)
qed

lemma ocsum_bound: "2 * ocsum xs \<le> 65535 * (length xs + 1)"
proof (induction xs rule: ocsum.induct)
  case (2 a)
  then show ?case using unat_u8_bound [of a] by simp
next
  case (3 a b xs)
  then show ?case using unat_u8_bound [of a] unat_u8_bound [of b] by simp
qed simp

text \<open>What \<open>chksum\<close> adds up, as long as an odd last byte is zero.\<close>

lemma get16_buf: "get16 (buf_of (xs @ a # b # ys)) (length xs) = le16 a b"
  by (simp add: get16_def buf_of_def nth_default_append)

lemma chksum_ocsum:
  "even (length ys) \<or> last ys = 0 \<Longrightarrow> unat acc + ocsum ys < 2 ^ 32 \<Longrightarrow>
    unat (chksum (buf_of (xs @ ys)) (length xs) (length ys) acc) = unat acc + ocsum ys"
proof (induction ys arbitrary: xs acc rule: ocsum.induct)
  case (2 a)
  then have "buf_of (xs @ [a]) (length xs) = 0" by (simp add: buf_of_def nth_default_append nth_default_beyond)
  then show ?case using 2 by simp
next
  case (3 a b ys)
  have word: "unat (ucast (le16 a b) :: u32) = unat a + 256 * unat b"
    by (simp add: unat_le16)
  then have acc: "unat (acc + ucast (le16 a b)) = unat acc + (unat a + 256 * unat b)"
    using "3.prems"(2) by (subst unat_word_ariths) simp
  have last: "even (length ys) \<or> last ys = 0" using "3.prems"(1) by (auto split: if_splits)
  have "unat (chksum (buf_of ((xs @ [a, b]) @ ys)) (length (xs @ [a, b])) (length ys)
        (acc + ucast (le16 a b))) = unat (acc + ucast (le16 a b)) + ocsum ys"
    by (rule "3.IH" [OF last]) (use "3.prems"(2) acc in simp)
  then show ?case by (simp add: get16_buf acc)
qed simp

lemma fold16_sum:
  "unat (fold16 acc) \<le> 65535 \<and> unat (fold16 acc) mod 65535 = unat acc mod 65535
    \<and> (unat (fold16 acc) = 0 \<longleftrightarrow> unat acc = 0)"
proof (induction acc rule: fold16.induct)
  case (1 acc)
  have parts: "unat acc = 65535 * (unat acc div 65536) + (unat acc mod 65536 + unat acc div 65536)"
    using mult_div_mod_eq [of 65536 "unat acc"] by linarith
  show ?case
  proof (cases "drop_bit 16 acc = 0")
    case True
    have "unat (drop_bit 16 acc) = unat acc div 65536"
      by (simp only: unat_drop_bit_eq) (simp add: drop_bit_eq_div)
    then have "unat acc < 65536" using True by (simp add: div_eq_0_iff)
    then show ?thesis using True by (simp add: fold16.simps [of acc])
  next
    case False
    note step = fold_decreases(1) [OF False]
    have "(unat acc mod 65536 + unat acc div 65536) mod 65535 = unat acc mod 65535"
      using arg_cong [OF parts, of "\<lambda>n. n mod 65535"] by (simp only: mod_mult_self4)
    moreover have "unat acc mod 65536 + unat acc div 65536 = 0 \<longleftrightarrow> unat acc = 0"
      using parts by auto
    ultimately show ?thesis
      using "1.IH" [OF False] False by (simp only: fold16.simps [of acc] step) simp
  qed
qed

lemma unat_not_fold:
  "unat (ucast (NOT (fold16 acc AND 0xffff)) :: u16) = 65535 - unat (fold16 acc)"
proof -
  have "(ucast (NOT (r AND 0xffff)) :: u16) = ucast (NOT r AND 0x0000FFFF)" for r :: u32
    by (rule bit_word_eqI) (auto simp: bit_simps mask_literal_ffff)
  then show ?thesis using fold16_sum [of acc] by (simp only: unat_not_and_ffff)
qed

lemma unat_half: "unat (v AND 0xffff :: u32) \<le> 65535"
  unfolding mask_literal_ffff take_bit_eq_mask [symmetric] unsigned_take_bit_eq
  using take_bit_nat_less_exp [of 16 "unat v"] by simp

lemma inet_chksum_value:
  fixes src dst :: u32 and proto :: u8
  assumes "even (length seg) \<or> last seg = 0" "length seg < 65536"
  defines "tot \<equiv> ocsum (pseudo_header src dst proto (length seg) @ seg)"
  defines "ck \<equiv> inet_chksum_pseudo (buf_of seg) 0 src dst proto (length seg)"
  shows "\<exists>f. unat ck = 65535 - f \<and> f \<le> 65535 \<and> f mod 65535 = tot mod 65535 \<and> (f = 0 \<longleftrightarrow> tot = 0)"
proof -
  let ?c = "chksum (buf_of seg) 0 (length seg) 0"
  have seg: "ocsum seg \<le> 2147450880" using ocsum_bound [of seg] mult_le_mono2 [of "length seg + 1" 65536 65535] assms(2) by simp
  have c: "unat ?c = ocsum seg"
    using chksum_ocsum [of seg 0 "[]"] assms(1) seg by simp
  let ?acc = "?c + (src AND 0xffff) + (drop_bit 16 src AND 0xffff) + (dst AND 0xffff)
      + (drop_bit 16 dst AND 0xffff) + ucast (htons (ucast proto)) + ucast (htons (of_nat (length seg)))"
  have proto: "unat (htons (ucast proto) :: u16) = 256 * unat proto"
  proof -
    have "htons (ucast proto :: u16) = le16 0 proto"
      by (simp add: swab16_alt) (intro conjI; rule bit_word_eqI; auto simp: bit_simps bit_ge)
    then show ?thesis by (simp add: unat_le16)
  qed
  have tot: "tot = ocsum seg + (unat (src AND 0xffff) + unat (drop_bit 16 src AND 0xffff))
      + (unat (dst AND 0xffff) + unat (drop_bit 16 dst AND 0xffff)) + 256 * unat proto
      + unat (htons (of_nat (length seg)) :: u16)"
    by (simp add: tot_def pseudo_header_def ocsum_append ocsum_bytes32)
  have "unat ?acc = tot"
    unfolding tot
    using seg c unat_half [of src] unat_half [of "drop_bit 16 src"] unat_half [of dst]
      unat_half [of "drop_bit 16 dst"] unat_u8_bound [of proto]
      unat_u16_bound [of "htons (of_nat (length seg))"]
    by (simp add: unat_word_ariths proto)
  moreover have "unat ck = 65535 - unat (fold16 ?acc)"
    unfolding ck_def inet_chksum_pseudo_def Let_def by (rule unat_not_fold)
  ultimately show ?thesis
    using fold16_sum [of ?acc] by (intro exI [of _ "unat (fold16 ?acc)"]) simp
qed

lemma length_tcp_bytes [simp]: "length (tcp_bytes u f0 f1 ck) = 20" "length (tcp_ip_bytes u i l c) = 20"
  by (simp_all add: tcp_bytes_def tcp_ip_bytes_def)

lemma ocsum_tcp_bytes: "ocsum (tcp_bytes u f0 f1 ck @ data) = ocsum (tcp_bytes u f0 f1 0 @ data) + unat ck"
  by (simp add: tcp_bytes_def ocsum_append)

lemma tcp_segment_verifies:
  assumes "even (length data) \<or> last data = 0" "length data \<le> 65000"
  shows "sum_verifies (pseudo_header (tcpi_dst u) (tcpi_src u) IP_TCP (20 + length data)
    @ tcp_segment u f0 f1 data)"
proof -
  let ?seg = "tcp_bytes u f0 f1 0 @ data"
  let ?ph = "pseudo_header (tcpi_dst u) (tcpi_src u) IP_TCP (20 + length data)"
  let ?ck = "inet_chksum_pseudo (buf_of ?seg) 0 (tcpi_dst u) (tcpi_src u) IP_TCP (20 + length data)"
  have last: "last ?seg = last data" if "odd (length data)" using that by (cases data) auto
  have seg: "even (length ?seg) \<or> last ?seg = 0" "length ?seg = 20 + length data" "length ?seg < 65536"
    using assms last by (auto simp: tcp_bytes_def)
  have "\<exists>f. unat ?ck = 65535 - f \<and> f \<le> 65535 \<and> f mod 65535 = ocsum (?ph @ ?seg) mod 65535
    \<and> (f = 0 \<longleftrightarrow> ocsum (?ph @ ?seg) = 0)"
    using inet_chksum_value [OF seg(1,3), of "tcpi_dst u" "tcpi_src u" IP_TCP] unfolding seg(2) .
  then obtain f where "unat ?ck = 65535 - f \<and> f \<le> 65535 \<and> f mod 65535 = ocsum (?ph @ ?seg) mod 65535
    \<and> (f = 0 \<longleftrightarrow> ocsum (?ph @ ?seg) = 0)" by (rule exE)
  note f = conjunct1 [OF this] conjunct2 [OF this]
  note f = f(1) conjunct1 [OF f(2)] conjunct1 [OF conjunct2 [OF f(2)]] conjunct2 [OF conjunct2 [OF f(2)]]
  have even: "even (length ?ph)" by (simp add: pseudo_header_def)
  have sum: "ocsum (?ph @ tcp_segment u f0 f1 data) = ocsum (?ph @ ?seg) + (65535 - f)"
    by (simp only: tcp_segment_def Let_def ocsum_append [OF even] ocsum_tcp_bytes [of u f0 f1 ?ck] f(1) add.assoc)
  have "(ocsum (?ph @ ?seg) + (65535 - f)) mod 65535 = (f + (65535 - f)) mod 65535"
    by (rule mod_add_cong) (simp_all add: f(3))
  then have "65535 dvd ocsum (?ph @ ?seg) + (65535 - f)" using f(2) by (simp add: dvd_eq_mod_eq_0)
  moreover have "0 < ocsum (?ph @ ?seg) + (65535 - f)" using f(2,4) by auto
  ultimately show ?thesis unfolding sum_verifies_def sum by simp
qed

lemma tcp_ip_put16:
  assumes "j < 20"
  shows "buf_of (tcp_ip_bytes u ident len ck) j = put16 (buf_of (tcp_ip_bytes u ident len 0)) 10 ck j"
proof -
  define A where "A = [0x45, 0] @ bytes16 (htons len) @ bytes16 (htons ident) @ bytes16 (htons 0x4000) @ [0x80, IP_TCP]"
  define D where "D = bytes32 (tcpi_dst u) @ bytes32 (tcpi_src u)"
  have A: "length A = 10" by (simp add: A_def)
  have split: "tcp_ip_bytes u ident len c = A @ bytes16 c @ D" for c
    by (simp add: tcp_ip_bytes_def A_def D_def)
  consider "j < 10" | "j = 10" | "j = 11" | "12 \<le> j" by linarith
  then show ?thesis
    by cases (simp_all add: split buf_of_append1 buf_of_append2 put16_def A,
      simp_all add: buf_of_def bytes16_def)
qed

lemma tcp_ip_verifies:
  "ipheader_chksum (buf_of (tcp_ip_bytes u ident len
      (ipheader_chksum (buf_of (tcp_ip_bytes u ident len 0)) SIZEOF_IPHDR) @ rest)) SIZEOF_IPHDR = 0"
proof -
  let ?p = "buf_of (tcp_ip_bytes u ident len 0)"
  let ?ck = "ipheader_chksum ?p SIZEOF_IPHDR"
  have "ipheader_chksum (buf_of (tcp_ip_bytes u ident len ?ck @ rest)) SIZEOF_IPHDR
      = ipheader_chksum (put16 ?p (2 * 5) ?ck) SIZEOF_IPHDR"
    by (rule ipheader_chksum_cong) (simp add: buf_of_append1 tcp_ip_put16 SIZEOF_IPHDR_def)
  also have "\<dots> = 0"
    by (rule chksum_fill)
       (simp_all add: SIZEOF_IPHDR_def get16_def buf_of_def tcp_ip_bytes_def bytes16_def le16_def)
  finally show ?thesis .
qed

text \<open>The frame \<open>tcpoutput\<close> sends and what it leaves in the state.\<close>

definition tcp_frame :: "'a http_state_scheme \<Rightarrow> u8 \<Rightarrow> u8 \<Rightarrow> u8 list \<Rightarrow> u8 list" where
  "tcp_frame s f0 f1 data =
     (let u = utcp_info s; seg = tcp_segment u f0 f1 data; len = of_nat (length seg) + 20;
          ck = ipheader_chksum (buf_of (tcp_ip_bytes u (ip_seq s) len 0)) SIZEOF_IPHDR
      in prepare_txpkt (eth0_mac s) FRAME_IP (tcpi_node u) (tcp_ip_bytes u (ip_seq s) len ck @ seg))"

lemma tcpoutput_alt:
  "tcpoutput f0 f1 data n s =
     (inc_seq n s)\<lparr>ip_seq := ip_seq s + 1, txlog := txlog s @ [tcp_frame s f0 f1 data]\<rparr>"
  by (simp add: tcpoutput_def ipoutput_def send_def inc_seq_def set_tcp_def tcp_frame_def Let_def)

lemma tcp_frame_parts:
  assumes "length (eth0_mac s) = 6" "length (tcpi_node (utcp_info s)) = 6"
  shows "drop 34 (tcp_frame s f0 f1 data) = tcp_segment (utcp_info s) f0 f1 data"
    "\<exists>ident len. drop 14 (tcp_frame s f0 f1 data) = tcp_ip_bytes (utcp_info s) ident len
      (ipheader_chksum (buf_of (tcp_ip_bytes (utcp_info s) ident len 0)) SIZEOF_IPHDR)
        @ tcp_segment (utcp_info s) f0 f1 data"
proof -
  have "drop 14 (tcp_frame s f0 f1 data) =
      (let u = utcp_info s; seg = tcp_segment u f0 f1 data; len = of_nat (length seg) + 20;
          ck = ipheader_chksum (buf_of (tcp_ip_bytes u (ip_seq s) len 0)) SIZEOF_IPHDR
       in tcp_ip_bytes u (ip_seq s) len ck @ seg)"
    unfolding tcp_frame_def Let_def by (rule prepare_txpkt_payload(1) [OF assms(2,1)])
  then show "\<exists>ident len. drop 14 (tcp_frame s f0 f1 data) = tcp_ip_bytes (utcp_info s) ident len
      (ipheader_chksum (buf_of (tcp_ip_bytes (utcp_info s) ident len 0)) SIZEOF_IPHDR)
        @ tcp_segment (utcp_info s) f0 f1 data"
    unfolding Let_def by blast
  then obtain ident len where "drop 14 (tcp_frame s f0 f1 data) = tcp_ip_bytes (utcp_info s) ident len
      (ipheader_chksum (buf_of (tcp_ip_bytes (utcp_info s) ident len 0)) SIZEOF_IPHDR)
        @ tcp_segment (utcp_info s) f0 f1 data" by blast
  then have "drop 20 (drop 14 (tcp_frame s f0 f1 data)) = tcp_segment (utcp_info s) f0 f1 data" by simp
  then show "drop 34 (tcp_frame s f0 f1 data) = tcp_segment (utcp_info s) f0 f1 data" by simp
qed

text \<open>C17: Every segment the web server sends carries a TCP checksum that verifies over the pseudo
  header and an IP header checksum that verifies. An odd number of data bytes must end in a zero
  byte, as every page does; otherwise the odd byte is added in the wrong half of its word.\<close>

theorem tcp_frames_verify:
  assumes "even (length data) \<or> last data = 0" "length data \<le> 65000"
    and "length (eth0_mac s) = 6" "length (tcpi_node (utcp_info s)) = 6"
  shows "\<exists>frame. txlog (tcpoutput f0 f1 data n s) = txlog s @ [frame]
    \<and> sum_verifies (pseudo_header (tcpi_dst (utcp_info s)) (tcpi_src (utcp_info s)) IP_TCP (20 + length data)
         @ drop 34 frame)
    \<and> ipheader_chksum (buf_of (drop 14 frame)) SIZEOF_IPHDR = 0"
proof -
  obtain ident len where ip: "drop 14 (tcp_frame s f0 f1 data) = tcp_ip_bytes (utcp_info s) ident len
      (ipheader_chksum (buf_of (tcp_ip_bytes (utcp_info s) ident len 0)) SIZEOF_IPHDR)
        @ tcp_segment (utcp_info s) f0 f1 data"
    using tcp_frame_parts(2) [OF assms(3,4)] by blast
  have "ipheader_chksum (buf_of (drop 14 (tcp_frame s f0 f1 data))) SIZEOF_IPHDR = 0"
    unfolding ip by (rule tcp_ip_verifies)
  then show ?thesis
    using tcp_segment_verifies [OF assms(1,2), of "utcp_info s" f0 f1]
    by (intro exI [of _ "tcp_frame s f0 f1 data"]) (simp add: tcpoutput_alt tcp_frame_parts(1) [OF assms(3,4)])
qed

definition sample_peer :: UTCPINFO_T where
  "sample_peer = no_session\<lparr>sessionsaved := True, tcpi_state := TCP_ESTABLISHED,
     tcpi_node := [2, 0, 0, 0, 0, 1], tcpi_sport := 1200, tcpi_dport := 80, tcpi_seq := 0x01000000,
     tcpi_dst := le32 192 168 1 6, tcpi_src := le32 192 168 1 20\<rparr>"

definition sample_http :: "UTCPINFO_T \<Rightarrow> buffer \<Rightarrow> http_state" where
  "sample_http u p = dhcp_state.extend (sample_dhcp p)
     \<lparr>utcp_info = u, content_offset = 0, content_length = 0, httpd_mem = 0xA0500000,
      httpd_mem_len = 0, upload_len = 0,
      foundboundary = 0, ip_seq = 0, readyToUpgrade = False, message = []\<rparr>"

lemma sample_http_simps [simp]:
  "utcp_info (sample_http u p) = u" "packet (sample_http u p) = p" "txlog (sample_http u p) = []"
  "eth0_mac (sample_http u p) = [0x56, 0xaa, 0xa5, 0x5a, 0x7d, 0xe8]"
  by (simp_all add: sample_http_def sample_dhcp_def dhcp_state.defs)

lemma pages_end: "last indexdata = 0" "last postresponsefooter = 0" "last postCnt_2 = 0"
  by (simp_all add: indexdata_def postresponsefooter_def postCnt_2_def)

lemma length_indexdata: "length indexdata = 548"
  by (simp add: indexdata_def ascii_def)

text \<open>Every page but the one with the text of a failed check has a fixed length that fits.\<close>

lemma pages_fit:
  "tcpwrite indexdata s = Some (tcpoutput 0x50 ACK_MASK indexdata 548 s)"
  "length ip \<le> 16 \<Longrightarrow> length (postCnt_1 @ take 16 (ip @ replicate 16 0) @ postCnt_2) = 887"
  by (simp_all add: tcpwrite_def length_indexdata postCnt_1_def postCnt_2_def ascii_def)

lemma tcp_frames_verify_witness:
  "\<exists>s' frame. tcpwrite indexdata (sample_http sample_peer (\<lambda>_. 0)) = Some s' \<and> txlog s' = [frame]
    \<and> ipheader_chksum (buf_of (drop 14 frame)) SIZEOF_IPHDR = 0"
  unfolding pages_fit(1)
  using tcp_frames_verify [of indexdata "sample_http sample_peer (\<lambda>_. 0)" "0x50" ACK_MASK 548]
  by (auto simp: length_indexdata sample_peer_def no_session_def)

section \<open>One peer at a time\<close>

definition from_peer :: "'a http_state_scheme \<Rightarrow> buffer \<Rightarrow> bool" where
  "from_peer s p \<longleftrightarrow>
     ntohs (get16 p 34) = tcpi_sport (utcp_info s) \<and> ntohs (get16 p 36) = tcpi_dport (utcp_info s)
     \<and> get32 p 26 = tcpi_src (utcp_info s) \<and> get32 p 30 = tcpi_dst (utcp_info s)"

text \<open>C18: While a session is saved, a segment that does not come from its peer (another address or
  port on either side) changes nothing and is not answered.\<close>

theorem tcp_foreign_segment_ignored:
  assumes "sessionsaved (utcp_info s)" "\<not> from_peer s (packet s)"
  shows "tcpinput s = Some s"
  using assms
  by (auto simp: tcpinput_def isthisSession_def from_peer_def tcp_fields Let_def)

lemma tcp_foreign_segment_ignored_witness:
  "let s = sample_http sample_peer (\<lambda>_. 0) in tcpinput s = Some s"
  unfolding Let_def
  by (rule tcp_foreign_segment_ignored) (simp_all add: from_peer_def sample_peer_def no_session_def swab16_def get16_def le16_def)

section \<open>Serving the page\<close>

text \<open>The fields of a frame the server sent: sequence, acknowledgement, flags and data.\<close>

definition frame_seq :: "u8 list \<Rightarrow> u32" where "frame_seq f = ntohl (get32 (buf_of f) 38)"
definition frame_ack :: "u8 list \<Rightarrow> u32" where "frame_ack f = ntohl (get32 (buf_of f) 42)"
definition frame_flags :: "u8 list \<Rightarrow> u8" where "frame_flags f = buf_of f 47"

lemma tcp_frame_fields:
  assumes "length (eth0_mac s) = 6" "length (tcpi_node (utcp_info s)) = 6"
  shows "frame_seq (tcp_frame s f0 f1 data) = ntohl (tcpi_seq (utcp_info s))"
    "frame_ack (tcp_frame s f0 f1 data) = ntohl (tcpi_ack (utcp_info s))"
    "frame_flags (tcp_frame s f0 f1 data) = f1"
    "drop 54 (tcp_frame s f0 f1 data) = data"
proof -
  define f where "f = tcp_frame s f0 f1 data"
  define pre where "pre = take 34 f"
  obtain ck where seg: "drop 34 f = tcp_bytes (utcp_info s) f0 f1 ck @ data"
    unfolding f_def tcp_frame_parts(1) [OF assms] tcp_segment_def Let_def by blast
  have pre: "length pre = 34"
  proof -
    have "20 \<le> length (drop 34 f)" by (simp add: seg)
    then show ?thesis by (simp add: pre_def)
  qed
  have f: "f = pre @ tcp_bytes (utcp_info s) f0 f1 ck @ data"
    unfolding pre_def using seg by (metis append_take_drop_id)
  have at: "buf_of f (34 + k) = tcp_bytes (utcp_info s) f0 f1 ck ! k" if "k < 20" for k
  proof -
    have "buf_of f (34 + k) = buf_of (tcp_bytes (utcp_info s) f0 f1 ck @ data) k"
      using pre by (simp add: f buf_of_append2)
    then show ?thesis using that by (simp add: buf_of_append1 buf_of_nth nth_append)
  qed
  have "get32 (buf_of f) 38 = tcpi_seq (utcp_info s)" "get32 (buf_of f) 42 = tcpi_ack (utcp_info s)"
    using at [of 4] at [of 5] at [of 6] at [of 7] at [of 8] at [of 9] at [of 10] at [of 11]
    by (simp_all add: get32_def tcp_bytes_def bytes16_def bytes32_def)
  moreover have "buf_of f 47 = f1"
    using at [of 13] by (simp add: tcp_bytes_def bytes16_def bytes32_def)
  moreover have "drop 54 f = drop 20 (drop 34 f)" by simp
  then have "drop 54 f = data" by (simp only: seg) simp
  ultimately show "frame_seq (tcp_frame s f0 f1 data) = ntohl (tcpi_seq (utcp_info s))"
    "frame_ack (tcp_frame s f0 f1 data) = ntohl (tcpi_ack (utcp_info s))"
    "frame_flags (tcp_frame s f0 f1 data) = f1"
    "drop 54 (tcp_frame s f0 f1 data) = data"
    by (simp_all add: frame_seq_def frame_ack_def frame_flags_def f_def)
qed

lemma ntohl_incseq [simp]: "ntohl (incseq x n) = ntohl x + n"
  by (simp add: incseq_def)

lemma tcp_state_simps [simp]:
  "utcp_info (set_tcp f s) = f (utcp_info s)" "eth0_mac (set_tcp f s) = eth0_mac s"
  "txlog (set_tcp f s) = txlog s" "packet (set_tcp f s) = packet s" "run (set_tcp f s) = run s"
  "ip_seq (set_tcp f s) = ip_seq s"
  by (simp_all add: set_tcp_def)

text \<open>A segment at port 80 with only the flags that matter.\<close>

definition segment_of :: "'a http_state_scheme \<Rightarrow> buffer \<Rightarrow> u8 \<Rightarrow> bool" where
  "segment_of s p fl \<longleftrightarrow> from_peer s p \<and> tcpi_dport (utcp_info s) = 80
     \<and> p 47 AND (SYN_MASK OR FIN_MASK OR ACK_MASK) = fl"

definition seg_length :: "buffer \<Rightarrow> u32" where
  "seg_length p =
     ucast (ntohs (get16 p 16)) - push_bit 2 (ucast (p 14 AND 0xF)) - of_nat (unat (drop_bit 4 (p 46)) * 4)"

lemma ack_flags:
  fixes x :: u8
  assumes "x AND (SYN_MASK OR FIN_MASK OR ACK_MASK) = ACK_MASK"
  shows "x AND SYN_MASK = 0" "x AND FIN_MASK = 0" "x AND ACK_MASK \<noteq> 0"
proof -
  have x: "x AND 19 = 16" using assms by (simp add: tcp_masks)
  have part: "x AND m = 16 AND m" if "19 AND m = m" for m
    using that x by (metis and.assoc)
  have "x AND 2 = 16 AND 2" "x AND 1 = 16 AND 1" "x AND 16 = 16 AND 16"
    by (rule part, simp)+
  then show "x AND SYN_MASK = 0" "x AND FIN_MASK = 0" "x AND ACK_MASK \<noteq> 0"
    by (simp_all add: tcp_masks)
qed

lemma tcpinput_ack:
  assumes "segment_of s (packet s) ACK_MASK" "sessionsaved (utcp_info s)"
  shows "tcpinput s = tcp_acked (inc_ack (seg_length (packet s)) s)"
proof -
  have mine: "isthisSession s = (True, inc_ack (seg_length (packet s)) s)"
    using assms by (auto simp: isthisSession_def segment_of_def from_peer_def tcp_fields seg_length_def)
  have "tcp_dest s = 80" using assms(1) by (simp add: segment_of_def from_peer_def tcp_fields)
  then show ?thesis
    using ack_flags [of "tcp_flags s"] assms(1)
    by (simp add: tcpinput_def mine Let_def segment_of_def tcp_fields inc_ack_def)
qed

definition receive :: "buffer \<Rightarrow> 'a http_state_scheme \<Rightarrow> 'a http_state_scheme option" where
  "receive p s = tcpinput (s\<lparr>packet := p\<rparr>)"

definition same_peer :: "buffer \<Rightarrow> buffer \<Rightarrow> bool" where
  "same_peer p q \<longleftrightarrow> get16 p 34 = get16 q 34 \<and> get16 p 36 = get16 q 36
     \<and> get32 p 26 = get32 q 26 \<and> get32 p 30 = get32 q 30"

text \<open>The session after a SYN, and how its state develops.\<close>

definition peer_of :: "buffer \<Rightarrow> UTCPINFO_T" where
  "peer_of p = no_session\<lparr>sessionsaved := True, tcpi_state := TCP_SYN_RECV, tcpi_node := get_bytes p 6 6,
     tcpi_src := get32 p 26, tcpi_dst := get32 p 30, tcpi_dport := ntohs (get16 p 36),
     tcpi_sport := ntohs (get16 p 34), tcpi_ack := incseq (get32 p 38) 1\<rparr>"

lemma receive_syn:
  assumes "utcp_info s = no_session" "ntohs (get16 p 36) = 80" "p 47 AND SYN_MASK \<noteq> 0"
    and "length (eth0_mac s) = 6"
  shows "\<exists>s1 f. receive p s = Some s1 \<and> utcp_info s1 = peer_of p \<and> eth0_mac s1 = eth0_mac s
    \<and> txlog s1 = txlog s @ [f] \<and> frame_seq f = 0 \<and> frame_ack f = ntohl (get32 p 38) + 1
    \<and> frame_flags f = SYN_MASK OR ACK_MASK"
proof -
  define s0 where "s0 = tcpSaveSession (set_tcpi_state TCP_SYN_RECV (s\<lparr>packet := p\<rparr>))"
  have info: "utcp_info s0 = peer_of p"
    using assms(1) by (simp add: s0_def tcpSaveSession_def set_tcpi_state_def peer_of_def no_session_def tcp_fields)
  have rec: "receive p s = Some (tcpSendSynAck s0)"
    using assms(1-3)
    by (simp add: receive_def tcpinput_def isthisSession_def no_session_def tcp_fields tcp_syn_def s0_def)
  have keep: "eth0_mac s0 = eth0_mac s" "txlog s0 = txlog s"
    by (simp_all add: s0_def tcpSaveSession_def set_tcpi_state_def)
  have peer: "length (tcpi_node (utcp_info s0)) = 6" "tcpi_seq (utcp_info s0) = 0"
      "tcpi_ack (utcp_info s0) = incseq (get32 p 38) 1" and z: "swab32 0 = 0" "incseq 0 0 = 0"
    by (simp_all add: info peer_of_def no_session_def incseq_def swab32_def)
  note fields = tcp_frame_fields [OF assms(4) [folded keep(1)] peer(1)]
  show ?thesis unfolding rec tcpSendSynAck_def
    by (rule exI, rule exI [of _ "tcp_frame s0 0x70 (SYN_MASK OR ACK_MASK) [0x02, 0x04, 0x05, 0xb4, 0x01, 0x01, 0x04, 0x02]"],
        rule conjI [OF refl])
       (simp add: tcpoutput_alt inc_seq_def keep fields peer z, simp add: info peer_of_def no_session_def z)
qed

lemma receive_ack_state:
  assumes "same_peer p q" "utcp_info s = (peer_of p)\<lparr>tcpi_state := st, tcpi_ack := a, tcpi_seq := b\<rparr>"
    and "ntohs (get16 p 36) = 80" "q 47 AND (SYN_MASK OR FIN_MASK OR ACK_MASK) = ACK_MASK"
  shows "receive q s = tcp_acked (inc_ack (seg_length q) (s\<lparr>packet := q\<rparr>))"
  unfolding receive_def
  by (subst tcpinput_ack)
     (use assms in \<open>auto simp: segment_of_def from_peer_def same_peer_def peer_of_def\<close>)

lemma receive_handshake_ack:
  assumes "same_peer p q" "utcp_info s = peer_of p"
    and "ntohs (get16 p 36) = 80" "q 47 AND (SYN_MASK OR FIN_MASK OR ACK_MASK) = ACK_MASK"
  shows "receive q s = Some (set_tcp (\<lambda>u. (peer_of p)\<lparr>tcpi_state := TCP_ESTABLISHED,
      tcpi_ack := incseq (incseq (get32 p 38) 1) (seg_length q), tcpi_seq := incseq 0 1\<rparr>) (s\<lparr>packet := q\<rparr>))"
proof -
  have "utcp_info s = (peer_of p)\<lparr>tcpi_state := TCP_SYN_RECV, tcpi_ack := incseq (get32 p 38) 1, tcpi_seq := 0\<rparr>"
    by (simp add: assms(2) peer_of_def no_session_def)
  from receive_ack_state [OF assms(1) this assms(3,4)] show ?thesis
    by (simp add: tcp_acked_def inc_ack_def set_tcp_def tcpConnected_def inc_seq_def set_tcpi_state_def
        assms(2) peer_of_def no_session_def)
qed

text \<open>C19: A client that opens a connection to port 80 and sends a GET request gets the page: the
  three frames sent are the SYN-ACK that acknowledges the SYN, the page (548 bytes) and a FIN, with
  sequence numbers that follow each other; the connection then waits for the end.\<close>

theorem tcp_serves_page:
  assumes "utcp_info s = no_session" "length (eth0_mac s) = 6"
    and "ntohs (get16 p1 36) = 80" "p1 47 AND SYN_MASK \<noteq> 0" "same_peer p1 p2" "same_peer p1 p3"
    and "p2 47 AND (SYN_MASK OR FIN_MASK OR ACK_MASK) = ACK_MASK"
    and "p3 47 AND (SYN_MASK OR FIN_MASK OR ACK_MASK) = ACK_MASK"
    and "get_bytes p3 (34 + unat (drop_bit 4 (p3 46)) * 4) 3 = ascii ''GET''"
  shows "\<exists>s' f1 f2 f3.
    Option.bind (Option.bind (receive p1 s) (receive p2)) (receive p3) = Some s'
    \<and> txlog s' = txlog s @ [f1, f2, f3]
    \<and> frame_flags f1 = SYN_MASK OR ACK_MASK \<and> frame_ack f1 = ntohl (get32 p1 38) + 1 \<and> frame_seq f1 = 0
    \<and> frame_flags f2 = ACK_MASK \<and> frame_seq f2 = 1 \<and> drop 54 f2 = indexdata
    \<and> frame_ack f2 = ntohl (get32 p1 38) + 1 + seg_length p2 + seg_length p3
    \<and> frame_flags f3 = ACK_MASK OR FIN_MASK \<and> frame_seq f3 = 1 + 548 \<and> frame_ack f3 = frame_ack f2
    \<and> tcpi_state (utcp_info s') = TCP_FIN_WAIT1"
proof -
  obtain s1 f1 where s1: "receive p1 s = Some s1" "utcp_info s1 = peer_of p1" "eth0_mac s1 = eth0_mac s"
      "txlog s1 = txlog s @ [f1]" "frame_seq f1 = 0" "frame_ack f1 = ntohl (get32 p1 38) + 1"
      "frame_flags f1 = SYN_MASK OR ACK_MASK"
    using receive_syn [OF assms(1,3,4,2)] by blast
  define a where "a = incseq (incseq (get32 p1 38) 1) (seg_length p2)"
  define u where "u = (peer_of p1)\<lparr>tcpi_state := TCP_ESTABLISHED, tcpi_ack := a, tcpi_seq := incseq 0 1\<rparr>"
  define s2 where "s2 = set_tcp (\<lambda>_. u) (s1\<lparr>packet := p2\<rparr>)"
  have s2: "receive p2 s1 = Some s2"
    using receive_handshake_ack [OF assms(5) s1(2) assms(3,7)] by (simp add: s2_def u_def a_def)
  define s3 where "s3 = set_tcp (\<lambda>_. u\<lparr>tcpi_ack := incseq a (seg_length p3)\<rparr>) (s1\<lparr>packet := p3\<rparr>)"
  have s3: "receive p3 s2 = tcp_acked s3"
    using receive_ack_state [where s = s2 and st = TCP_ESTABLISHED and a = a and b = "incseq 0 1", OF assms(6) _ assms(3,8)]
    by (simp add: s2_def s3_def u_def inc_ack_def set_tcp_def)
  have payload: "get_bytes (\<lambda>k. p3 (34 + tcp_doff s3 + k)) 0 3 = ascii ''GET''"
    using assms(9) by (simp add: s3_def tcp_doff_def get_bytes_def)
  have est: "tcpi_state (utcp_info s3) = TCP_ESTABLISHED" "packet s3 = p3" "eth0_mac s3 = eth0_mac s"
    "txlog s3 = txlog s @ [f1]" "tcpi_ack (utcp_info s3) = incseq a (seg_length p3)"
    "tcpi_seq (utcp_info s3) = incseq 0 1" "length (tcpi_node (utcp_info s3)) = 6"
    by (simp_all add: s3_def u_def peer_of_def no_session_def s1)
  define s4 where "s4 = set_tcpi_state TCP_FIN_WAIT1 (tcpoutput 0x50 ACK_MASK indexdata 548 s3)"
  have served: "tcp_acked s3 = Some (tcpSendFinAck s4)"
    using payload by (simp add: tcp_acked_def est(1,2) tcpInputData_def s4_def pages_fit)
  have s4: "txlog s4 = txlog s @ [f1, tcp_frame s3 0x50 ACK_MASK indexdata]" "eth0_mac s4 = eth0_mac s"
    "tcpi_seq (utcp_info s4) = incseq (incseq 0 1) 548" "tcpi_ack (utcp_info s4) = incseq a (seg_length p3)"
    "tcpi_state (utcp_info s4) = TCP_FIN_WAIT1" "length (tcpi_node (utcp_info s4)) = 6"
    by (simp_all add: s4_def set_tcpi_state_def tcpoutput_alt inc_seq_def est)
  have z: "ntohl 0 = 0" by (simp add: swab32_def)
  note fields = tcp_frame_fields [OF assms(2) [folded est(3)] est(7)]
    tcp_frame_fields [OF assms(2) [folded s4(2)] s4(6)]
  show ?thesis
    by (rule exI [of _ "tcpSendFinAck s4"], rule exI [of _ f1],
        rule exI [of _ "tcp_frame s3 0x50 ACK_MASK indexdata"],
        rule exI [of _ "tcp_frame s4 0x50 (ACK_MASK OR FIN_MASK) []"])
       (simp add: s1 s2 s3 served fields tcpSendFinAck_def tcpoutput_alt inc_seq_def s4 est z a_def length_indexdata)
qed

text \<open>Sample segments from 192.168.1.20 port 1200 to 192.168.1.6 port 80.\<close>

definition sample_segment :: "u8 \<Rightarrow> u8 list \<Rightarrow> buffer" where
  "sample_segment fl data = buf_of (
     [0x56, 0xaa, 0xa5, 0x5a, 0x7d, 0xe8, 2, 0, 0, 0, 0, 1, 8, 0] @
     [0x45, 0, 0, 40 + of_nat (length data), 0, 1, 0, 0, 64, 6, 0, 0, 192, 168, 1, 20, 192, 168, 1, 6] @
     [4, 176, 0, 80, 0, 0, 0, 100, 0, 0, 0, 0, 0x50, fl, 8, 0, 0, 0, 0, 0] @ data)"

lemma sample_segment_fields:
  "get16 (sample_segment fl data) 34 = le16 4 176" "get16 (sample_segment fl data) 36 = le16 0 80"
  "get32 (sample_segment fl data) 26 = le32 192 168 1 20" "get32 (sample_segment fl data) 30 = le32 192 168 1 6"
  "get32 (sample_segment fl data) 38 = le32 0 0 0 100" "sample_segment fl data 47 = fl"
  "sample_segment fl data 46 = 0x50" "sample_segment fl data 14 = 0x45"
  "get16 (sample_segment fl data) 16 = le16 0 (40 + of_nat (length data))"
  "sample_segment fl data (54 + k) = buf_of data k"
  "get_bytes (sample_segment fl data) 6 6 = [2, 0, 0, 0, 0, 1]"
  by (simp_all add: sample_segment_def get16_def get32_def get_bytes_def upt_conv_Cons numeral_eq_Suc)

lemma tcp_serves_page_witness:
  "\<exists>s' f1 f2 f3.
    Option.bind (Option.bind (receive (sample_segment 2 []) (sample_http no_session (\<lambda>_. 0)))
        (receive (sample_segment 16 []))) (receive (sample_segment 24 (ascii ''GET / ''))) = Some s'
    \<and> txlog s' = [f1, f2, f3] \<and> drop 54 f2 = indexdata \<and> frame_seq f3 = 549"
proof -
  have drop4: "unat (drop_bit 4 (0x50 :: u8)) = 5" by (simp add: drop_bit_eq_div)
  have port: "ntohs (le16 0 80) = 80" by (simp only: swab16_le16) (simp add: le16_def)
  have get: "get_bytes (sample_segment 24 (ascii ''GET / '')) (34 + 20) 3 = ascii ''GET''"
    using sample_segment_fields(10) [of 24 "ascii ''GET / ''" 0]
      sample_segment_fields(10) [of 24 "ascii ''GET / ''" 1] sample_segment_fields(10) [of 24 "ascii ''GET / ''" 2]
    by (simp add: get_bytes_def upt_conv_Cons ascii_def)
  note p = sample_segment_fields
  have "\<exists>s' f1 f2 f3.
    Option.bind (Option.bind (receive (sample_segment 2 []) (sample_http no_session (\<lambda>_. 0)))
        (receive (sample_segment 16 []))) (receive (sample_segment 24 (ascii ''GET / ''))) = Some s'
    \<and> txlog s' = txlog (sample_http no_session (\<lambda>_. 0)) @ [f1, f2, f3]
    \<and> frame_flags f1 = SYN_MASK OR ACK_MASK
    \<and> frame_ack f1 = ntohl (get32 (sample_segment 2 []) 38) + 1 \<and> frame_seq f1 = 0
    \<and> frame_flags f2 = ACK_MASK \<and> frame_seq f2 = 1 \<and> drop 54 f2 = indexdata
    \<and> frame_ack f2 = ntohl (get32 (sample_segment 2 []) 38) + 1 + seg_length (sample_segment 16 [])
        + seg_length (sample_segment 24 (ascii ''GET / ''))
    \<and> frame_flags f3 = ACK_MASK OR FIN_MASK \<and> frame_seq f3 = 1 + 548 \<and> frame_ack f3 = frame_ack f2
    \<and> tcpi_state (utcp_info s') = TCP_FIN_WAIT1"
    by (rule tcp_serves_page) (simp_all add: p same_peer_def port drop4 tcp_masks get [simplified] del: swab16_le16)
  then show ?thesis by (elim exE conjE, intro exI conjI) (assumption | simp)+
qed

section \<open>The upload\<close>

text \<open>C20: Once the start of the image was found, each further segment of the client's file that does
  not begin with the bytes of \<open>GET\<close> or \<open>POST\<close> (those are taken for a new request) is stored behind
  what came before it and, until the announced length is reached, is answered by one frame: a pure
  ACK without data, whose acknowledgement number has advanced by the segment's length and whose
  sequence number has not moved.\<close>

theorem tcp_upload_appends:
  assumes "segment_of s (packet s) ACK_MASK" "sessionsaved (utcp_info s)" "run s = Running"
    and "tcpi_state (utcp_info s) = TCP_ESTABLISHED" "uploadstarted (utcp_info s)"
    and "foundboundary s = 2" "content_length s \<noteq> 0" "content_offset s \<noteq> 0"
    and "len = seg_length (packet s)" "len \<noteq> 0"
    and "payload = (\<lambda>k. packet s (34 + unat (drop_bit 4 (packet s 46)) * 4 + k))"
    and "get_bytes payload 0 3 \<noteq> ascii ''GET''" "get_bytes payload 0 4 \<noteq> ascii ''POST''"
    and "sint (upload_len s + len) < sint (content_length s + content_offset s)"
    and "unat (httpd_mem_len s) + unat len < 2 ^ 32"
    and "length (eth0_mac s) = 6" "length (tcpi_node (utcp_info s)) = 6"
  shows "\<exists>s' f. tcpinput s = Some s'
    \<and> read_bytes (mem s') (httpd_mem s') (unat (httpd_mem_len s'))
        = read_bytes (mem s) (httpd_mem s) (unat (httpd_mem_len s)) @ get_bytes payload 0 (unat len)
    \<and> httpd_mem s' = httpd_mem s \<and> httpd_mem_len s' = httpd_mem_len s + len \<and> upload_len s' = upload_len s + len
    \<and> flash s' = flash s \<and> txlog s' = txlog s @ [f]
    \<and> frame_flags f = ACK_MASK \<and> frame_ack f = ntohl (tcpi_ack (utcp_info s)) + len
    \<and> frame_seq f = ntohl (tcpi_seq (utcp_info s)) \<and> drop 54 f = []"
proof -
  define s0 where "s0 = inc_ack len s"
  have s0: "packet s0 = packet s" "utcp_info s0 = (utcp_info s)\<lparr>tcpi_ack := incseq (tcpi_ack (utcp_info s)) len\<rparr>"
    "mem s0 = mem s" "flash s0 = flash s" "txlog s0 = txlog s" "run s0 = run s" "httpd_mem s0 = httpd_mem s" "httpd_mem_len s0 = httpd_mem_len s"
    "upload_len s0 = upload_len s" "content_length s0 = content_length s" "content_offset s0 = content_offset s"
    "foundboundary s0 = foundboundary s"
    by (simp_all add: s0_def inc_ack_def set_tcp_def)
  define data where "data = get_bytes payload 0 (unat len)"
  define s1 where "s1 = s0\<lparr>mem := write_bytes (httpd_mem s + httpd_mem_len s) data (mem s),
      httpd_mem_len := httpd_mem_len s + len, upload_len := upload_len s + len\<rparr>"
  have fields: "tcp_length s0 = len" "(\<lambda>k. packet s0 (34 + tcp_doff s0 + k)) = payload"
    by (simp_all add: assms(9,11) tcp_fields seg_length_def s0)
  have "httpuploadfile payload len s0 = Some (False, s1)"
    using assms(6,7,8,14)
    by (simp add: httpuploadfile_def findimagehead_def s0 s1_def data_def Let_def s0_def inc_ack_def set_tcp_def)
  then have "tcpInputData s0 = Some (False, s1)"
    using assms(5,10,12,13) unfolding tcpInputData_def fields Let_def by (simp add: s0(2))
  moreover have "tcpinput s = tcp_acked s0"
    using tcpinput_ack [OF assms(1,2)] by (simp add: s0_def assms(9))
  ultimately have "tcpinput s = Some (tcpAck s1)"
    using assms(3,4) by (simp add: tcp_acked_def s0 s1_def)
  moreover have "unat (httpd_mem_len s + len) = unat (httpd_mem_len s) + length data"
    using assms(15) by (simp add: unat_word_ariths data_def)
  then have "read_bytes (mem s1) (httpd_mem s1) (unat (httpd_mem_len s1))
      = read_bytes (mem s) (httpd_mem s) (unat (httpd_mem_len s)) @ data"
    using read_write_extend [of "unat (httpd_mem_len s)" data "httpd_mem s" "mem s"] assms(15)
    by (simp add: s1_def s0 data_def)
  moreover have info: "utcp_info s1 = utcp_info s0" "eth0_mac s1 = eth0_mac s"
    by (simp_all add: s1_def s0_def inc_ack_def set_tcp_def)
  have "length (eth0_mac s1) = 6" "length (tcpi_node (utcp_info s1)) = 6"
    using assms(16,17) by (simp_all add: info s0(2))
  note fields = tcp_frame_fields [OF this]
  define f where "f = tcp_frame s1 0x50 ACK_MASK []"
  have "frame_flags f = ACK_MASK \<and> frame_ack f = ntohl (tcpi_ack (utcp_info s)) + len
      \<and> frame_seq f = ntohl (tcpi_seq (utcp_info s)) \<and> drop 54 f = []"
    by (simp add: f_def fields info s0(2))

  ultimately show ?thesis
    by (intro exI [of _ "tcpAck s1"] exI [of _ f])
       (simp add: tcpAck_def tcpoutput_alt inc_seq_def set_tcp_def s1_def s0 data_def f_def)
qed

definition sample_uploading :: http_state where
  "sample_uploading =
     (sample_http (sample_peer\<lparr>uploadstarted := True\<rparr>) (sample_segment 16 [7, 8, 9, 10]))
       \<lparr>foundboundary := 2, content_length := 1000, content_offset := 200, upload_len := 300\<rparr>"

lemma sample_uploading_fields:
  "packet sample_uploading = sample_segment 16 [7, 8, 9, 10]" "run sample_uploading = Running"
  "utcp_info sample_uploading = sample_peer\<lparr>uploadstarted := True\<rparr>"
  "foundboundary sample_uploading = 2" "content_length sample_uploading = 1000"
  "content_offset sample_uploading = 200"
  "upload_len sample_uploading = 300" "length (eth0_mac sample_uploading) = 6"
  "httpd_mem_len sample_uploading = 0" "txlog sample_uploading = []"
  by (simp_all add: sample_uploading_def sample_http_def sample_dhcp_def dhcp_state.defs)

lemma sample_peer_fields:
  "sessionsaved sample_peer" "tcpi_state sample_peer = TCP_ESTABLISHED" "length (tcpi_node sample_peer) = 6"
  by (simp_all add: sample_peer_def)

lemma sample_uploading_ok:
  "segment_of sample_uploading (packet sample_uploading) ACK_MASK" "seg_length (packet sample_uploading) = 4"
  "unat (drop_bit 4 (packet sample_uploading 46)) * 4 = 20"
  by (simp_all add: sample_uploading_def segment_of_def from_peer_def sample_peer_def no_session_def
      sample_segment_fields seg_length_def tcp_masks drop_bit_eq_div)
     (simp_all add: le16_def)

lemma tcp_upload_appends_witness:
  "\<exists>s' f. tcpinput sample_uploading = Some s' \<and> read_bytes (mem s') (httpd_mem s') (unat (httpd_mem_len s')) = [7, 8, 9, 10]
    \<and> txlog s' = [f] \<and> frame_flags f = ACK_MASK"
proof -
  have payload: "get_bytes (\<lambda>k. sample_segment 16 [7, 8, 9, 10] (54 + k)) 0 4 = [7, 8, 9, 10]"
    by (simp add: get_bytes_def upt_conv_Cons sample_segment_fields)
  have "get_bytes (\<lambda>k. sample_segment 16 [7, 8, 9, 10] (54 + k)) 0 3 = [7, 8, 9]"
    by (simp add: get_bytes_def upt_conv_Cons sample_segment_fields)
  then show ?thesis
    using tcp_upload_appends [OF sample_uploading_ok(1), of 4] payload sample_uploading_ok(2,3)
    by (auto simp: sample_uploading_fields sample_peer_fields ascii_def)
qed

text \<open>The server looks for a request in every segment: during an upload a segment whose data begin
  with the bytes of \<open>GET\<close> is answered with the page and a FIN, none of it is stored, and the
  connection leaves the established state.\<close>

theorem tcp_upload_lost_on_GET:
  assumes "segment_of s (packet s) ACK_MASK" "sessionsaved (utcp_info s)" "run s = Running"
    and "tcpi_state (utcp_info s) = TCP_ESTABLISHED" "uploadstarted (utcp_info s)"
    and "get_bytes (packet s) (34 + unat (drop_bit 4 (packet s 46)) * 4) 3 = ascii ''GET''"
  shows "\<exists>s' f1 f2. tcpinput s = Some s' \<and> tcpi_state (utcp_info s') = TCP_FIN_WAIT1
    \<and> txlog s' = txlog s @ [f1, f2] \<and> mem s' = mem s \<and> httpd_mem_len s' = httpd_mem_len s"
proof -
  let ?s = "inc_ack (seg_length (packet s)) s"
  have "get_bytes (\<lambda>k. packet ?s (34 + tcp_doff ?s + k)) 0 3 = ascii ''GET''"
    using assms(6) by (simp add: get_bytes_def tcp_doff_def inc_ack_def set_tcp_def)
  then have "tcpinput s
      = Some (tcpSendFinAck (set_tcpi_state TCP_FIN_WAIT1 (tcpoutput 0x50 ACK_MASK indexdata 548 ?s)))"
    using assms(4) unfolding tcpinput_ack [OF assms(1,2)]
    by (simp add: tcp_acked_def tcpInputData_def inc_ack_def set_tcp_def pages_fit)
  then show ?thesis
    by (simp add: tcpSendFinAck_def tcpoutput_alt inc_seq_def inc_ack_def set_tcpi_state_def set_tcp_def)
qed

lemma tcp_upload_lost_on_GET_witness:
  "\<exists>s' f1 f2. tcpinput (sample_uploading\<lparr>packet := sample_segment 16 (ascii ''GETTER'')\<rparr>) = Some s'
    \<and> tcpi_state (utcp_info s') = TCP_FIN_WAIT1 \<and> txlog s' = [f1, f2] \<and> httpd_mem_len s' = 0"
proof -
  let ?s = "sample_uploading\<lparr>packet := sample_segment 16 (ascii ''GETTER'')\<rparr>"
  have seg: "segment_of ?s (packet ?s) ACK_MASK"
    by (simp add: sample_uploading_def segment_of_def from_peer_def sample_peer_def no_session_def
        sample_segment_fields tcp_masks) (simp add: le16_def)
  have drop4: "unat (drop_bit 4 (0x50 :: u8)) = 5" by (simp add: drop_bit_eq_div)
  have "get_bytes (packet ?s) (34 + unat (drop_bit 4 (packet ?s 46)) * 4) 3 = ascii ''GET''"
    using sample_segment_fields(10) [of 16 "ascii ''GETTER''" 0]
      sample_segment_fields(10) [of 16 "ascii ''GETTER''" 1] sample_segment_fields(10) [of 16 "ascii ''GETTER''" 2]
    by (simp add: get_bytes_def upt_conv_Cons ascii_def sample_segment_fields drop4)
  then show ?thesis
    using tcp_upload_lost_on_GET [OF seg] by (auto simp: sample_uploading_fields sample_peer_fields)
qed

section \<open>The address in the page\<close>

fun decimal :: "nat \<Rightarrow> u8 list" where
  "decimal n = (if n < 10 then [48 + of_nat n] else decimal (n div 10) @ [48 + of_nat (n mod 10)])"

declare decimal.simps [simp del]

lemma ip_octets: "list_all (\<lambda>n. snd (snd (fold (ip_digit n) [100, 10, 1] (0, False, []))) = decimal n
    \<and> length (decimal n) \<le> 3) [0..<256]"
  by code_simp

lemma ip_octet_decimal: "ip_octet b = decimal (unat b)" "length (ip_octet b) \<le> 3"
  using ip_octets unat_u8_bound [of b] by (auto simp: ip_octet_def list_all_iff)

text \<open>The page announces the configured address in dotted decimal notation without leading zeros,
  and the text with its NUL fits the 16-byte buffer.\<close>

theorem utcp_GetIpStr_decimal:
  "utcp_GetIpStr s =
     (let ip = (if eth0_ip_httpd s = 0 then [192, 168, 1, 254] else bytes32 (eth0_ip_httpd s))
      in decimal (unat (ip ! 0)) @ [46] @ decimal (unat (ip ! 1)) @ [46] @ decimal (unat (ip ! 2)) @ [46]
           @ decimal (unat (ip ! 3)))
   \<and> length (utcp_GetIpStr s) < 16"
proof -
  have "length (ip_octet a) + (length (ip_octet b) + (length (ip_octet c) + length (ip_octet d))) < 13" for a b c d
    using ip_octet_decimal(2) [of a] ip_octet_decimal(2) [of b] ip_octet_decimal(2) [of c]
      ip_octet_decimal(2) [of d] by linarith
  then show ?thesis
    unfolding utcp_GetIpStr_def Let_def ip_octet_decimal(1) [symmetric] by simp
qed

end
