(* ===== verification/Tftpxfer.thy ===== *)
theory Tftpxfer
  imports Tftpd
begin

text \<open>
  What the TFTP handlers do block by block (\<^verbatim>\<open>boot/init/eth_tftpd.c\<close>). \<open>uploading\<close> relates the
  server's state to the list of bytes received so far, which is the abstract state of an
  upload: \<open>prepareACK\<close> refines appending a block to it. \<open>downloading\<close> does the same for a
  file that is read: \<open>prepareDATA\<close> refines handing out the next block.
\<close>

section \<open>Data packets\<close>

definition carries :: "buffer \<Rightarrow> u16 \<Rightarrow> u16 \<Rightarrow> u8 list \<Rightarrow> bool" where
  "carries p port k chunk \<longleftrightarrow>
     udp_dest p = htons port \<and> get16 p (o_tftp + 2) = htons k
     \<and> ntohs (udp_len p) = of_nat (12 + length chunk) \<and> length chunk \<le> 512
     \<and> get_bytes p (o_tftp + 4) (length chunk) = chunk"

definition macs_ok :: "'a boot_state_scheme \<Rightarrow> bool" where
  "macs_ok s \<longleftrightarrow> length (eth0_mac s) = 6 \<and> (\<forall>i. length (node (arptable_tftp s i)) = 6)"

lemma data_length_field:
  assumes "ntohs (udp_len p) = of_nat (12 + length chunk)" "length chunk \<le> 512"
  shows "ucast (ntohs (udp_len p)) - 4 - 8 = (of_nat (length chunk) :: u32)"
    "unat (of_nat (length chunk) :: u32) = length chunk"
proof -
  have "unat (ucast (ntohs (udp_len p)) :: u32) = 12 + length chunk"
    unfolding assms(1) unat_ucast_u16 by (subst unat_of_nat) (use assms(2) in simp)
  then have "ucast (ntohs (udp_len p)) = (of_nat (12 + length chunk) :: u32)"
    by (metis of_nat_unat ucast_id)
  then show "ucast (ntohs (udp_len p)) - 4 - 8 = (of_nat (length chunk) :: u32)" by simp
  show "unat (of_nat (length chunk) :: u32) = length chunk"
    by (subst unat_of_nat) (use assms(2) in simp)
qed

section \<open>The frames\<close>

definition ack_frame :: "'a tftp_state_scheme \<Rightarrow> u16 \<Rightarrow> u8 list" where
  "ack_frame s k = last (txlog (tftpd_send_ack k s))"

lemma tftpd_send_ack_alt: "tftpd_send_ack k s = s\<lparr>txlog := txlog s @ [ack_frame s k]\<rparr>"
  by (simp add: ack_frame_def tftpd_send_ack_def send_def Let_def)

lemma payload_at_42:
  "length mac = 6 \<Longrightarrow> length dest = 6 \<Longrightarrow>
    drop 42 (prepare_txpkt mac ty dest (ip_header l a b @ udp_header c d n @ body)) = body"
  by (simp add: prepare_txpkt_def)

text \<open>An ACK goes to the peer's address and carries opcode 4 and the block number.\<close>

lemma ack_frame_body:
  "macs_ok s \<Longrightarrow> drop 42 (ack_frame s k) = bytes16 (htons 4) @ bytes16 (htons k)"
  by (simp add: ack_frame_def tftpd_send_ack_def send_def Let_def macs_ok_def payload_at_42)

lemma ack_frame_dest:
  "macs_ok s \<Longrightarrow> \<not> tftp_client_enabled s \<Longrightarrow> take 6 (ack_frame s k) = node (arptable_tftp s TFTP_CLIENT)"
  by (simp add: ack_frame_def tftpd_send_ack_def send_def Let_def macs_ok_def prepare_txpkt_def)

section \<open>Uploads\<close>

definition uploading :: "'a tftp_state_scheme \<Rightarrow> u32 \<Rightarrow> u8 list \<Rightarrow> u16 \<Rightarrow> bool" where
  "uploading s img data k \<longleftrightarrow>
     tftpd_is_ready s \<and> \<not> tftp_client_enabled s \<and> run s = Running \<and> macs_ok s
     \<and> bootState s = BOOT_STATE2_TFTP_CLIENT_WRQ \<and> one_tftp_lock s \<and> block_expected s = k
     \<and> image_address s = img \<and> length data < 2 ^ 32
     \<and> file_length_to_server s = of_nat (length data) \<and> address_to_store s = img + of_nat (length data)
     \<and> read_bytes (mem s) img (length data) = data"

text \<open>What an upload leaves alone until it is complete.\<close>

definition upload_frame :: "'a tftp_state_scheme \<Rightarrow> 'a tftp_state_scheme \<Rightarrow> bool" where
  "upload_frame s t \<longleftrightarrow>
     flash t = flash s \<and> arptable_tftp t = arptable_tftp s \<and> SERVER_port t = SERVER_port s
     \<and> autoBurn t = autoBurn s \<and> jump_to_test t = jump_to_test s \<and> eth0_mac t = eth0_mac s
     \<and> tftp_from_command t = tftp_from_command s"

lemma upload_frame_refl [simp]: "upload_frame s s"
  by (simp add: upload_frame_def)

lemma upload_frame_trans: "upload_frame s t \<Longrightarrow> upload_frame t u \<Longrightarrow> upload_frame s u"
  by (simp add: upload_frame_def)

definition stamp :: "'a tftp_state_scheme \<Rightarrow> 'a tftp_state_scheme" where
  "stamp s = (if run s = Running then s\<lparr>last_sent_time := jiffies s\<rparr> else s)"

text \<open>The state after a block was stored and acknowledged.\<close>

definition stored :: "'a tftp_state_scheme \<Rightarrow> u8 list \<Rightarrow> 'a tftp_state_scheme" where
  "stored s chunk =
     (let t = s\<lparr>CLIENT_port := ntohs (udp_src (packet s)),
            mem := write_bytes (address_to_store s) chunk (mem s),
            address_to_store := address_to_store s + of_nat (length chunk),
            file_length_to_server := file_length_to_server s + of_nat (length chunk)\<rparr>
      in t\<lparr>txlog := txlog s @ [ack_frame t (block_expected s)], block_expected := block_expected s + 1\<rparr>)"

lemma prepareACK_stored:
  assumes "tftpd_is_ready s" "\<not> tftp_client_enabled s" "carries (packet s) (SERVER_port s) (block_expected s) chunk"
  shows "prepareACK s = map_option stamp
    (if length chunk < 512 then upload_done (stored s chunk) else Some (stored s chunk))"
proof -
  note c = assms(3) [unfolded carries_def]
  note n = data_length_field [of "packet s" chunk]
  have short: "(of_nat (length chunk) :: u32) < 512 \<longleftrightarrow> length chunk < 512"
    using c n(2) by (simp add: word_less_nat_alt)
  show ?thesis
    unfolding prepareACK_def Let_def using assms(1,2) c n short
    by (simp add: stored_def Let_def tftpd_send_ack_alt stamp_def [abs_def])
qed

lemma stored_uploading:
  assumes "uploading s img data k" "length data + length chunk < 2 ^ 32"
  shows "uploading (stored s chunk) img (data @ chunk) (k + 1)" "upload_frame s (stored s chunk)"
proof -
  have mem: "read_bytes (write_bytes (img + of_nat (length data)) chunk (mem s)) img (length data + length chunk)
      = data @ chunk"
    using read_write_extend [of "length data" chunk img "mem s"] assms by (simp add: uploading_def)
  show "uploading (stored s chunk) img (data @ chunk) (k + 1)"
    using assms mem by (simp add: uploading_def stored_def macs_ok_def Let_def add.assoc)
  show "upload_frame s (stored s chunk)" by (simp add: upload_frame_def stored_def Let_def)
qed

lemma stored_txlog:
  assumes "macs_ok s"
  shows "\<exists>f. txlog (stored s chunk) = txlog s @ [f]
    \<and> drop 42 f = bytes16 (htons 4) @ bytes16 (htons (block_expected s))"
  using assms by (simp add: stored_def Let_def ack_frame_body macs_ok_def)

lemma upload_frame_stamp [simp]: "upload_frame s (stamp t) = upload_frame s t"
  by (simp add: upload_frame_def stamp_def)

lemma uploading_stamp [simp]: "uploading (stamp s) img data k = uploading s img data k"
  by (simp add: uploading_def stamp_def macs_ok_def)

lemma stamp_txlog [simp]: "txlog (stamp s) = txlog s"
  by (simp add: stamp_def)

text \<open>A block out of order changes nothing in the upload; the last ACK is sent again.\<close>

lemma prepareACK_wrong_block:
  assumes "tftpd_is_ready s" "\<not> tftp_client_enabled s" "udp_dest (packet s) = htons (SERVER_port s)"
    and "ntohs (get16 (packet s) (o_tftp + 2)) \<noteq> block_expected s"
  shows "prepareACK s = Some (tftpd_send_ack (block_expected s - 1)
    (s\<lparr>CLIENT_port := ntohs (udp_src (packet s))\<rparr>))"
  using assms by (simp add: prepareACK_def Let_def)

section \<open>The end of an upload\<close>

text \<open>\<open>finished\<close>: the session is closed and the file lies in memory.\<close>

definition finished :: "'a tftp_state_scheme \<Rightarrow> u32 \<Rightarrow> u8 list \<Rightarrow> bool" where
  "finished s img file \<longleftrightarrow>
     bootState s = BOOT_STATE0_INIT_ARP \<and> \<not> one_tftp_lock s \<and> image_address s = img
     \<and> file_length_to_client s = of_nat (length file) \<and> read_bytes (mem s) img (length file) = file"

lemma upload_done_finished:
  assumes "uploading s img file k" "\<not> jump_to_test s"
  shows "\<exists>t. upload_done s = (if autoBurn s then checkAutoFlashing t img (of_nat (length file)) else Some t)
    \<and> finished t img file \<and> flash t = flash s \<and> txlog t = txlog s \<and> run t = Running \<and> autoBurn t = autoBurn s"
  using assms
  by (simp add: upload_done_def Let_def, intro exI conjI)
     (auto simp: finished_def uploading_def)

section \<open>A write request\<close>

lemma is_cstr_lit: "\<forall>c \<in> set xs. c \<noteq> 0 \<Longrightarrow> is_cstr (lit xs) 0 xs"
proof -
  have "is_cstr (buf_of (pre @ xs @ [0])) (length pre) xs" if "\<forall>c \<in> set xs. c \<noteq> 0" for pre :: "u8 list"
    using that
  proof (induction xs arbitrary: pre)
    case Nil
    then show ?case by (simp add: buf_of_def nth_default_append nth_default_beyond)
  next
    case (Cons c xs)
    then show ?case using Cons.IH [of "pre @ [c]"] by (simp add: buf_of_def nth_default_append)
  qed
  from this [of "[]"] show "\<forall>c \<in> set xs. c \<noteq> 0 \<Longrightarrow> is_cstr (lit xs) 0 xs" by (simp add: lit_def)
qed

lemma names_cstr: "is_cstr (lit TEST_FILENAME) 0 TEST_FILENAME" "is_cstr (lit BOOT_FILENAME) 0 BOOT_FILENAME"
  by (rule is_cstr_lit, simp add: TEST_FILENAME_def BOOT_FILENAME_def ascii_def)+

text \<open>The state after a write request for an ordinary name.\<close>

definition write_started :: "'a tftp_state_scheme \<Rightarrow> 'a tftp_state_scheme" where
  "write_started s =
     (let t = (memorize_client s)\<lparr>address_to_store := image_address s, file_length_to_server := 0\<rparr>
      in t\<lparr>txlog := txlog s @ [ack_frame t 0], block_expected := 1, one_tftp_lock := True,
           bootState := BOOT_STATE2_TFTP_CLIENT_WRQ\<rparr>)"

lemma setTFTP_WRQ_started:
  assumes "tftpd_is_ready s" "udp_dest (packet s) = htons TFTP_PORT"
    and "is_cstr (packet s) (o_tftp + 2) name" "\<not> sublist TEST_FILENAME name" "name \<noteq> BOOT_FILENAME"
  shows "setTFTP_WRQ s = Some (write_started s)"
proof -
  have test: "strstr (packet s) (o_tftp + 2) (lit TEST_FILENAME) 0 = Some None"
    using strstr_cstr [OF assms(3) names_cstr(1)] assms(4) by auto
  obtain r where boot: "strcmp (packet s) (o_tftp + 2) (lit BOOT_FILENAME) 0 = Some r" "r \<noteq> 0"
    using strcmp_cstr [OF assms(3) names_cstr(2)] assms(5) by blast
  have same: "packet (memorize_client s) = packet s" "image_address (memorize_client s) = image_address s"
    "txlog (memorize_client s) = txlog s"
    by (simp_all add: memorize_client_def set_arp_def Let_def)
  show ?thesis
    using assms(1,2) test boot
    by (simp add: setTFTP_WRQ_def Let_def same write_started_def tftpd_send_ack_alt)
qed

lemma write_started_uploading:
  assumes "tftpd_is_ready s" "\<not> tftp_client_enabled s" "run s = Running" "macs_ok s"
  shows "uploading (write_started s) (image_address s) [] 1"
    "flash (write_started s) = flash s" "SERVER_port (write_started s) = SERVER_port s"
    "autoBurn (write_started s) = autoBurn s" "jump_to_test (write_started s) = jump_to_test s"
    "ipaddr (arptable_tftp (write_started s) TFTP_SERVER) = ipaddr (arptable_tftp s TFTP_SERVER)"
    "ipaddr (arptable_tftp (write_started s) HTTPD_ARPENTRY) = ipaddr (arptable_tftp s HTTPD_ARPENTRY)"
    "macs_ok (memorize_client s)"
  using assms
  by (simp_all add: write_started_def uploading_def memorize_client_def set_arp_def macs_ok_def Let_def
      TFTP_SERVER_def TFTP_CLIENT_def HTTPD_ARPENTRY_def)

section \<open>Downloads\<close>

definition blocks :: "u8 list \<Rightarrow> nat" where
  "blocks file = length file div 512 + 1"

definition block_of :: "u8 list \<Rightarrow> nat \<Rightarrow> u8 list" where
  "block_of file k = take 512 (drop (512 * (k - 1)) file)"

text \<open>The blocks make up the file, and only the last one is short.\<close>

lemma concat_blocks_upto: "concat (map (block_of file) [1..<Suc n]) = take (512 * n) file"
proof (induction n)
  case (Suc n)
  have "take (512 * n) file @ take 512 (drop (512 * n) file) = take (512 * Suc n) file"
    by (simp add: take_add [symmetric] add.commute)
  then show ?case using Suc by (simp add: block_of_def)
qed simp

lemma concat_blocks: "concat (map (block_of file) [1..<Suc (blocks file)]) = file"
proof -
  have "length file \<le> 512 * blocks file"
    using mult_div_mod_eq [of 512 "length file"] by (simp add: blocks_def)
  then show ?thesis unfolding concat_blocks_upto by simp
qed

lemma data_length_block:
  assumes "1 \<le> k" "k \<le> blocks file" "k < 65536" "length file + 512 < 2 ^ 32"
  shows "data_length (of_nat (length file)) (of_nat k) = Some (of_nat (length (block_of file k)), k = blocks file)"
proof -
  define L where "L = length file"
  have b: "ucast (of_nat k :: u16) = (of_nat k :: u32)"
    using assms(3) by (simp add: word_unat_eq_iff unat_of_nat)
  have k: "unat (of_nat k * 512 :: u32) = 512 * k"
    using assms(3) by (simp add: unat_word_ariths unat_of_nat)
  have L: "unat (of_nat L + 512 :: u32) = L + 512" "unat (of_nat L :: u32) = L"
    using assms(4) by (simp_all add: unat_word_ariths unat_of_nat L_def)
  have A: "512 * (of_nat k :: u32) = of_nat L + 512 \<longleftrightarrow> 512 * k = L + 512"
    by (simp only: word_unat_eq_iff mult.commute [of 512] k L)
  have B: "512 * (of_nat k :: u32) > of_nat L \<longleftrightarrow> 512 * k > L"
    by (simp only: word_less_nat_alt mult.commute [of 512 "of_nat k"] k L)
  have C: "512 * ((of_nat k :: u32) - 1) > of_nat L \<longleftrightarrow> 512 * (k - 1) > L"
  proof -
    have "(of_nat k :: u32) - 1 = of_nat (k - 1)" using assms(1) by (simp add: of_nat_diff)
    moreover have "unat (of_nat (k - 1) * 512 :: u32) = 512 * (k - 1)"
      using assms(3) by (simp add: unat_word_ariths unat_of_nat)
    ultimately show ?thesis by (simp only: word_less_nat_alt mult.commute [of 512 "of_nat (k - 1)"] L)
  qed
  have val: "data_length (of_nat L) (of_nat k) = (if 512 * k = L + 512 then Some (0, True)
      else if 512 * k > L then (if 512 * (k - 1) > L then None else Some (of_nat L - 512 * (of_nat k - 1), True))
      else Some (512, False))"
    by (simp only: data_length_def Let_def b A B C)
  have dm: "L = 512 * (L div 512) + L mod 512" "L mod 512 < 512" by simp_all
  show ?thesis
  proof (cases "k = blocks file")
    case True
    then have "k = L div 512 + 1" by (simp add: blocks_def L_def)
    then have k1: "k - 1 = L div 512" "512 * k = 512 * (L div 512) + 512" by simp_all
    have le: "512 * (k - 1) \<le> L" and gt: "512 * k > L" "L - 512 * (k - 1) < 512"
      unfolding k1 using dm by linarith+
    have len: "length (block_of file k) = L - 512 * (k - 1)"
      using gt(2) by (simp add: block_of_def L_def)
    have sub: "(of_nat L - 512 * (of_nat k - 1) :: u32) = of_nat (L - 512 * (k - 1))"
      using le assms(1) by (simp add: of_nat_diff)
    have zero: "L - 512 * (k - 1) = 0" if "512 * k = L + 512"
      using that unfolding k1 by linarith
    have "data_length (of_nat L) (of_nat k) = Some (of_nat (L - 512 * (k - 1)), True)"
    proof (cases "512 * k = L + 512")
      case True
      then show ?thesis unfolding val if_P [OF True] zero [OF True] by simp
    next
      case False
      have "\<not> 512 * (k - 1) > L" using le by simp
      then show ?thesis unfolding val sub if_not_P [OF False] if_P [OF gt(1)] by simp
    qed
    then show ?thesis unfolding len L_def [symmetric] by (simp only: True simp_thms)
  next
    case False
    then have "k \<le> L div 512" using assms(2) by (simp add: blocks_def L_def)
    then have "512 * k \<le> L" using dm by linarith
    moreover from this have "length (block_of file k) = 512"
      using assms(1) by (cases k) (simp_all add: block_of_def L_def)
    ultimately show ?thesis
      using False unfolding L_def [symmetric] val by simp
  qed
qed

lemma take_length_take: "take (length (take n xs)) xs = take n xs"
  by (simp add: min_def)

lemma read_bytes_part:
  assumes "i + n \<le> l"
  shows "read_bytes m (a + of_nat i) n = take n (drop i (read_bytes m a l))"
  using assms by (intro nth_equalityI) (simp_all add: read_bytes_nth add.assoc)

definition data_frame :: "'a tftp_state_scheme \<Rightarrow> u16 \<Rightarrow> u8 list" where
  "data_frame s k = last (txlog (the (tftpd_send_data k s)))"

definition serving :: "'a tftp_state_scheme \<Rightarrow> u8 list \<Rightarrow> bool" where
  "serving s file \<longleftrightarrow>
     tftpd_is_ready s \<and> run s = Running \<and> macs_ok s \<and> length file + 512 < 2 ^ 32 \<and> blocks file < 65536
     \<and> file_length_to_client s = of_nat (length file)
     \<and> read_bytes (mem s) (image_address s) (length file) = file"

definition downloading :: "'a tftp_state_scheme \<Rightarrow> u8 list \<Rightarrow> nat \<Rightarrow> bool" where
  "downloading s file k \<longleftrightarrow>
     serving s file \<and> bootState s = BOOT_STATE1_TFTP_CLIENT_RRQ \<and> one_tftp_lock s
     \<and> 1 \<le> k \<and> k \<le> blocks file \<and> block_expected s = of_nat k \<and> it_is_EOF s = (k = blocks file)"

lemma tftpd_send_data_block:
  assumes "serving s file" "1 \<le> k" "k \<le> blocks file" "\<not> it_is_EOF s"
  shows "tftpd_send_data (of_nat k) s = Some (s\<lparr>it_is_EOF := (k = blocks file), txlog := txlog s @ [data_frame s (of_nat k)]\<rparr>)"
    "drop 42 (data_frame s (of_nat k)) = bytes16 (htons 3) @ bytes16 (htons (of_nat k)) @ block_of file k"
proof -
  note S = assms(1) [unfolded serving_def]
  have k: "k < 65536" using assms(3) S by simp
  note len = data_length_block [OF assms(2,3) k, of]
  have small: "length (block_of file k) \<le> 512" by (simp add: block_of_def)
  then have n: "unat (of_nat (length (block_of file k)) :: u32) = length (block_of file k)"
    by (subst unat_of_nat) simp
  have addr: "ucast (of_nat k :: u16) = (of_nat k :: u32)"
    using k by (simp add: word_unat_eq_iff unat_of_nat)
  have fits: "512 * (k - 1) + length (block_of file k) \<le> length file"
    using assms(3) by (simp add: block_of_def blocks_def)
  have "read_bytes (mem s) (image_address s + 512 * (of_nat k - 1)) (length (block_of file k))
      = take (length (block_of file k)) (drop (512 * (k - 1)) file)"
    using read_bytes_part [OF fits, of "mem s" "image_address s"] S assms(2) by (simp add: of_nat_diff)
  also have "\<dots> = block_of file k" unfolding block_of_def by (rule take_length_take)
  finally have data: "read_bytes (mem s) (image_address s + 512 * (of_nat k - 1)) (length (block_of file k))
      = block_of file k" .
  show "tftpd_send_data (of_nat k) s = Some (s\<lparr>it_is_EOF := (k = blocks file), txlog := txlog s @ [data_frame s (of_nat k)]\<rparr>)"
    using assms(4) len S by (simp add: data_frame_def tftpd_send_data_def send_def Let_def)
  show "drop 42 (data_frame s (of_nat k)) = bytes16 (htons 3) @ bytes16 (htons (of_nat k)) @ block_of file k"
    using len S by (simp add: data_frame_def tftpd_send_data_def send_def Let_def macs_ok_def payload_at_42 addr data [simplified] n)
qed

definition data_payload :: "nat \<Rightarrow> u8 list \<Rightarrow> u8 list" where
  "data_payload k block = bytes16 (htons 3) @ bytes16 (htons (of_nat k)) @ block"

lemma request_name_cstr:
  assumes "is_cstr p (o_tftp + 2) name" "length name < 512"
  shows "request_name p = Some name"
proof -
  have nm: "get_bytes p (o_tftp + 2) (length name) = name"
    using is_cstr_bytes [OF assms(1), of "length name"] by simp
  have nz: "\<forall>c \<in> set name. c \<noteq> 0"
    using is_cstr_nth [OF assms(1)] by (auto simp: in_set_conv_nth)
  obtain r where r: "512 = length name + Suc r" using assms(2) less_iff_Suc_add [of "length name" 512] by auto
  have "get_bytes p (o_tftp + 2) 512 = name @ 0 # get_bytes p (o_tftp + 2 + Suc (length name)) r"
  proof -
    have "[0..<length name + Suc r] = [0..<length name] @ length name # [Suc (length name)..<length name + Suc r]"
      using upt_add_eq_append [of 0 "length name" "Suc r"] upt_conv_Cons [of "length name" "length name + Suc r"] by simp
    moreover have "[Suc (length name)..<length name + Suc r] = map (\<lambda>k. Suc (length name) + k) [0..<r]"
      using map_add_upt [of "Suc (length name)" r] by (simp add: add.commute)
    ultimately show ?thesis
      using nm is_cstr_end [OF assms(1)] unfolding r get_bytes_def by (simp add: add.assoc)
  qed
  then have "takeWhile (\<lambda>c. c \<noteq> 0) (get_bytes p (o_tftp + 2) 512) = name"
    using nz by (simp add: takeWhile_append2)
  then show ?thesis using assms(2) by (simp add: request_name_def TFTP_DEFAULTSIZE_PACKET_def)
qed

lemma setTFTP_RRQ_serves:
  assumes "serving s file" "udp_dest (packet s) = htons TFTP_PORT" "\<not> it_is_EOF s"
    and "request_name (packet s) = Some name"
  shows "\<exists>t f. setTFTP_RRQ s = Some t \<and> downloading t file 1 \<and> txlog t = txlog s @ [f]
    \<and> drop 42 f = data_payload 1 (block_of file 1) \<and> SERVER_port t = SERVER_port s
    \<and> ipaddr (arptable_tftp t TFTP_SERVER) = ipaddr (arptable_tftp s TFTP_SERVER)
    \<and> ipaddr (arptable_tftp t HTTPD_ARPENTRY) = ipaddr (arptable_tftp s HTTPD_ARPENTRY)
    \<and> tftp_client_enabled t = tftp_client_enabled s"
proof -
  define u where "u = (memorize_client s)\<lparr>filename := name, one_tftp_lock := True\<rparr>"
  have u: "serving u file" "\<not> it_is_EOF u" "txlog u = txlog s" "SERVER_port u = SERVER_port s"
    "ipaddr (arptable_tftp u TFTP_SERVER) = ipaddr (arptable_tftp s TFTP_SERVER)" "one_tftp_lock u"
    "ipaddr (arptable_tftp u HTTPD_ARPENTRY) = ipaddr (arptable_tftp s HTTPD_ARPENTRY)"
    "tftp_client_enabled u = tftp_client_enabled s"
    using assms by (simp_all add: u_def serving_def macs_ok_def memorize_client_def set_arp_def Let_def
        TFTP_SERVER_def TFTP_CLIENT_def HTTPD_ARPENTRY_def)
  have one: "1 \<le> blocks file" by (simp add: blocks_def)
  note sent = tftpd_send_data_block [OF u(1) _ one u(2), simplified]
  define t where "t = (the (tftpd_send_data 1 u))\<lparr>block_expected := 1, bootState := BOOT_STATE1_TFTP_CLIENT_RRQ\<rparr>"
  have "setTFTP_RRQ s = map_option (\<lambda>s. s\<lparr>block_expected := 1, bootState := BOOT_STATE1_TFTP_CLIENT_RRQ\<rparr>) (tftpd_send_data 1 u)"
    using assms by (simp add: setTFTP_RRQ_def serving_def u_def)
  then have "setTFTP_RRQ s = Some t" using one by (simp add: t_def sent)
  moreover have "downloading t file 1"
    using u one by (simp add: downloading_def t_def sent serving_def macs_ok_def)
  moreover have "txlog t = txlog s @ [data_frame u 1]" "SERVER_port t = SERVER_port s"
    "ipaddr (arptable_tftp t TFTP_SERVER) = ipaddr (arptable_tftp s TFTP_SERVER)"
    "ipaddr (arptable_tftp t HTTPD_ARPENTRY) = ipaddr (arptable_tftp s HTTPD_ARPENTRY)"
    "tftp_client_enabled t = tftp_client_enabled s"
    using u by (simp_all add: t_def sent)
  ultimately show ?thesis using sent(2) by (auto simp: data_payload_def)
qed

lemma prepareDATA_next:
  assumes "downloading s file k" "udp_dest (packet s) = htons (SERVER_port s)"
    and "get16 (packet s) (o_tftp + 2) = htons (of_nat k)" "k < blocks file"
  shows "\<exists>t f. prepareDATA s = Some t \<and> downloading t file (k + 1) \<and> txlog t = txlog s @ [f]
    \<and> drop 42 f = data_payload (k + 1) (block_of file (k + 1)) \<and> SERVER_port t = SERVER_port s
    \<and> arptable_tftp t = arptable_tftp s \<and> tftp_client_enabled t = tftp_client_enabled s"
proof -
  note D = assms(1) [unfolded downloading_def]
  define u where "u = s\<lparr>CLIENT_port := ntohs (udp_src (packet s)), block_expected := block_expected s + 1\<rparr>"
  have u: "serving u file" "\<not> it_is_EOF u" "block_expected u = of_nat (k + 1)"
    using D assms(4) by (auto simp: u_def serving_def macs_ok_def add.commute)
  note sent = tftpd_send_data_block [OF u(1) _ _ u(2), of "k + 1"]
  define t where "t = the (tftpd_send_data (of_nat (k + 1)) u)"
  have nxt: "1 \<le> k + 1" "k + 1 \<le> blocks file" using assms(4) by simp_all
  have "prepareDATA s = tftpd_send_data (block_expected u) u"
    using D assms u(2) by (simp add: prepareDATA_def serving_def u_def Let_def)
  then have "prepareDATA s = Some t" by (simp only: t_def u(3) sent(1) [OF nxt] option.sel)
  moreover have "downloading t file (k + 1)"
    unfolding t_def sent(1) [OF nxt] option.sel downloading_def
    using D u nxt by (simp add: serving_def macs_ok_def u_def)
  moreover have "txlog t = txlog s @ [data_frame u (of_nat (k + 1))]" "SERVER_port t = SERVER_port s"
    "arptable_tftp t = arptable_tftp s" "tftp_client_enabled t = tftp_client_enabled s"
    unfolding t_def sent(1) [OF nxt] option.sel by (simp_all add: u_def)
  ultimately show ?thesis using sent(2) [OF nxt] unfolding data_payload_def by blast
qed

lemma prepareDATA_last:
  assumes "downloading s file (blocks file)" "udp_dest (packet s) = htons (SERVER_port s)"
    and "get16 (packet s) (o_tftp + 2) = htons (of_nat (blocks file))"
  shows "\<exists>t. prepareDATA s = Some t \<and> bootState t = BOOT_STATE0_INIT_ARP \<and> \<not> one_tftp_lock t
    \<and> txlog t = txlog s \<and> mem t = mem s \<and> flash t = flash s"
  using assms by (simp add: downloading_def prepareDATA_def serving_def Let_def)

end
