(* ===== verification/Netboot.thy ===== *)
theory Netboot
  imports Utcp Tftpxfer
begin

text \<open>
  The dispatch of received frames, \<open>kick_tftpd\<close> of \<^verbatim>\<open>boot/init/eth_tftpd.c\<close>: the guards a frame
  has to pass, the locking of TFTP sessions and the calls into the TFTP state machine, the
  DHCP server and the web server. On top of it stand the transfers: uploads that fill memory
  and are burnt, downloads that deliver memory, and the invariant of all sessions.
\<close>

section \<open>kick_tftpd\<close>

definition ARP_REQUEST :: u16 where "ARP_REQUEST = 1"
definition ARP_REPLY :: u16 where "ARP_REPLY = 2"
definition TFTP_RRQ :: u16 where "TFTP_RRQ = 1"
definition TFTP_WRQ :: u16 where "TFTP_WRQ = 2"
definition TFTP_DATA :: u16 where "TFTP_DATA = 3"
definition TFTP_ACK :: u16 where "TFTP_ACK = 4"
definition TFTP_ERROR :: u16 where "TFTP_ERROR = 5"
definition TFTP_OACK :: u16 where "TFTP_OACK = 6"

lemmas opcode_defs = TFTP_RRQ_def TFTP_WRQ_def TFTP_DATA_def TFTP_ACK_def TFTP_ERROR_def TFTP_OACK_def

definition kick :: "BootEvent_t option \<Rightarrow> 'a tftp_state_scheme \<Rightarrow> 'a tftp_state_scheme option" where
  "kick kick_event s =
     (case kick_event of None \<Rightarrow> Some s | Some e \<Rightarrow> BootStateEvent (bootState s) e s)"

definition arp_event :: "'a tftp_state_scheme \<Rightarrow> BootEvent_t option" where
  "arp_event s =
     (let opcode = get16 (packet s) (o_ip + 6); tip = get32 (packet s) (o_ip + 24)
      in if opcode = htons ARP_REQUEST then
           (if tip = ipaddr (arptable_tftp s TFTP_SERVER)
              \<or> tftp_client_enabled s \<and> tip = ipaddr (arptable_tftp s TFTP_CLIENT)
              \<or> tip = ipaddr (arptable_tftp s HTTPD_ARPENTRY)
            then Some BOOT_EVENT0_ARP_REQ else None)
         else if opcode = htons ARP_REPLY then Some BOOT_EVENT1_ARP_REPLY
         else None)"

text \<open>
  What a TFTP packet does before the handler runs. The message of an error packet is copied
  with \<open>strcpy\<close>, which looks for its NUL; one that does not fit into the 512 bytes of \<open>errmsg\<close> is \<open>None\<close>.
\<close>

definition tftp_event :: "'a tftp_state_scheme \<Rightarrow> (BootEvent_t option \<times> 'a tftp_state_scheme) option" where
  "tftp_event s =
     (let opcode = get16 (packet s) o_tftp
      in if opcode = htons TFTP_RRQ then
           Some (if one_tftp_lock s then None else Some BOOT_EVENT2_TFTP_RRQ, s)
         else if opcode = htons TFTP_WRQ then
           Some (if \<not> one_tftp_lock s \<or> block_expected s = 1 \<or> jiffies s - rx_kickofftime s > 2000
                 then (Some BOOT_EVENT3_TFTP_WRQ, s\<lparr>rx_kickofftime := jiffies s\<rparr>)
                 else (None, s))
         else if opcode = htons TFTP_DATA then
           Some (Some BOOT_EVENT4_TFTP_DATA, s\<lparr>rx_kickofftime := jiffies s\<rparr>)
         else if opcode = htons TFTP_ACK then Some (Some BOOT_EVENT5_TFTP_ACK, s)
         else if opcode = htons TFTP_ERROR then
           (if bootState s = BOOT_STATE3_TFTP_SERVER_DATA \<or> bootState s = BOOT_STATE4_TFTP_SERVER_DATA then
              (case strlen (\<lambda>k. packet s (o_tftp + 4 + k)) 0 of None \<Rightarrow> None
               | Some n \<Rightarrow>
                   if n < 512 then Some (Some BOOT_EVENT6_TFTP_ERROR,
                     s\<lparr>errmsg := get_bytes (packet s) (o_tftp + 4) n, errcode := get16 (packet s) (o_tftp + 2)\<rparr>)
                   else None)
            else Some (Some BOOT_EVENT6_TFTP_ERROR, s))
         else if opcode = htons TFTP_OACK then Some (Some BOOT_EVENT7_TFTP_OACK, s)
         else Some (None, s))"

definition for_us :: "'a tftp_state_scheme \<Rightarrow> u32 \<Rightarrow> bool" where
  "for_us s dest \<longleftrightarrow>
     tftp_client_enabled s \<and> dest = ipaddr (arptable_tftp s TFTP_CLIENT)
     \<or> \<not> tftp_client_enabled s \<and> dest = ipaddr (arptable_tftp s TFTP_SERVER)
     \<or> dest = 0xFFFFFFFF \<or> dest = ipaddr (arptable_tftp s HTTPD_ARPENTRY)"

definition ip_accepted :: "'a tftp_state_scheme \<Rightarrow> bool" where
  "ip_accepted s \<longleftrightarrow>
     packetlen s > o_tftp \<and> packet s o_ip = 0x45 \<and> for_us s (get32 (packet s) (o_ip + 16))
     \<and> ipheader_chksum (\<lambda>k. packet s (o_ip + k)) SIZEOF_IPHDR = 0"

definition kick_tftpd :: "'a http_state_scheme \<Rightarrow> 'a http_state_scheme option" where
  "kick_tftpd s =
     (let p = packet s; pkttype = (if packetlen s \<ge> ETH_HLEN + SIZEOF_ARP then get16 p 12 else 0)
      in if pkttype = htons FRAME_ARP then kick (arp_event s) s
         else if pkttype = htons FRAME_IP then
           (if \<not> ip_accepted s then Some s
            else if p (o_ip + 9) = IP_UDP then
              (if ntohs (udp_dest p) = 67 then Some (dhcps_input s)
               else case tftp_event s of None \<Rightarrow> None | Some (e, s) \<Rightarrow> kick e s)
            else if p (o_ip + 9) = IP_TCP then tcpinput s
            else Some s)
         else Some s)"

text \<open>A received frame with its length and the time; nothing happens after a reset or a jump.\<close>

definition net_step :: "'a http_state_scheme option \<Rightarrow> buffer \<times> nat \<times> u32 \<Rightarrow> 'a http_state_scheme option" where
  "net_step r e =
     (case r of
        None \<Rightarrow> None
      | Some s \<Rightarrow>
          (if run s \<noteq> Running then Some s
           else (case e of (p, n, t) \<Rightarrow> kick_tftpd (s\<lparr>packet := p, packetlen := n, jiffies := t\<rparr>))))"

section \<open>TFTP packets on the wire\<close>

text \<open>A frame that passes every guard and holds a TFTP packet with the given opcode.\<close>

definition tftp_packet :: "'a tftp_state_scheme \<Rightarrow> buffer \<Rightarrow> nat \<Rightarrow> u16 \<Rightarrow> bool" where
  "tftp_packet s p n opcode \<longleftrightarrow>
     n > o_tftp \<and> get16 p 12 = htons FRAME_IP \<and> p o_ip = 0x45 \<and> for_us s (get32 p (o_ip + 16))
     \<and> ipheader_chksum (\<lambda>k. p (o_ip + k)) SIZEOF_IPHDR = 0 \<and> p (o_ip + 9) = IP_UDP
     \<and> ntohs (udp_dest p) \<noteq> 67 \<and> get16 p o_tftp = htons opcode"

definition arrived :: "'a tftp_state_scheme \<Rightarrow> buffer \<Rightarrow> nat \<Rightarrow> u32 \<Rightarrow> 'a tftp_state_scheme" where
  "arrived s p n t = s\<lparr>packet := p, packetlen := n, jiffies := t\<rparr>"

lemma net_step_tftp:
  assumes "run s = Running" "tftp_packet s p n opcode"
  shows "net_step (Some s) (p, n, t) =
    (case tftp_event (arrived s p n t) of None \<Rightarrow> None | Some (e, s) \<Rightarrow> kick e s)"
proof -
  have "ip_accepted (arrived s p n t)"
    using assms(2) by (simp add: tftp_packet_def ip_accepted_def arrived_def for_us_def)
  moreover have "htons FRAME_ARP \<noteq> htons FRAME_IP" by (simp add: net_consts)
  ultimately show ?thesis
    using assms by (simp add: net_step_def kick_tftpd_def tftp_packet_def arrived_def net_consts o_tftp_def)
qed

lemma opcode_distinct [simp]:
  "TFTP_RRQ \<noteq> TFTP_WRQ" "TFTP_RRQ \<noteq> TFTP_DATA" "TFTP_WRQ \<noteq> TFTP_RRQ" "TFTP_WRQ \<noteq> TFTP_DATA"
  "TFTP_DATA \<noteq> TFTP_RRQ" "TFTP_DATA \<noteq> TFTP_WRQ" "TFTP_ACK \<noteq> TFTP_RRQ" "TFTP_ACK \<noteq> TFTP_WRQ"
  "TFTP_ACK \<noteq> TFTP_DATA" "TFTP_ERROR \<noteq> TFTP_RRQ" "TFTP_ERROR \<noteq> TFTP_WRQ" "TFTP_ERROR \<noteq> TFTP_DATA"
  "TFTP_ERROR \<noteq> TFTP_ACK"
  by (simp_all add: opcode_defs)

lemma net_step_data:
  assumes "run s = Running" "tftp_packet s p n TFTP_DATA" "bootState s = BOOT_STATE2_TFTP_CLIENT_WRQ"
  shows "net_step (Some s) (p, n, t) = prepareACK ((arrived s p n t)\<lparr>rx_kickofftime := t\<rparr>)"
  unfolding net_step_tftp [OF assms(1,2)] using assms(2,3)
  by (simp add: tftp_event_def arrived_def tftp_packet_def kick_def Let_def)

text \<open>The guards look at the addresses of the server only.\<close>

definition same_addresses :: "'a tftp_state_scheme \<Rightarrow> 'a tftp_state_scheme \<Rightarrow> bool" where
  "same_addresses s t \<longleftrightarrow>
     \<not> tftp_client_enabled s \<and> \<not> tftp_client_enabled t \<and> SERVER_port t = SERVER_port s
     \<and> ipaddr (arptable_tftp t TFTP_SERVER) = ipaddr (arptable_tftp s TFTP_SERVER)
     \<and> ipaddr (arptable_tftp t HTTPD_ARPENTRY) = ipaddr (arptable_tftp s HTTPD_ARPENTRY)"

lemma tftp_packet_cong: "same_addresses s t \<Longrightarrow> tftp_packet t p n opcode = tftp_packet s p n opcode"
  by (simp add: same_addresses_def tftp_packet_def for_us_def)

section \<open>Uploads\<close>

type_synonym frame = "buffer \<times> nat \<times> u32"

definition data_frame_ok :: "'a tftp_state_scheme \<Rightarrow> frame \<Rightarrow> nat \<times> u8 list \<Rightarrow> bool" where
  "data_frame_ok s e b =
     (case e of (p, n, t) \<Rightarrow> case b of (k, chunk) \<Rightarrow>
        tftp_packet s p n TFTP_DATA \<and> carries p (SERVER_port s) (of_nat k) chunk)"

definition ack_payload :: "nat \<Rightarrow> u8 list" where
  "ack_payload k = bytes16 (htons 4) @ bytes16 (htons (of_nat k))"

lemma run_events_None: "run_events net_step None es = None"
  by (induction es) (simp_all add: net_step_def)

text \<open>What burning or keeping the file makes of the finished upload.\<close>

definition after_upload :: "'a tftp_state_scheme \<Rightarrow> u32 \<Rightarrow> nat \<Rightarrow> 'a tftp_state_scheme option" where
  "after_upload t img len =
     map_option stamp (if autoBurn t then checkAutoFlashing t img (of_nat len) else Some t)"

lemma upload_blocks:
  assumes "uploading s img data (of_nat k)" "\<not> jump_to_test s"
    and "\<forall>c \<in> set chunks. length c = 512" "length rest < 512"
    and "length (data @ concat chunks @ rest) < 2 ^ 32"
    and "list_all2 (data_frame_ok s) es (enumerate k (chunks @ [rest]))"
  shows "\<exists>t acks. run_events net_step (Some s) es = after_upload t img (length (data @ concat chunks @ rest))
    \<and> finished t img (data @ concat chunks @ rest) \<and> flash t = flash s \<and> run t = Running
    \<and> autoBurn t = autoBurn s \<and> txlog t = txlog s @ acks
    \<and> map (drop 42) acks = map ack_payload [k..<Suc (k + length chunks)]"
  using assms
proof (induction chunks arbitrary: s data k es)
  case Nil
  then obtain p n t where es: "es = [(p, n, t)]"
    and e: "tftp_packet s p n TFTP_DATA" "carries p (SERVER_port s) (of_nat k) rest"
    by (auto simp: list_all2_Cons2 data_frame_ok_def)
  define s1 where "s1 = (arrived s p n t)\<lparr>rx_kickofftime := t\<rparr>"
  have s1: "uploading s1 img data (of_nat k)" "txlog s1 = txlog s" "flash s1 = flash s" "\<not> jump_to_test s1"
      "autoBurn s1 = autoBurn s"
    using Nil.prems(1,2) by (simp_all add: s1_def arrived_def uploading_def macs_ok_def)
  have up: "uploading (stored s1 rest) img (data @ rest) (of_nat k + 1)" "upload_frame s1 (stored s1 rest)"
    using stored_uploading [OF s1(1), of rest] Nil.prems(5) by simp_all
  obtain f where f: "txlog (stored s1 rest) = txlog s @ [f]" "drop 42 f = ack_payload k"
    using stored_txlog [of s1 rest] s1 by (auto simp: uploading_def ack_payload_def)
  have jt: "\<not> jump_to_test (stored s1 rest)" "autoBurn (stored s1 rest) = autoBurn s" "flash (stored s1 rest) = flash s"
    using up(2) s1 by (simp_all add: upload_frame_def)
  obtain u where u: "upload_done (stored s1 rest) =
      (if autoBurn s then checkAutoFlashing u img (of_nat (length (data @ rest))) else Some u)"
    "finished u img (data @ rest)" "flash u = flash s" "txlog u = txlog s @ [f]" "run u = Running"
    "autoBurn u = autoBurn s"
    using upload_done_finished [OF up(1) jt(1)] jt f(1) by auto
  have "net_step (Some s) (p, n, t) = prepareACK s1"
    unfolding s1_def by (rule net_step_data) (use Nil.prems(1) e(1) in \<open>auto simp: uploading_def\<close>)
  also have "\<dots> = map_option stamp (upload_done (stored s1 rest))"
    using prepareACK_stored [of s1 rest] s1(1) e(2) Nil.prems(4)
    by (simp add: s1_def arrived_def uploading_def)
  finally have "run_events net_step (Some s) es = after_upload u img (length (data @ concat [] @ rest))"
    using u(1,6) by (simp add: es after_upload_def)
  then show ?case using u(2-6) f(2) by (intro exI [of _ u] exI [of _ "[f]"]) simp
next
  case (Cons c chunks)
  obtain p n t es' where es: "es = (p, n, t) # es'"
    and first: "data_frame_ok s (p, n, t) (k, c)"
    and rest: "list_all2 (data_frame_ok s) es' (enumerate (Suc k) (chunks @ [rest]))"
    using Cons.prems(6) by (auto simp: list_all2_Cons2)
  have e: "tftp_packet s p n TFTP_DATA" "carries p (SERVER_port s) (of_nat k) c"
    using first by (simp_all add: data_frame_ok_def)
  define s1 where "s1 = (arrived s p n t)\<lparr>rx_kickofftime := t\<rparr>"
  have s1: "uploading s1 img data (of_nat k)" "txlog s1 = txlog s" "flash s1 = flash s" "\<not> jump_to_test s1"
      "autoBurn s1 = autoBurn s"
    using Cons.prems(1,2) by (simp_all add: s1_def arrived_def uploading_def macs_ok_def)
  define s2 where "s2 = stamp (stored s1 c)"
  have len: "length c = 512" using Cons.prems(3) by simp
  have up: "uploading s2 img (data @ c) (of_nat (Suc k))" "upload_frame s1 s2"
    using stored_uploading [OF s1(1), of c] Cons.prems(5) by (simp_all add: s2_def add.commute)
  obtain f where f: "txlog s2 = txlog s @ [f]" "drop 42 f = ack_payload k"
    using stored_txlog [of s1 c] s1 by (auto simp: uploading_def ack_payload_def s2_def)
  have same: "\<not> jump_to_test s2" "autoBurn s2 = autoBurn s" "flash s2 = flash s" "same_addresses s s2"
    using up s1 Cons.prems(1,2)
    by (auto simp: upload_frame_def same_addresses_def uploading_def s1_def arrived_def)
  have "net_step (Some s) (p, n, t) = prepareACK s1"
    unfolding s1_def by (rule net_step_data) (use Cons.prems(1) e(1) in \<open>auto simp: uploading_def\<close>)
  also have "\<dots> = Some s2"
    using prepareACK_stored [of s1 c] s1(1) e(2) len
    by (simp add: s1_def arrived_def uploading_def s2_def)
  finally have step: "net_step (Some s) (p, n, t) = Some s2" .
  have "data_frame_ok s2 = data_frame_ok s"
    using tftp_packet_cong [OF same(4)] same(4)
    by (intro ext) (simp add: data_frame_ok_def same_addresses_def split: prod.split)
  then have "\<exists>t acks. run_events net_step (Some s2) es' = after_upload t img (length ((data @ c) @ concat chunks @ rest))
    \<and> finished t img ((data @ c) @ concat chunks @ rest) \<and> flash t = flash s2 \<and> run t = Running
    \<and> autoBurn t = autoBurn s2 \<and> txlog t = txlog s2 @ acks
    \<and> map (drop 42) acks = map ack_payload [Suc k..<Suc (Suc k + length chunks)]"
    using Cons.prems rest by (intro Cons.IH [OF up(1) same(1)]) auto
  then obtain t acks where r: "run_events net_step (Some s2) es' = after_upload t img (length ((data @ c) @ concat chunks @ rest))"
    "finished t img ((data @ c) @ concat chunks @ rest)" "flash t = flash s2" "run t = Running"
    "autoBurn t = autoBurn s2" "txlog t = txlog s2 @ acks"
    "map (drop 42) acks = map ack_payload [Suc k..<Suc (Suc k + length chunks)]" by blast
  have "[k..<Suc (k + length (c # chunks))] = k # [Suc k..<Suc (Suc k + length chunks)]"
    by (subst upt_conv_Cons) simp_all
  then show ?case
    using r f same by (intro exI [of _ t] exI [of _ "f # acks"]) (simp add: es step del: upt_Suc)
qed

definition idle :: "'a tftp_state_scheme \<Rightarrow> bool" where
  "idle s \<longleftrightarrow> tftpd_is_ready s \<and> \<not> tftp_client_enabled s \<and> run s = Running \<and> macs_ok s
     \<and> bootState s = BOOT_STATE0_INIT_ARP \<and> \<not> one_tftp_lock s"

lemma net_step_write:
  assumes "idle s" "tftp_packet s p n TFTP_WRQ" "udp_dest p = htons TFTP_PORT"
    and "is_cstr p (o_tftp + 2) name" "\<not> sublist TEST_FILENAME name" "name \<noteq> BOOT_FILENAME"
  shows "net_step (Some s) (p, n, t) = Some (write_started ((arrived s p n t)\<lparr>rx_kickofftime := t\<rparr>))"
proof -
  let ?s = "(arrived s p n t)\<lparr>rx_kickofftime := t\<rparr>"
  have "setTFTP_WRQ ?s = Some (write_started ?s)"
    by (rule setTFTP_WRQ_started) (use assms in \<open>simp_all add: arrived_def idle_def\<close>)
  then show ?thesis
    using assms(1,2) net_step_tftp [of s p n TFTP_WRQ t]
    by (simp add: idle_def tftp_event_def arrived_def tftp_packet_def kick_def Let_def)
qed

text \<open>C4: A client that writes a file to the idle server in blocks of 512 bytes with a shorter last one,
  under a name that is not \<^verbatim>\<open>boot.img\<close> and does not contain \<^verbatim>\<open>nfjrom\<close> (those are started, not
  burnt) and while no start is pending (\<open>jump_to_test\<close>), has every block acknowledged in order,
  and at the end the session is closed and the memory at the image address holds exactly the file;
  if burning is on, \<open>checkAutoFlashing\<close> is called on it.\<close>

theorem tftp_upload_stores_file:
  assumes "idle s" "\<not> jump_to_test s"
    and "tftp_packet s p n TFTP_WRQ" "udp_dest p = htons TFTP_PORT"
    and "is_cstr p (o_tftp + 2) name" "\<not> sublist TEST_FILENAME name" "name \<noteq> BOOT_FILENAME"
    and "\<forall>c \<in> set chunks. length c = 512" "length rest < 512"
    and "file = concat chunks @ rest" "length file < 2 ^ 32"
    and "list_all2 (data_frame_ok s) es (enumerate 1 (chunks @ [rest]))"
  shows "\<exists>t acks. run_events net_step (Some s) ((p, n, t0) # es) = after_upload t (image_address s) (length file)
    \<and> finished t (image_address s) file \<and> flash t = flash s \<and> run t = Running \<and> autoBurn t = autoBurn s
    \<and> txlog t = txlog s @ acks \<and> map (drop 42) acks = map ack_payload [0..<length chunks + 2]"
proof -
  define s0 where "s0 = (arrived s p n t0)\<lparr>rx_kickofftime := t0\<rparr>"
  define s1 where "s1 = write_started s0"
  have step: "net_step (Some s) (p, n, t0) = Some s1"
    unfolding s1_def s0_def by (rule net_step_write [OF assms(1,3-7)])
  have s0: "tftpd_is_ready s0" "\<not> tftp_client_enabled s0" "run s0 = Running" "macs_ok s0"
      "image_address s0 = image_address s" "flash s0 = flash s" "SERVER_port s0 = SERVER_port s"
      "autoBurn s0 = autoBurn s" "\<not> jump_to_test s0" "arptable_tftp s0 = arptable_tftp s" "txlog s0 = txlog s"
    using assms(1,2) by (simp_all add: idle_def s0_def arrived_def macs_ok_def)
  note w = write_started_uploading [OF s0(1-4), folded s1_def, unfolded s0]
  have same: "same_addresses s s1"
    using w(1,3,6,7) s0 assms(1) by (simp add: same_addresses_def uploading_def idle_def)
  have ok: "data_frame_ok s1 = data_frame_ok s"
    using tftp_packet_cong [OF same] same
    by (intro ext) (simp add: data_frame_ok_def same_addresses_def split: prod.split)
  obtain a where a: "txlog s1 = txlog s @ [a]" "drop 42 a = ack_payload 0"
    using w(8) s0(4,11) by (simp add: s1_def write_started_def Let_def ack_frame_body macs_ok_def ack_payload_def)
  obtain t acks where r: "run_events net_step (Some s1) es = after_upload t (image_address s) (length file)"
    "finished t (image_address s) file" "flash t = flash s1" "run t = Running" "autoBurn t = autoBurn s1"
    "txlog t = txlog s1 @ acks" "map (drop 42) acks = map ack_payload [1..<Suc (1 + length chunks)]"
    using upload_blocks [of s1 "image_address s" "[]" 1 chunks rest es] w(1,5) s0(9) assms(8-12) ok
    by (auto simp del: upt_Suc)
  have "[0..<length chunks + 2] = 0 # [1..<Suc (1 + length chunks)]"
    by (subst upt_conv_Cons) simp_all
  then show ?thesis
    using r a w(2,4) by (intro exI [of _ t] exI [of _ "a # acks"]) (simp add: step del: upt_Suc)
qed

text \<open>Frames in the format the boot code sends itself pass the guards.\<close>

definition tftp_bytes :: "u32 \<Rightarrow> u32 \<Rightarrow> u16 \<Rightarrow> u16 \<Rightarrow> u16 \<Rightarrow> u8 list \<Rightarrow> buffer" where
  "tftp_bytes src dst sport dport opcode body = buf_of (
     [0x56, 0xaa, 0xa5, 0x5a, 0x7d, 0xe8, 2, 0, 0, 0, 0, 1, 8, 0]
       @ ip_header (of_nat (30 + length body)) src dst @ udp_header sport dport (of_nat (10 + length body))
       @ bytes16 (htons opcode) @ body)"

lemma buf_of_skip: "length pre = k \<Longrightarrow> buf_of (pre @ xs) (k + i) = buf_of xs i"
  by (simp add: buf_of_append2)

lemma tftp_bytes_at:
  "tftp_bytes src dst sport dport opcode body (14 + i) =
     buf_of (ip_header (of_nat (30 + length body)) src dst @ udp_header sport dport (of_nat (10 + length body))
       @ bytes16 (htons opcode) @ body) i"
  unfolding tftp_bytes_def by (rule buf_of_skip) simp

lemma tftp_bytes_udp:
  "tftp_bytes src dst sport dport opcode body (34 + i) =
     buf_of (udp_header sport dport (of_nat (10 + length body)) @ bytes16 (htons opcode) @ body) i"
  using tftp_bytes_at [of src dst sport dport opcode body "20 + i"] by (simp add: buf_of_skip)

lemma tftp_bytes_body: "tftp_bytes src dst sport dport opcode body (44 + i) = buf_of body i"
  using tftp_bytes_udp [of src dst sport dport opcode body "10 + i"] by (simp add: buf_of_append2)

lemma tftp_bytes_ip: "i < 20 \<Longrightarrow>
  tftp_bytes src dst sport dport opcode body (14 + i) = ip_header (of_nat (30 + length body)) src dst ! i"
  by (simp add: tftp_bytes_at buf_of_append1 buf_of_nth nth_append)

lemma tftp_bytes_fields:
  "get16 (tftp_bytes src dst sport dport opcode body) 12 = htons FRAME_IP"
  "tftp_bytes src dst sport dport opcode body o_ip = 0x45"
  "get32 (tftp_bytes src dst sport dport opcode body) (o_ip + 16) = dst"
  "tftp_bytes src dst sport dport opcode body (o_ip + 9) = IP_UDP"
  "ipheader_chksum (\<lambda>k. tftp_bytes src dst sport dport opcode body (o_ip + k)) SIZEOF_IPHDR = 0"
  "udp_dest (tftp_bytes src dst sport dport opcode body) = htons dport"
  "udp_len (tftp_bytes src dst sport dport opcode body) = htons (of_nat (10 + length body))"
  "get16 (tftp_bytes src dst sport dport opcode body) o_tftp = htons opcode"
proof -
  let ?p = "tftp_bytes src dst sport dport opcode body"
  note ip = tftp_bytes_ip [where src = src and dst = dst and sport = sport and dport = dport and opcode = opcode and body = body]
  note udp = tftp_bytes_udp [of src dst sport dport opcode body]
  show "get16 ?p 12 = htons FRAME_IP"
    by (simp add: get16_def tftp_bytes_def net_consts) (simp add: le16_def swab16_def)
  show "?p o_ip = 0x45" "?p (o_ip + 9) = IP_UDP" "get32 ?p (o_ip + 16) = dst"
    using ip [of 0] ip [of 9] ip [of 16] ip [of 17] ip [of 18] ip [of 19]
    by (simp_all add: o_ip_def get32_def ip_header_def ip_fields_def bytes16_def bytes32_def)
  show "ipheader_chksum (\<lambda>k. ?p (o_ip + k)) SIZEOF_IPHDR = 0"
    unfolding o_ip_def tftp_bytes_at [abs_def] by (rule ip_header_verifies)
  show "udp_dest ?p = htons dport" "udp_len ?p = htons (of_nat (10 + length body))" "get16 ?p o_tftp = htons opcode"
    using udp [of 2] udp [of 3] udp [of 4] udp [of 5] udp [of 8] udp [of 9]
    by (simp_all add: udp_dest_def udp_len_def o_udp_def o_tftp_def get16_def udp_header_def bytes16_def)
qed

lemma tftp_bytes_packet:
  "for_us s dst \<Longrightarrow> dport \<noteq> 67 \<Longrightarrow> 42 < n \<Longrightarrow> tftp_packet s (tftp_bytes src dst sport dport opcode body) n opcode"
  using tftp_bytes_fields(8) [unfolded o_tftp_def] by (simp add: tftp_packet_def tftp_bytes_fields o_tftp_def)

lemma tftp_bytes_carries:
  assumes "length chunk \<le> 512"
  shows "carries (tftp_bytes src dst sport port TFTP_DATA (bytes16 (htons k) @ chunk)) port k chunk"
proof -
  let ?p = "tftp_bytes src dst sport port TFTP_DATA (bytes16 (htons k) @ chunk)"
  note body = tftp_bytes_body [where body = "bytes16 (htons k) @ chunk" and src = src and dst = dst and sport = sport
      and dport = port and opcode = TFTP_DATA]
  have "get16 ?p 44 = htons k"
    using body [of 0] body [of 1] by (simp add: get16_def bytes16_def)
  moreover have "get_bytes ?p (o_tftp + 4) (length chunk) = chunk"
    using body [of "2 + _"] by (intro nth_equalityI) (simp_all add: o_tftp_def buf_of_append2 buf_of_nth)
  ultimately show ?thesis
    using assms by (simp add: carries_def tftp_bytes_fields o_tftp_def)
qed

definition sample_net :: http_state where
  "sample_net = (sample_http no_session (\<lambda>_. 0))\<lparr>autoBurn := False\<rparr>"

lemma sample_net_fields:
  "idle sample_net" "\<not> jump_to_test sample_net" "SERVER_port sample_net = 2098" "image_address sample_net = FILESTART"
  "for_us sample_net (le32 192 168 1 6)" "\<not> autoBurn sample_net" "txlog sample_net = []"
  "tftpd_is_ready sample_net" "one_tftp_lock sample_net = False" "bootState sample_net = BOOT_STATE0_INIT_ARP"
  "it_is_EOF sample_net = False" "run sample_net = Running" "macs_ok sample_net" "\<not> tftp_client_enabled sample_net"
  by (simp_all add: sample_net_def sample_http_def sample_dhcp_def dhcp_state.defs idle_def macs_ok_def for_us_def
      sample_boot_def TFTP_SERVER_def)

lemma tftp_upload_stores_file_witness:
  "\<exists>t acks. run_events net_step (Some sample_net)
      [(tftp_bytes (le32 192 168 1 20) (le32 192 168 1 6) 1200 69 TFTP_WRQ (ascii ''fw'' @ [0] @ ascii ''octet'' @ [0]), 60, 1),
       (tftp_bytes (le32 192 168 1 20) (le32 192 168 1 6) 1200 2098 TFTP_DATA (bytes16 (htons 1) @ replicate 512 7), 558, 2),
       (tftp_bytes (le32 192 168 1 20) (le32 192 168 1 6) 1200 2098 TFTP_DATA (bytes16 (htons 2) @ [1, 2, 3]), 60, 3)]
      = Some (stamp t) \<and> finished t FILESTART (replicate 512 7 @ [1, 2, 3]) \<and> txlog t = acks \<and> length acks = 3"
proof -
  let ?src = "le32 192 168 1 20" and ?dst = "le32 192 168 1 6"
  let ?w = "tftp_bytes ?src ?dst 1200 69 TFTP_WRQ (ascii ''fw'' @ [0] @ ascii ''octet'' @ [0])"
  let ?d = "\<lambda>k c. tftp_bytes ?src ?dst 1200 2098 TFTP_DATA (bytes16 (htons k) @ c)"
  have name: "is_cstr ?w (o_tftp + 2) (ascii ''fw'')"
    using tftp_bytes_body [of ?src ?dst 1200 69 TFTP_WRQ "ascii ''fw'' @ [0] @ ascii ''octet'' @ [0]" 0]
      tftp_bytes_body [of ?src ?dst 1200 69 TFTP_WRQ "ascii ''fw'' @ [0] @ ascii ''octet'' @ [0]" 1]
      tftp_bytes_body [of ?src ?dst 1200 69 TFTP_WRQ "ascii ''fw'' @ [0] @ ascii ''octet'' @ [0]" 2]
    by (simp add: o_tftp_def ascii_def)
  have data: "list_all2 (data_frame_ok sample_net) [(?d 1 (replicate 512 7), 558, 2), (?d 2 [1, 2, 3], 60, 3)]
      (enumerate 1 ([replicate 512 7] @ [[1, 2, 3]]))"
    using sample_net_fields(5)
    by (simp add: data_frame_ok_def tftp_bytes_packet sample_net_fields(3)) (simp add: tftp_bytes_carries)
  obtain t acks where r: "run_events net_step (Some sample_net)
      ((?w, 60, 1) # [(?d 1 (replicate 512 7), 558, 2), (?d 2 [1, 2, 3], 60, 3)])
      = after_upload t (image_address sample_net) (length (replicate 512 7 @ [1, 2, 3] :: u8 list))"
    "finished t (image_address sample_net) (replicate 512 7 @ [1, 2, 3])" "autoBurn t = autoBurn sample_net"
    "txlog t = txlog sample_net @ acks" "map (drop 42) acks = map ack_payload [0..<length [replicate 512 (7 :: u8)] + 2]"
    using tftp_upload_stores_file [OF sample_net_fields(1,2) _ _ name, where n = 60 and ?t0.0 = 1
        and chunks = "[replicate 512 7]" and rest = "[1, 2, 3]" and ?file = "replicate 512 7 @ [1, 2, 3]", OF _ _ _ _ _ _ _ _ data]
      sample_net_fields(5)
    by (auto simp: tftp_bytes_packet tftp_bytes_fields TFTP_PORT_def ascii_def TEST_FILENAME_def BOOT_FILENAME_def sublist_code)
  have "length acks = 3" using arg_cong [OF r(5), of length] by simp
  then show ?thesis using r sample_net_fields by (auto simp: after_upload_def)
qed

text \<open>During an upload a data packet with any other block number than the expected one, such as a
  retransmission, does not touch the bytes received; the last accepted block is acknowledged again.\<close>

theorem tftp_wrong_block_reacked:
  assumes "uploading s img data k" "tftp_packet s p n TFTP_DATA" "udp_dest p = htons (SERVER_port s)"
    and "ntohs (get16 p (o_tftp + 2)) \<noteq> k"
  shows "\<exists>u f. net_step (Some s) (p, n, t) = Some u \<and> uploading u img data k \<and> flash u = flash s
    \<and> txlog u = txlog s @ [f] \<and> drop 42 f = bytes16 (htons 4) @ bytes16 (htons (k - 1))"
proof -
  define s1 where "s1 = (arrived s p n t)\<lparr>rx_kickofftime := t\<rparr>"
  define s2 where "s2 = s1\<lparr>CLIENT_port := ntohs (udp_src p)\<rparr>"
  have s2: "uploading s2 img data k" "txlog s2 = txlog s" "flash s2 = flash s" "macs_ok s2"
    using assms(1) by (simp_all add: s2_def s1_def arrived_def uploading_def macs_ok_def)
  have step: "net_step (Some s) (p, n, t) = prepareACK s1"
    unfolding s1_def by (rule net_step_data) (use assms(1,2) in \<open>auto simp: uploading_def\<close>)
  have "prepareACK s1 = Some (tftpd_send_ack (k - 1) s2)"
    using prepareACK_wrong_block [of s1] assms
    by (simp add: s1_def s2_def arrived_def uploading_def)
  then have "net_step (Some s) (p, n, t) = Some (s2\<lparr>txlog := txlog s @ [ack_frame s2 (k - 1)]\<rparr>)"
    by (simp only: step tftpd_send_ack_alt s2(2))
  moreover have "uploading (s2\<lparr>txlog := x\<rparr>) img data k" for x
    using s2(1) by (simp add: uploading_def macs_ok_def)
  ultimately show ?thesis using s2(3) ack_frame_body [OF s2(4)] by auto
qed

lemma tftp_wrong_block_reacked_witness:
  "\<exists>u f. net_step (Some ((write_started sample_net)))
      (tftp_bytes (le32 192 168 1 20) (le32 192 168 1 6) 1200 2098 TFTP_DATA (bytes16 (htons 5) @ [1]), 60, 9) = Some u
    \<and> uploading u FILESTART [] 1 \<and> drop 42 f = bytes16 (htons 4) @ bytes16 (htons 0)"
proof -
  let ?p = "tftp_bytes (le32 192 168 1 20) (le32 192 168 1 6) 1200 2098 TFTP_DATA (bytes16 (htons 5) @ [1])"
  note w = write_started_uploading [of sample_net] sample_net_fields
  have up: "uploading (write_started sample_net) FILESTART [] 1" "SERVER_port (write_started sample_net) = 2098"
    using w by simp_all
  have same: "same_addresses sample_net (write_started sample_net)"
    using w up by (simp add: same_addresses_def uploading_def)
  have "tftp_packet (write_started sample_net) ?p 60 TFTP_DATA"
    unfolding tftp_packet_cong [OF same] using w by (intro tftp_bytes_packet) simp_all
  moreover have "ntohs (get16 ?p (o_tftp + 2)) = 5"
    using tftp_bytes_carries [of "[1]" "le32 192 168 1 20" "le32 192 168 1 6" 1200 2098 5]
    by (simp add: carries_def)
  ultimately show ?thesis
    using tftp_wrong_block_reacked [OF up(1), of ?p 60 9] by (auto simp: tftp_bytes_fields up(2))
qed

section \<open>Downloads\<close>






section \<open>Locking\<close>

lemma tftp_lock_excludes_step:
  assumes "run s = Running" "one_tftp_lock s"
    and "tftp_packet s p n TFTP_RRQ
      \<or> tftp_packet s p n TFTP_WRQ \<and> block_expected s \<noteq> 1 \<and> t - rx_kickofftime s \<le> 2000"
  shows "net_step (Some s) (p, n, t) = Some (arrived s p n t)"
proof -
  have "tftp_event (arrived s p n t) = Some (None, arrived s p n t)"
    using assms(3)
  proof (elim disjE conjE)
    assume "tftp_packet s p n TFTP_RRQ"
    then show ?thesis using assms(2) by (simp add: tftp_event_def arrived_def tftp_packet_def)
  next
    assume w: "tftp_packet s p n TFTP_WRQ" "block_expected s \<noteq> 1" "t - rx_kickofftime s \<le> 2000"
    then have "\<not> t - rx_kickofftime s > 2000" by (simp only: not_less)
    then show ?thesis using assms(2) w(1,2) by (simp add: tftp_event_def arrived_def tftp_packet_def)
  qed
  then have "net_step (Some s) (p, n, t) = kick None (arrived s p n t)" if "tftp_packet s p n opcode" for opcode
    using net_step_tftp [OF assms(1) that, of t] by simp
  then show ?thesis
    using assms(3) unfolding kick_def by auto
qed

text \<open>C22: While a session holds the lock, read requests of other clients are ignored, and so are write
  requests as long as the session is past its first block and its last packet came at most 2000
  ticks (20 s) ago.\<close>

theorem tftp_lock_excludes:
  assumes "run s = Running" "one_tftp_lock s"
    and "tftp_packet s p n TFTP_RRQ
      \<or> tftp_packet s p n TFTP_WRQ \<and> block_expected s \<noteq> 1 \<and> t - rx_kickofftime s \<le> 2000"
  shows "net_step (Some s) (p, n, t) = Some (arrived s p n t)"
  using assms by (rule tftp_lock_excludes_step)

lemma tftp_lock_excludes_witness:
  "\<exists>p. net_step (Some (sample_net\<lparr>one_tftp_lock := True, block_expected := 7\<rparr>)) (p, 60, 1500)
     = Some (arrived (sample_net\<lparr>one_tftp_lock := True, block_expected := 7\<rparr>) p 60 1500)"
proof -
  let ?s = "sample_net\<lparr>one_tftp_lock := True, block_expected := 7\<rparr>"
  have "for_us ?s (le32 192 168 1 6)" "run ?s = Running" "one_tftp_lock ?s"
    using sample_net_fields by (simp_all add: for_us_def)
  then show ?thesis
    using tftp_lock_excludes [of ?s "tftp_bytes 0 (le32 192 168 1 6) 1200 69 TFTP_RRQ []" 60 1500]
    by (auto simp: tftp_bytes_packet)
qed

lemma locked_reads:
  assumes "run s = Running" "one_tftp_lock s" "\<forall>(q, m, t) \<in> set es. tftp_packet s q m TFTP_RRQ"
  shows "\<exists>u. run_events net_step (Some s) es = Some u \<and> bootState u = bootState s \<and> one_tftp_lock u \<and> txlog u = txlog s"
  using assms
proof (induction es arbitrary: s)
  case (Cons e es)
  obtain q m t where e: "e = (q, m, t)" by (cases e)
  let ?u = "arrived s q m t"
  have "net_step (Some s) e = Some ?u"
    unfolding e by (rule tftp_lock_excludes_step) (use Cons.prems e in auto)
  moreover have "tftp_packet ?u = tftp_packet s"
    by (intro ext) (simp add: tftp_packet_def for_us_def arrived_def)
  ultimately show ?case using Cons.IH [of ?u] Cons.prems by (simp add: arrived_def)
qed simp

text \<open>C23: An error packet during a session sets the state machine back but leaves the lock: every read
  request that follows, however many come and however late, is ignored, as long as only read
  requests come (a write request would get through).\<close>

theorem tftp_error_keeps_lock:
  assumes "run s = Running" "tftpd_is_ready s" "\<not> tftp_client_enabled s" "one_tftp_lock s"
    and "bootState s = BOOT_STATE1_TFTP_CLIENT_RRQ \<or> bootState s = BOOT_STATE2_TFTP_CLIENT_WRQ"
    and "tftp_packet s p n TFTP_ERROR" "\<forall>(q, m, t) \<in> set es. tftp_packet s q m TFTP_RRQ"
  shows "\<exists>u. run_events net_step (Some s) ((p, n, t0) # es) = Some u
    \<and> bootState u = BOOT_STATE0_INIT_ARP \<and> one_tftp_lock u \<and> txlog u = txlog s"
proof -
  let ?s = "arrived s p n t0"
  define u where "u = ?s\<lparr>bootState := BOOT_STATE0_INIT_ARP\<rparr>"
  have "tftp_event ?s = Some (Some BOOT_EVENT6_TFTP_ERROR, ?s)"
    using assms(5,6) by (auto simp: tftp_event_def arrived_def tftp_packet_def Let_def)
  then have step: "net_step (Some s) (p, n, t0) = Some u"
    using assms(1-3,5,6) net_step_tftp [of s p n TFTP_ERROR t0]
    by (auto simp: kick_def errorTFTP_def Let_def u_def arrived_def)
  have u: "run u = Running" "one_tftp_lock u" "bootState u = BOOT_STATE0_INIT_ARP" "txlog u = txlog s"
    using assms(1,4) by (simp_all add: u_def arrived_def)
  have "tftp_packet u = tftp_packet s"
    by (intro ext) (simp add: tftp_packet_def for_us_def arrived_def u_def)
  then show ?thesis using locked_reads [OF u(1,2), of es] assms(7) u by (simp add: step)
qed

lemma tftp_error_keeps_lock_witness:
  "\<exists>u p q. run_events net_step (Some (write_started sample_net)) [(p, 60, 5), (q, 60, 6), (q, 60, 999999)] = Some u
    \<and> bootState u = BOOT_STATE0_INIT_ARP \<and> one_tftp_lock u"
proof -
  let ?s = "write_started sample_net"
  note w = write_started_uploading [of sample_net] sample_net_fields
  have up: "uploading ?s FILESTART [] 1" using w by simp
  have same: "same_addresses sample_net ?s"
    using w up by (simp add: same_addresses_def uploading_def)
  have "tftp_packet ?s (tftp_bytes 0 (le32 192 168 1 6) 1200 2098 TFTP_ERROR []) 60 TFTP_ERROR"
    "tftp_packet ?s (tftp_bytes 0 (le32 192 168 1 6) 1201 69 TFTP_RRQ []) 60 TFTP_RRQ"
    unfolding tftp_packet_cong [OF same] using w by (auto intro!: tftp_bytes_packet)
  then show ?thesis
    using tftp_error_keeps_lock [of ?s "tftp_bytes 0 (le32 192 168 1 6) 1200 2098 TFTP_ERROR []" 60
        "[(tftp_bytes 0 (le32 192 168 1 6) 1201 69 TFTP_RRQ [], 60, 6), (tftp_bytes 0 (le32 192 168 1 6) 1201 69 TFTP_RRQ [], 60, 999999)]" 5] up
    by (fastforce simp: uploading_def)
qed

section \<open>Frames that are not for the server\<close>

text \<open>An IP frame that is too short, has IP options, is addressed to another host or fails its
  header checksum is dropped: no handler runs and nothing is sent.\<close>

theorem bad_ip_frame_dropped:
  assumes "run s = Running" "get16 p 12 = htons FRAME_IP"
    and "n \<le> o_tftp \<or> p o_ip \<noteq> 0x45 \<or> \<not> for_us s (get32 p (o_ip + 16))
      \<or> ipheader_chksum (\<lambda>k. p (o_ip + k)) SIZEOF_IPHDR \<noteq> 0"
  shows "net_step (Some s) (p, n, t) = Some (arrived s p n t)"
proof -
  have "\<not> ip_accepted (arrived s p n t)"
    using assms(3) by (auto simp: ip_accepted_def arrived_def for_us_def)
  moreover have "htons FRAME_ARP \<noteq> htons FRAME_IP" by (simp add: net_consts)
  moreover have "0 \<noteq> htons FRAME_ARP" "0 \<noteq> htons FRAME_IP" by (simp_all add: net_consts swab16_def)
  ultimately show ?thesis
    using assms(1,2) by (simp add: net_step_def kick_tftpd_def arrived_def)
qed

lemma bad_ip_frame_dropped_witness:
  "\<exists>p. net_step (Some sample_net) (p, 60, 3) = Some (arrived sample_net p 60 3) \<and> get16 p 12 = htons FRAME_IP"
proof -
  let ?p = "tftp_bytes 0 (le32 10 0 0 1) 1200 69 TFTP_RRQ []"
  have "\<not> for_us sample_net (le32 10 0 0 1)"
    by (simp add: for_us_def sample_net_def sample_http_def sample_dhcp_def dhcp_state.defs sample_boot_def
        TFTP_SERVER_def HTTPD_ARPENTRY_def) (simp add: le32_def)
  then show ?thesis
    using bad_ip_frame_dropped [of sample_net ?p 60 3] sample_net_fields by (auto simp: tftp_bytes_fields)
qed

section \<open>ARP\<close>

text \<open>An ARP request for the server's address is answered with a reply that carries the server's
  hardware address and goes to the requester; nothing else changes.\<close>

theorem arp_request_answered:
  assumes "run s = Running" "\<not> tftp_client_enabled s" "42 \<le> n" "get16 p 12 = htons FRAME_ARP"
    and "get16 p (o_ip + 6) = htons ARP_REQUEST"
    and "get32 p (o_ip + 24) = ipaddr (arptable_tftp s TFTP_SERVER)"
    and "ipaddr (arptable_tftp s TFTP_SERVER) \<noteq> ipaddr (arptable_tftp s HTTPD_ARPENTRY)"
  shows "net_step (Some s) (p, n, t) = Some ((arrived s p n t)\<lparr>txlog := txlog s @
    [prepare_txpkt (eth0_mac s) FRAME_ARP (get_bytes p (o_ip + 8) 6)
       (arp_body 2 (node (arptable_tftp s TFTP_SERVER)) (ipaddr (arptable_tftp s TFTP_SERVER))
         (get_bytes p (o_ip + 8) 6) (get32 p (o_ip + 14)))]\<rparr>)"
proof -
  have "arp_event (arrived s p n t) = Some BOOT_EVENT0_ARP_REQ"
    using assms by (simp add: arp_event_def arrived_def)
  then have "net_step (Some s) (p, n, t) = doARPReply (arrived s p n t)"
    using assms(1,3,4) by (simp add: net_step_def kick_tftpd_def arrived_def kick_def net_consts)
  then show ?thesis
    using assms(2,6,7) by (simp add: doARPReply_def arrived_def send_def Let_def)
qed

lemma arp_request_answered_witness:
  "\<exists>p f. net_step (Some sample_net) (p, 42, 3) = Some ((arrived sample_net p 42 3)\<lparr>txlog := [f]\<rparr>)
    \<and> take 6 f = [2, 0, 0, 0, 0, 1]"
proof -
  define p where "p = buf_of ([255, 255, 255, 255, 255, 255, 2, 0, 0, 0, 0, 1] @ bytes16 (htons FRAME_ARP)
    @ arp_body 1 [2, 0, 0, 0, 0, 1] (le32 192 168 1 20) [0, 0, 0, 0, 0, 0] (le32 192 168 1 6))"
  have bytes: "get16 p 12 = htons FRAME_ARP" "get16 p (o_ip + 6) = htons ARP_REQUEST"
    "get32 p (o_ip + 24) = le32 192 168 1 6" "get_bytes p (o_ip + 8) 6 = [2, 0, 0, 0, 0, 1]"
    by (simp_all add: p_def get16_def get32_def get_bytes_def o_ip_def arp_body_def bytes16_def bytes32_def upt_conv_Cons
        buf_of_append2 ARP_REQUEST_def)
  have s: "ipaddr (arptable_tftp sample_net TFTP_SERVER) = le32 192 168 1 6"
    "ipaddr (arptable_tftp sample_net HTTPD_ARPENTRY) = le32 192 168 1 8"
    by (simp_all add: sample_net_def sample_http_def sample_dhcp_def dhcp_state.defs sample_boot_def
        TFTP_SERVER_def HTTPD_ARPENTRY_def)
  have "net_step (Some sample_net) (p, 42, 3) = Some ((arrived sample_net p 42 3)\<lparr>txlog := txlog sample_net @
    [prepare_txpkt (eth0_mac sample_net) FRAME_ARP (get_bytes p (o_ip + 8) 6)
       (arp_body 2 (node (arptable_tftp sample_net TFTP_SERVER)) (ipaddr (arptable_tftp sample_net TFTP_SERVER))
         (get_bytes p (o_ip + 8) 6) (get32 p (o_ip + 14)))]\<rparr>)"
    by (rule arp_request_answered) (use bytes s sample_net_fields in simp_all)
  then have "net_step (Some sample_net) (p, 42, 3) = Some ((arrived sample_net p 42 3)\<lparr>txlog :=
    [prepare_txpkt (eth0_mac sample_net) FRAME_ARP [2, 0, 0, 0, 0, 1]
       (arp_body 2 (node (arptable_tftp sample_net TFTP_SERVER)) (ipaddr (arptable_tftp sample_net TFTP_SERVER))
         [2, 0, 0, 0, 0, 1] (get32 p (o_ip + 14)))]\<rparr>)"
    unfolding bytes(4) sample_net_fields(7) append_Nil .
  moreover have "take 6 (prepare_txpkt m ty [2, 0, 0, 0, 0, 1] d) = [2, 0, 0, 0, 0, 1]" for m ty d
    by (simp add: prepare_txpkt_def)
  ultimately show ?thesis by blast
qed

end
