(* ===== verification/Netinv.thy ===== *)
theory Netinv
  imports Netboot
begin

text \<open>
  The invariant of all network sessions together (\<^verbatim>\<open>CmdEthStartup\<close> of
  \<^verbatim>\<open>boot/init/utility.c\<close> and every frame after it): TFTP transfers hold the lock, the client
  states occur only in client mode, a web session without a peer is closed, and the lease
  table is sound. The frame dispatcher \<open>net_step\<close> is an \<open>event_machine\<close> for it.
\<close>

section \<open>The invariant\<close>

definition tftp_inv :: "'a tftp_state_scheme \<Rightarrow> bool" where
  "tftp_inv s \<longleftrightarrow>
     (bootState s \<in> {BOOT_STATE1_TFTP_CLIENT_RRQ, BOOT_STATE2_TFTP_CLIENT_WRQ} \<longrightarrow> one_tftp_lock s)
     \<and> (bootState s \<in> {BOOT_STATE3_TFTP_SERVER_DATA, BOOT_STATE4_TFTP_SERVER_DATA} \<longrightarrow> tftp_client_enabled s)"

definition http_inv :: "'a http_state_scheme \<Rightarrow> bool" where
  "http_inv s \<longleftrightarrow>
     (\<not> sessionsaved (utcp_info s) \<longrightarrow> tcpi_state (utcp_info s) = TCP_CLOSE \<and> \<not> uploadstarted (utcp_info s))
     \<and> foundboundary s \<le> 2"

definition net_inv :: "'a http_state_scheme \<Rightarrow> bool" where
  "net_inv s \<longleftrightarrow> tftp_inv s \<and> table_ok s \<and> http_inv s"

text \<open>Burning an image changes the flash and the run status only.\<close>

lemma check_one_flash:
  "check_one s sa head sk rb = Stop s' \<Longrightarrow> \<exists>fl. s' = s\<lparr>flash := fl\<rparr>"
  "check_one s sa head sk rb = Next s' h k r \<Longrightarrow> \<exists>fl. s' = s\<lparr>flash := fl\<rparr>"
proof -
  have same: "\<exists>fl. s = s\<lparr>flash := fl\<rparr>" by (rule exI [of _ "flash s"]) simp
  show "check_one s sa head sk rb = Stop s' \<Longrightarrow> \<exists>fl. s' = s\<lparr>flash := fl\<rparr>"
    unfolding check_one_def Let_def using same by (auto split: if_splits prod.splits option.splits)
  show "check_one s sa head sk rb = Next s' h k r \<Longrightarrow> \<exists>fl. s' = s\<lparr>flash := fl\<rparr>"
    unfolding check_one_def Let_def using same by (auto split: if_splits prod.splits option.splits)
qed

lemma flashing_loop_flash:
  assumes "flashing_loop s sa len head sk rb = Some y"
  shows "\<exists>fl. fst y = s\<lparr>flash := fl\<rparr>"
proof (rule flashing_loop.raw_induct [where P = "\<lambda>s sa len head sk rb y. \<exists>fl. fst y = s\<lparr>flash := fl\<rparr>", OF _ assms])
  fix f :: "'a boot_state_scheme \<Rightarrow> u32 \<Rightarrow> u32 \<Rightarrow> u32 \<Rightarrow> bool \<Rightarrow> bool \<Rightarrow> ('a boot_state_scheme \<times> bool) option"
  fix s sa len head sk rb y
  assume IH: "\<And>s sa len head sk rb y. f s sa len head sk rb = Some y \<Longrightarrow> \<exists>fl. fst y = s\<lparr>flash := fl\<rparr>"
    and run: "(if head + SIZEOF_IMG_HEADER < len
      then case check_one s sa head sk rb of Stop s' \<Rightarrow> Some (s', False)
           | Stuck \<Rightarrow> None
           | Next s' head' sk' rb' \<Rightarrow> f s' sa len head' sk' rb' else Some (s, rb)) = Some y"
  show "\<exists>fl. fst y = s\<lparr>flash := fl\<rparr>"
  proof (cases "head + SIZEOF_IMG_HEADER < len")
    case False
    then show ?thesis using run by (auto intro: exI [of _ "flash s"])
  next
    case True
    show ?thesis
    proof (cases "check_one s sa head sk rb")
      case (Stop s')
      then show ?thesis using run True check_one_flash(1) [OF Stop] by auto
    next
      case (Next s' h k r)
      obtain fl where "s' = s\<lparr>flash := fl\<rparr>" using check_one_flash(2) [OF Next] by blast
      moreover obtain fl' where "fst y = s'\<lparr>flash := fl'\<rparr>" using IH [of s' sa len h k r y] run True Next by auto
      ultimately show ?thesis by auto
    next
      case Stuck
      then show ?thesis using run True by simp
    qed
  qed
qed

lemma checkAutoFlashing_flash:
  "checkAutoFlashing s sa len = Some t \<Longrightarrow> \<exists>fl r. t = s\<lparr>flash := fl, run := r\<rparr>"
proof -
  assume run: "checkAutoFlashing s sa len = Some t"
  then obtain s' rb where l: "flashing_loop s sa len 0 False False = Some (s', rb)"
    "t = (if rb then autoreboot s' else s')"
    by (auto simp: checkAutoFlashing_def split: option.splits)
  obtain fl where "s' = s\<lparr>flash := fl\<rparr>" using flashing_loop_flash [OF l(1)] by auto
  then have "t = s\<lparr>flash := fl, run := (if rb then Rebooted else run s)\<rparr>"
    using l(2) by (simp add: autoreboot_def)
  then show ?thesis by blast
qed

section \<open>TFTP\<close>

lemma tftp_inv_flash [simp]: "tftp_inv (s\<lparr>flash := fl, run := r\<rparr>) = tftp_inv s"
  by (simp add: tftp_inv_def)

text \<open>The client bit and the lock matter only through the state.\<close>

lemma tftp_inv_send [simp]:
  "tftp_inv (s\<lparr>txlog := x\<rparr>) = tftp_inv s"
  by (simp add: tftp_inv_def)

lemma tftp_inv_arrived [simp]: "tftp_inv (arrived s p n t) = tftp_inv s"
  by (simp add: tftp_inv_def arrived_def)

text \<open>\<open>same_sessions\<close>: nothing the invariant speaks about has changed.\<close>

definition same_sessions :: "'a tftp_state_scheme \<Rightarrow> 'a tftp_state_scheme \<Rightarrow> bool" where
  "same_sessions s t \<longleftrightarrow> bootState t = bootState s \<and> one_tftp_lock t = one_tftp_lock s
     \<and> tftp_client_enabled t = tftp_client_enabled s \<and> tftp_state.more t = tftp_state.more s"

lemma sends_same:
  "same_sessions s (tftpd_send_ack k s)" "tftpd_send_data k s = Some t \<Longrightarrow> same_sessions s t"
  "same_sessions s (memorize_client s)"
  by (auto simp: same_sessions_def tftpd_send_ack_def tftpd_send_data_def send_def memorize_client_def
      set_arp_def Let_def split: prod.splits option.splits)

text \<open>What each handler does to state, lock and client mode.\<close>

lemma upload_done_inv: "upload_done s = Some t \<Longrightarrow> tftp_inv t \<and> tftp_state.more t = tftp_state.more s"
  by (auto simp: upload_done_def Let_def jump_to_image_def tftp_inv_def split: if_splits
      dest!: checkAutoFlashing_flash)

lemma more_stored: "tftp_state.more (stored s c) = tftp_state.more s"
  by (simp add: stored_def Let_def)

definition handler_ok :: "'a tftp_state_scheme \<Rightarrow> 'a tftp_state_scheme option \<Rightarrow> bool" where
  "handler_ok s r \<longleftrightarrow> (\<forall>t. r = Some t \<longrightarrow> tftp_inv s \<longrightarrow> tftp_inv t \<and> tftp_state.more t = tftp_state.more s)"

lemma handler_okI:
  "(\<And>t. r = Some t \<Longrightarrow> tftp_inv s \<Longrightarrow> tftp_inv t \<and> tftp_state.more t = tftp_state.more s) \<Longrightarrow> handler_ok s r"
  by (simp add: handler_ok_def)

lemma tftp_inv_stamp: "tftp_inv (s\<lparr>last_sent_time := x\<rparr>) = tftp_inv s"
  by (simp add: tftp_inv_def)

lemma prepareACK_ok: "handler_ok s (prepareACK s)"
  by (rule handler_okI)
     (auto simp: prepareACK_def Let_def tftpd_send_ack_alt tftp_inv_stamp tftp_inv_def split: if_splits
       dest!: upload_done_inv)

lemma prepareDATA_ok: "handler_ok s (prepareDATA s)"
  by (rule handler_okI)
     (auto simp: prepareDATA_def Let_def tftpd_send_data_def send_def tftp_inv_def split: if_splits prod.splits option.splits)

lemma errorTFTP_ok: "handler_ok s (errorTFTP s)"
  by (rule handler_okI) (auto simp: errorTFTP_def Let_def tftp_inv_def split: if_splits)

lemma doARPReply_ok: "handler_ok s (doARPReply s)"
  by (rule handler_okI) (auto simp: doARPReply_def Let_def send_def tftp_inv_def split: if_splits)

lemma updateARPTable_ok: "handler_ok s (updateARPTable s)"
  by (rule handler_okI)
     (auto simp: updateARPTable_def Let_def send_tftp_rrq_def send_def set_arp_def tftp_inv_def split: if_splits)

lemma setTFTP_RRQ_ok: "handler_ok s (setTFTP_RRQ s)"
  by (rule handler_okI)
     (auto simp: setTFTP_RRQ_def Let_def tftpd_send_data_def send_def memorize_client_def set_arp_def tftp_inv_def
       split: if_splits prod.splits option.splits)

lemma setTFTP_WRQ_ok: "handler_ok s (setTFTP_WRQ s)"
  by (rule handler_okI)
     (auto simp: setTFTP_WRQ_def Let_def tftpd_send_ack_alt memorize_client_def set_arp_def tftp_inv_def
       split: if_splits option.splits)

lemma errorDrop_ok: "handler_ok s (errorDrop s)"
  by (simp add: handler_ok_def errorDrop_def)

lemmas handlers_ok = prepareACK_ok prepareDATA_ok errorTFTP_ok doARPReply_ok updateARPTable_ok setTFTP_RRQ_ok
  setTFTP_WRQ_ok errorDrop_ok

lemma BootStateEvent_ok: "handler_ok s (BootStateEvent st e s)"
  by (cases st; cases e) (simp_all add: handlers_ok)

section \<open>The other servers\<close>

lemma more_table_ok: "tftp_state.more t = tftp_state.more s \<Longrightarrow> table_ok t = table_ok s"
  for s t :: "'a dhcp_state_scheme"
  by (cases s; cases t) (simp add: table_ok_def lease_inv_def in_pool_def)

lemma more_http_inv: "tftp_state.more t = tftp_state.more s \<Longrightarrow> http_inv t = http_inv s"
  for s t :: "'a http_state_scheme"
  by (cases s; cases t) (simp add: http_inv_def)

text \<open>\<open>same_tftp\<close>: the TFTP sessions are as they were.\<close>

definition same_tftp :: "'a tftp_state_scheme \<Rightarrow> 'b tftp_state_scheme \<Rightarrow> bool" where
  "same_tftp s t \<longleftrightarrow> bootState t = bootState s \<and> one_tftp_lock t = one_tftp_lock s
     \<and> tftp_client_enabled t = tftp_client_enabled s"

lemma same_tftp_inv: "same_tftp s t \<Longrightarrow> tftp_inv t = tftp_inv s"
  by (simp add: same_tftp_def tftp_inv_def)

lemma same_tftp_trans: "same_tftp s t \<Longrightarrow> same_tftp t u \<Longrightarrow> same_tftp s u"
  by (simp add: same_tftp_def)

definition dhcp_only :: "'a dhcp_state_scheme \<Rightarrow> 'a dhcp_state_scheme \<Rightarrow> bool" where
  "dhcp_only s t \<longleftrightarrow> same_tftp s t \<and> dhcp_state.more t = dhcp_state.more s"

lemma dhcp_only_refl [simp]: "dhcp_only s s"
  by (simp add: dhcp_only_def same_tftp_def)

lemma dhcp_only_trans: "dhcp_only s t \<Longrightarrow> dhcp_only t u \<Longrightarrow> dhcp_only s u"
  by (simp add: dhcp_only_def same_tftp_def)

lemma dhcp_only_packet [simp]: "dhcp_only s (send_packet m b s)"
  by (simp add: dhcp_only_def same_tftp_def send_packet_def send_packet_to_client_def raw_packet_def send_def
      Let_def split: prod.split)

lemma dhcp_only_lease [simp]: "dhcp_only s (snd (add_lease ch y l s))" "dhcp_only s (set_lease i f s)"
  by (simp_all add: dhcp_only_def same_tftp_def add_lease_def clear_lease_def set_lease_def Let_def
      split: option.split)

lemma dhcp_only_sendACK [simp]: "dhcp_only s (sendACK y s)"
  unfolding sendACK_def Let_def by (rule dhcp_only_trans [OF dhcp_only_packet dhcp_only_lease(1)])

lemma dhcp_only_sendOffer [simp]: "dhcp_only s (sendOffer s)"
proof -
  have "dhcp_only s u" "dhcp_only s (send_packet m b u)" if "add_lease ch y l s = (ok, u)" for ch y l ok u m b
    using dhcp_only_lease(1) [of s ch y l] dhcp_only_trans [OF _ dhcp_only_packet] that by simp_all
  then show ?thesis
    unfolding sendOffer_def Let_def by (auto split: prod.split)
qed

lemma dhcp_only_request [simp]: "dhcp_only s (dhcp_request l s)"
  by (simp add: dhcp_request_def sendNAK_def Let_def split: option.split)

lemma dhcps_input_only: "dhcp_only s (dhcps_input s)"
  by (simp add: dhcps_input_def send_inform_def Let_def split: option.split)

text \<open>The web server: the TFTP sessions and the lease table are not its business.\<close>

definition http_only :: "'a http_state_scheme \<Rightarrow> 'a http_state_scheme \<Rightarrow> bool" where
  "http_only s t \<longleftrightarrow> same_tftp s t \<and> leases t = leases s \<and> max_leases t = max_leases s
     \<and> cfg_start t = cfg_start s \<and> cfg_end t = cfg_end s"

lemma http_only_refl [simp]: "http_only s s"
  by (simp add: http_only_def same_tftp_def)

lemma http_only_trans: "http_only s t \<Longrightarrow> http_only t u \<Longrightarrow> http_only s u"
  by (simp add: http_only_def same_tftp_def)

lemma http_only_simps [simp]:
  "http_only s (set_tcp f t) = http_only s t" "http_only s (set_tcpi_state st t) = http_only s t"
  "http_only s (tcpoutput a b d n t) = http_only s t" "http_only s (tcpClearSession t) = http_only s t"
  "http_only s (t\<lparr>flash := fl, run := r\<rparr>) = http_only s t" "http_only s (autoreboot t) = http_only s t"
  "http_only s (t\<lparr>readyToUpgrade := rd\<rparr>) = http_only s t"
  by (simp_all add: http_only_def same_tftp_def set_tcp_def set_tcpi_state_def tcpoutput_alt inc_seq_def
      tcpClearSession_def autoreboot_def)

lemmas tcp_outputs = tcpwrite_def tcpSendSynAck_def tcpSendFinAck_def tcpSendFin_def tcpAck_def tcpReset_def
lemmas tcp_updates = inc_ack_def inc_seq_def tcpConnected_def tcpSaveSession_def

lemma http_only_write: "write_and_reboot s = Some t \<Longrightarrow> http_only s t \<and> utcp_info t = utcp_info s
    \<and> foundboundary t = foundboundary s"
  by (auto simp: write_and_reboot_def writeImagetoflash_def autoreboot_def http_only_def same_tftp_def
      dest!: checkAutoFlashing_flash split: if_splits)

text \<open>The session bits of the invariant, as a relation that the steps compose.\<close>

definition session_ok :: "UTCPINFO_T \<Rightarrow> bool" where
  "session_ok u \<longleftrightarrow> (\<not> sessionsaved u \<longrightarrow> tcpi_state u = TCP_CLOSE \<and> \<not> uploadstarted u)"

lemma http_inv_alt: "http_inv s \<longleftrightarrow> session_ok (utcp_info s) \<and> foundboundary s \<le> 2"
  by (simp add: http_inv_def session_ok_def)

lemma foundboundary_set_tcp [simp]:
  "foundboundary (set_tcp f s) = foundboundary s"
  by (simp add: set_tcp_def)

lemma tcp_out_info [simp]:
  "utcp_info (tcpoutput a b d n s) = (utcp_info s)\<lparr>tcpi_seq := incseq (tcpi_seq (utcp_info s)) n\<rparr>"
  "foundboundary (tcpoutput a b d n s) = foundboundary s" "run (tcpoutput a b d n s) = run s"
  by (simp_all add: tcpoutput_alt inc_seq_def set_tcp_def)

lemma session_ok_seq [simp]:
  "session_ok (u\<lparr>tcpi_seq := x\<rparr>) = session_ok u" "session_ok (u\<lparr>tcpi_ack := x\<rparr>) = session_ok u"
  "session_ok no_session"
  by (simp_all add: session_ok_def no_session_def)

lemma count_blank_bound: "fb \<le> 1 \<Longrightarrow> fst (count_blank p len i fb) \<le> 2"
proof (induction p len i fb rule: count_blank.induct)
  case (1 p len i fb)
  then show ?case by (subst count_blank.simps) (cases "fb = 0", auto split: if_splits)
qed

lemma findimagehead_bound: "findimagehead p len fb = Some (fb', h) \<Longrightarrow> fb \<le> 2 \<Longrightarrow> fb' \<le> 2"
proof -
  assume run: "findimagehead p len fb = Some (fb', h)" and fb: "fb \<le> 2"
  have "fb' \<le> 2" if "count_blank p len j fb = (fb', h)" "fb \<noteq> 2" for j
    using count_blank_bound [of fb p len j] that fb by simp
  then show ?thesis using run fb by (auto simp: findimagehead_def split: if_splits option.splits)
qed

definition data_ok :: "'a http_state_scheme \<Rightarrow> 'a http_state_scheme \<Rightarrow> bool" where
  "data_ok s t \<longleftrightarrow> http_only s t \<and> (foundboundary s \<le> 2 \<longrightarrow> foundboundary t \<le> 2)
     \<and> sessionsaved (utcp_info t) = sessionsaved (utcp_info s)"

lemma data_ok_trans: "data_ok s t \<Longrightarrow> data_ok t u \<Longrightarrow> data_ok s u"
  using http_only_trans by (auto simp: data_ok_def)

lemma data_ok_simps [simp]:
  "data_ok s s" "data_ok s (tcpoutput a b d n t) = data_ok s t" "data_ok s (set_tcpi_state st t) = data_ok s t"
  "data_ok s (t\<lparr>readyToUpgrade := rd\<rparr>) = data_ok s t"
  "data_ok s (set_tcp (\<lambda>u. u\<lparr>uploadstarted := up\<rparr>) t) = data_ok s t"
  by (simp_all add: data_ok_def set_tcpi_state_def)

lemma upload_finished_ok: "upload_finished s = Some t \<Longrightarrow> data_ok s t"
proof -
  assume run: "upload_finished s = Some t"
  have written: "data_ok u t" if "write_and_reboot u = Some t" for u
    using http_only_write [OF that] by (simp add: data_ok_def)
  obtain v where v: "imageFileValid (mem s) (httpd_mem s) (httpd_mem_len s) = Some v"
    using run by (auto simp: upload_finished_def split: option.splits)
  show ?thesis
  proof (cases "v > 0")
    case True
    obtain w where w: "tcpwrite (createResponseData s) (tcpAck s) = Some w"
        "write_and_reboot (tcpSendFinAck w\<lparr>readyToUpgrade := True\<rparr>) = Some t"
      using run True by (auto simp: upload_finished_def v bind_eq_Some_conv)
    have "data_ok s (tcpSendFinAck w\<lparr>readyToUpgrade := True\<rparr>)"
      using w(1) by (auto simp: tcp_outputs split: if_splits)
    moreover note written [OF w(2)]
    ultimately show ?thesis by (rule data_ok_trans)
  next
    case False
    then show ?thesis using run by (auto simp: upload_finished_def v tcp_outputs split: if_splits)
  qed
qed

lemma httpuploadfile_ok:
  assumes "httpuploadfile p n s = Some (r, t)"
  shows "data_ok s t"
proof -
  obtain cl co fb h where parts: "findimagehead p (sint n) (foundboundary s) = Some (fb, h)"
    and run: "(let s = s\<lparr>content_length := cl, content_offset := co, foundboundary := fb\<rparr>;
            s = (case h of None \<Rightarrow> s
                 | Some h \<Rightarrow>
                     (let k = n - of_nat h
                      in s\<lparr>mem := write_bytes (httpd_mem s + httpd_mem_len s) (get_bytes p h (unat k)) (mem s),
                           httpd_mem_len := httpd_mem_len s + k\<rparr>));
            s = s\<lparr>upload_len := upload_len s + n\<rparr>
        in if sint (upload_len s) \<ge> sint (cl + co)
           then map_option (\<lambda>s. (True, if run s = Running then set_tcpi_state TCP_FIN_WAIT1 s else s))
                  (upload_finished s)
           else Some (False, s)) = Some (r, t)"
    using assms unfolding httpuploadfile_def Let_def by (auto split: option.splits prod.splits)
  define u where "u = (let s = s\<lparr>content_length := cl, content_offset := co, foundboundary := fb\<rparr>;
            s = (case h of None \<Rightarrow> s
                 | Some h \<Rightarrow>
                     (let k = n - of_nat h
                      in s\<lparr>mem := write_bytes (httpd_mem s + httpd_mem_len s) (get_bytes p h (unat k)) (mem s),
                           httpd_mem_len := httpd_mem_len s + k\<rparr>))
       in s\<lparr>upload_len := upload_len s + n\<rparr>)"
  have u: "data_ok s u"
    using findimagehead_bound [OF parts]
    by (auto simp: u_def data_ok_def http_only_def same_tftp_def Let_def split: option.split)
  have "t = u \<or> (\<exists>v. upload_finished u = Some v \<and> (t = v \<or> t = set_tcpi_state TCP_FIN_WAIT1 v))"
    using run unfolding u_def Let_def by (auto split: if_splits)
  then show ?thesis using u data_ok_trans [OF u] upload_finished_ok by auto
qed

lemma tcpInputData_ok: "tcpInputData s = Some (r, t) \<Longrightarrow> data_ok s t"
  unfolding tcpInputData_def Let_def tcp_outputs
  by (auto split: if_splits dest!: httpuploadfile_ok)

lemma tcpinput_ok:
  assumes "tcpinput s = Some t" "session_ok (utcp_info s)"
  shows "http_only s t \<and> (foundboundary s \<le> 2 \<longrightarrow> foundboundary t \<le> 2) \<and> session_ok (utcp_info t)"
proof -
  have est: "sessionsaved (utcp_info u)" if "session_ok (utcp_info u)" "tcpi_state (utcp_info u) \<noteq> TCP_CLOSE"
    for u :: "'a http_state_scheme"
    using that by (auto simp: session_ok_def)
  define ok where "ok = (\<lambda>u v :: 'a http_state_scheme. http_only u v
      \<and> (foundboundary u \<le> 2 \<longrightarrow> foundboundary v \<le> 2) \<and> session_ok (utcp_info v))"
  have syn: "ok u (tcp_syn u)" if "session_ok (utcp_info u)" for u
    using that by (simp add: ok_def tcp_syn_def tcp_outputs tcpSaveSession_def set_tcpi_state_def set_tcp_def session_ok_def
        http_only_def same_tftp_def tcpoutput_alt inc_seq_def)
  have fin: "ok u v" if fin: "tcp_fin u = Some v" and inv: "session_ok (utcp_info u)" for u v
  proof -
    define w where "w = (if readyToUpgrade u then the (write_and_reboot u) else u)"
    have w: "http_only u w" "utcp_info w = utcp_info u" "foundboundary w = foundboundary u"
      using fin http_only_write [of u w] by (auto simp: tcp_fin_def w_def split: if_splits)
    have v: "v = (if run w = Running then tcp_fin_state w else w)"
      using fin by (auto simp: tcp_fin_def w_def split: if_splits)
    have base: "ok u w" using w inv by (simp add: ok_def)
    moreover have "ok w (tcp_fin_state w)"
      using est [of w] w(2) inv
      by (auto simp: Let_def ok_def tcp_fin_state_def tcp_outputs tcp_updates set_tcpi_state_def session_ok_def tcpClearSession_def
          no_session_def http_only_def same_tftp_def set_tcp_def tcpoutput_alt)
    ultimately show ?thesis unfolding v ok_def using http_only_trans by auto
  qed
  have acked: "ok u v" if acked: "tcp_acked u = Some v" and inv: "session_ok (utcp_info u)" for u v
  proof (cases "tcpi_state (utcp_info u) = TCP_ESTABLISHED")
    case True
    then obtain r w where w: "tcpInputData u = Some (r, w)" "v = (if \<not> r \<and> run w = Running then tcpAck w else w)"
      using acked by (auto simp: tcp_acked_def)
    have "data_ok u v" using tcpInputData_ok [OF w(1)] w(2) by (simp add: tcp_outputs)
    then show ?thesis using est [OF inv] True by (simp add: data_ok_def ok_def session_ok_def)
  next
    case False
    then show ?thesis
      using acked inv est [of u]
      by (auto simp: ok_def tcp_acked_def Let_def tcp_outputs tcp_updates set_tcpi_state_def session_ok_def
          tcpClearSession_def no_session_def http_only_def same_tftp_def set_tcp_def tcpoutput_alt split: if_splits)
  qed
  obtain mine u where iss: "isthisSession s = (mine, u)" by (cases "isthisSession s")
  have u: "ok s u" using iss assms(2)
    by (auto simp: ok_def isthisSession_def inc_ack_def Let_def split: if_splits)
  have comp: "ok u v \<Longrightarrow> ok s v" for v using u http_only_trans by (auto simp: ok_def)
  have refl: "ok s s" "ok u (tcpReset u)" using assms(2) u by (auto simp: ok_def tcp_outputs)
  have "t = s \<or> t = u \<or> t = tcp_syn u \<or> tcp_fin u = Some t \<or> tcp_acked u = Some t \<or> t = tcpReset u"
    using assms(1) by (auto simp: tcpinput_def iss Let_def split: if_splits)
  then have "ok s t"
    using u refl comp syn fin acked by (auto simp: ok_def)
  then show ?thesis by (simp add: ok_def)
qed

lemma http_only_table: "http_only s t \<Longrightarrow> table_ok t = table_ok s"
  by (simp add: http_only_def table_ok_def lease_inv_def in_pool_def)

lemma tcpinput_net: "tcpinput s = Some t \<Longrightarrow> net_inv s \<Longrightarrow> net_inv t"
  using tcpinput_ok [of s t] http_only_table [of s t] same_tftp_inv [of s t]
  by (auto simp: net_inv_def http_inv_alt http_only_def)

section \<open>Runs\<close>

lemma dhcps_input_net:
  assumes "net_inv s" shows "net_inv (dhcps_input s)"
proof -
  have "dhcp_only s (dhcps_input s)" by (rule dhcps_input_only)
  then have "tftp_inv (dhcps_input s) = tftp_inv s" "http_inv (dhcps_input s) = http_inv s"
    using same_tftp_inv by (auto simp: dhcp_only_def) (cases s; cases "dhcps_input s"; simp add: http_inv_def)+
  then show ?thesis using assms dhcps_input_ok [of s] by (simp add: net_inv_def)
qed

lemma kick_net: "kick e s = Some t \<Longrightarrow> net_inv s \<Longrightarrow> net_inv t"
  using BootStateEvent_ok [of s "bootState s"] more_table_ok [of t s] more_http_inv [of t s]
  by (auto simp: kick_def net_inv_def handler_ok_def split: option.splits)

lemma net_inv_fields [simp]:
  "net_inv (s\<lparr>rx_kickofftime := x\<rparr>) = net_inv s"
  "net_inv (s\<lparr>errmsg := m, errcode := c\<rparr>) = net_inv s"
  by (simp_all add: net_inv_def tftp_inv_def http_inv_def table_ok_def lease_inv_def in_pool_def)

lemma tftp_event_net: "tftp_event s = Some (e, t) \<Longrightarrow> net_inv s \<Longrightarrow> net_inv t"
  unfolding tftp_event_def Let_def
  by (auto simp del: net_inv_fields split: if_splits option.splits) (simp_all only: net_inv_fields)

lemma kick_tftpd_cases:
  assumes "kick_tftpd s = Some t"
  shows "t = s \<or> t = dhcps_input s \<or> tcpinput s = Some t \<or> (\<exists>e u. kick e u = Some t \<and> (u = s \<or> tftp_event s = Some (e, u)))"
  using assms unfolding kick_tftpd_def Let_def by (simp split: if_splits option.splits prod.splits) blast+

lemma kick_tftpd_net: "kick_tftpd s = Some t \<Longrightarrow> net_inv s \<Longrightarrow> net_inv t"
  using kick_tftpd_cases [of s t] kick_net tcpinput_net dhcps_input_net tftp_event_net by blast

definition net_ok :: "'a http_state_scheme option \<Rightarrow> bool" where
  "net_ok r \<longleftrightarrow> (case r of None \<Rightarrow> True | Some s \<Rightarrow> net_inv s)"

lemma net_step_ok: "net_ok r \<Longrightarrow> net_ok (net_step r e)"
proof -
  assume ok: "net_ok r"
  obtain p n t where e: "e = (p, n, t)" by (cases e)
  show ?thesis
  proof (cases r)
    case None
    then show ?thesis by (simp add: net_ok_def net_step_def)
  next
    case (Some s)
    then have "net_inv (s\<lparr>packet := p, packetlen := n, jiffies := t\<rparr>)"
      using ok by (simp add: net_ok_def net_inv_def tftp_inv_def http_inv_def table_ok_def lease_inv_def in_pool_def)
    then show ?thesis
      using ok Some kick_tftpd_net [of "s\<lparr>packet := p, packetlen := n, jiffies := t\<rparr>"]
      by (auto simp: net_ok_def net_step_def e split: option.split)
  qed
qed

interpretation net: event_machine net_step net_ok
  by unfold_locales (rule net_step_ok)

text \<open>\<open>CmdEthStartup\<close> without the set-up of the hardware. \<open>foundboundary\<close> starts at 0, as the file has it.\<close>

definition CmdEthStartup :: "'a http_state_scheme \<Rightarrow> 'a http_state_scheme" where
  "CmdEthStartup s = httpd_entry (dhcps_entry (tftpd_entry False s))"

definition powered_up :: "'a http_state_scheme \<Rightarrow> 'a http_state_scheme" where
  "powered_up s = CmdEthStartup (s\<lparr>foundboundary := 0\<rparr>)"

lemma entry_fields:
  "bootState (httpd_entry s) = bootState s" "foundboundary (httpd_entry s) = foundboundary s"
  "utcp_info (httpd_entry s) = no_session" "table_ok (httpd_entry s) = table_ok s"
  by (simp_all add: httpd_entry_def set_arp_def Let_def table_ok_def lease_inv_def in_pool_def)

lemma dhcps_entry_fields:
  "bootState (dhcps_entry s) = bootState s" "dhcp_state.more (dhcps_entry s) = dhcp_state.more s"
  by (simp_all add: dhcps_entry_def Let_def split: prod.split)

lemma tftpd_entry_fields:
  "bootState (tftpd_entry c s) = BOOT_STATE0_INIT_ARP" "tftp_state.more (tftpd_entry c s) = tftp_state.more s"
  by (simp_all add: tftpd_entry_def set_arp_def Let_def)

lemma foundboundary_more:
  "dhcp_state.more t = dhcp_state.more s \<Longrightarrow> foundboundary t = foundboundary s"
  "tftp_state.more t = tftp_state.more s \<Longrightarrow> foundboundary t = foundboundary s"
  by (cases s; cases t; simp)+

lemma powered_up_ok: "net_ok (Some (powered_up s))"
proof -
  have "foundboundary (CmdEthStartup (s\<lparr>foundboundary := 0\<rparr>)) = 0"
    by (simp add: CmdEthStartup_def entry_fields foundboundary_more(1) [OF dhcps_entry_fields(2)]
        foundboundary_more(2) [OF tftpd_entry_fields(2)])
  then have "http_inv (powered_up s)"
    by (simp add: http_inv_def powered_up_def CmdEthStartup_def entry_fields no_session_def)
  moreover have "tftp_inv (powered_up s)"
    by (simp add: tftp_inv_def powered_up_def CmdEthStartup_def entry_fields dhcps_entry_fields tftpd_entry_fields)
  moreover have "table_ok (powered_up s)"
    by (simp add: powered_up_def CmdEthStartup_def entry_fields dhcps_entry_ok)
  ultimately show ?thesis by (simp add: net_ok_def net_inv_def)
qed

text \<open>What the invariant says of a reached state.\<close>

lemma run_reaches_net_inv:
  assumes "run_events net_step (Some (powered_up s)) es = Some t" shows "net_inv t"
  using net.run_inv [OF powered_up_ok, of s es] assms by (simp add: net_ok_def)

text \<open>C5: From the start of the network on, whatever frames arrive in whatever order and at whatever
  time: in every state that is reached a transfer of the TFTP server holds the lock, the states of
  the TFTP client occur in client mode only, a web session without a saved peer is closed and not
  uploading, and no lease slot holds an address outside the pool.\<close>

theorem network_invariant:
  "pred_option (\<lambda>t.
     (bootState t = BOOT_STATE0_INIT_ARP
       \<or> bootState t \<in> {BOOT_STATE1_TFTP_CLIENT_RRQ, BOOT_STATE2_TFTP_CLIENT_WRQ} \<and> one_tftp_lock t
       \<or> bootState t \<in> {BOOT_STATE3_TFTP_SERVER_DATA, BOOT_STATE4_TFTP_SERVER_DATA} \<and> tftp_client_enabled t)
     \<and> (sessionsaved (utcp_info t) \<or> tcpi_state (utcp_info t) = TCP_CLOSE \<and> \<not> uploadstarted (utcp_info t))
     \<and> foundboundary t \<le> 2 \<and> table_ok t)
   (run_events net_step (Some (powered_up s)) es)"
proof (cases "run_events net_step (Some (powered_up s)) es")
  case (Some t)
  have tftp: "tftp_inv t" and http: "http_inv t" and "table_ok t"
    using run_reaches_net_inv [OF Some] by (simp_all add: net_inv_def)
  moreover have "bootState t = BOOT_STATE0_INIT_ARP
      \<or> bootState t \<in> {BOOT_STATE1_TFTP_CLIENT_RRQ, BOOT_STATE2_TFTP_CLIENT_WRQ} \<and> one_tftp_lock t
      \<or> bootState t \<in> {BOOT_STATE3_TFTP_SERVER_DATA, BOOT_STATE4_TFTP_SERVER_DATA} \<and> tftp_client_enabled t"
    using tftp by (cases "bootState t") (simp_all add: tftp_inv_def)
  moreover have "sessionsaved (utcp_info t) \<or> tcpi_state (utcp_info t) = TCP_CLOSE \<and> \<not> uploadstarted (utcp_info t)"
    "foundboundary t \<le> 2"
    using http by (auto simp: http_inv_def)
  ultimately show ?thesis by (simp add: Some)
qed simp

end
