(* ===== verification/Calloc.thy ===== *)
theory Calloc
  imports Prelude
begin

text \<open>
  The heap of the boot code, \<^verbatim>\<open>boot/init/calloc.c\<close>: a free list threaded through the headers of
  the free blocks. The heap is a map from addresses to headers, because every header lies a
  multiple of 8 bytes from the start of the heap; pointers are 32-bit words and wrap. The
  abstract view is the list of free blocks (address and size in units of 8 bytes), and the
  interface \<open>allocator\<close> is what a client may rely on.
\<close>

section \<open>The allocator\<close>

record HEADER =
  hdr_ptr :: u32
  hdr_size :: u32

record heap_state =
  frhd :: u32
  memleft :: u32
  hdr :: "u32 \<Rightarrow> HEADER"

text \<open>What a call that returns does; \<open>Undefined\<close> is a use of the uninitialised \<open>prev\<close>.\<close>

datatype call_result = Done heap_state | Undefined

definition SIZEOF_HEADER :: u32 where "SIZEOF_HEADER = 8"

definition hdr_add :: "u32 \<Rightarrow> u32 \<Rightarrow> u32" where
  "hdr_add p n = p + SIZEOF_HEADER * n"

definition set_ptr :: "u32 \<Rightarrow> u32 \<Rightarrow> heap_state \<Rightarrow> heap_state" where
  "set_ptr p q s = s\<lparr>hdr := (hdr s)(p := (hdr s p)\<lparr>hdr_ptr := q\<rparr>)\<rparr>"

definition set_size :: "u32 \<Rightarrow> u32 \<Rightarrow> heap_state \<Rightarrow> heap_state" where
  "set_size p n s = s\<lparr>hdr := (hdr s)(p := (hdr s p)\<lparr>hdr_size := n\<rparr>)\<rparr>"

definition i_alloc :: "u32 \<Rightarrow> u32 \<Rightarrow> heap_state \<Rightarrow> heap_state" where
  "i_alloc heapstart heapend s =
     (let s = set_size heapstart ((heapend - heapstart) div SIZEOF_HEADER)
                (set_ptr heapstart 0 (s\<lparr>frhd := heapstart\<rparr>))
      in s\<lparr>memleft := hdr_size (hdr s (frhd s))\<rparr>)"

definition nunits_of :: "u32 \<Rightarrow> u32" where
  "nunits_of nbytes = (nbytes + SIZEOF_HEADER - 1) div SIZEOF_HEADER + 1"

text \<open>The block \<open>nxt\<close> is big enough: its head end is cut off, or it is taken as a whole.\<close>

definition take_block :: "heap_state \<Rightarrow> u32 \<Rightarrow> u32 \<Rightarrow> u32 \<Rightarrow> u32 \<times> heap_state" where
  "take_block s nunits prev nxt =
     (let link = (\<lambda>q s. if prev = 0 then s\<lparr>frhd := q\<rparr> else set_ptr prev q s);
          s = (if hdr_size (hdr s nxt) > nunits
               then (let seg = hdr_add nxt nunits;
                         s = link seg s;
                         s = set_ptr seg (hdr_ptr (hdr s nxt)) s;
                         s = set_size seg (hdr_size (hdr s nxt) - nunits) s
                     in set_size nxt nunits s)
               else link (hdr_ptr (hdr s nxt)) s)
      in (hdr_add nxt 1, s\<lparr>memleft := memleft s - nunits\<rparr>))"

text \<open>The loop never assigns \<open>prev\<close>. At the end of the list the code prints and loops for ever.\<close>

partial_function (option) malloc_loop :: "heap_state \<Rightarrow> u32 \<Rightarrow> u32 \<Rightarrow> u32 \<Rightarrow> (u32 \<times> heap_state) option" where
  "malloc_loop s nunits prev nxt =
     (if nxt = 0 then None
      else if hdr_size (hdr s nxt) \<ge> nunits then Some (take_block s nunits prev nxt)
      else malloc_loop s nunits prev (hdr_ptr (hdr s nxt)))"

definition malloc :: "heap_state \<Rightarrow> u32 \<Rightarrow> (u32 \<times> heap_state) option" where
  "malloc s nbytes = malloc_loop s (nunits_of nbytes) 0 (frhd s)"

text \<open>Joining \<open>f\<close> to the free block \<open>nxt\<close> that ends at it, and that to its successor.\<close>

definition join_below :: "heap_state \<Rightarrow> u32 \<Rightarrow> u32 \<Rightarrow> heap_state" where
  "join_below s f nxt =
     (let s = set_size nxt (hdr_size (hdr s nxt) + hdr_size (hdr s f)) s;
          f = hdr_add nxt (hdr_size (hdr s nxt))
      in if f = hdr_ptr (hdr s nxt)
         then (let s = set_size nxt (hdr_size (hdr s nxt) + hdr_size (hdr s f)) s
               in set_ptr nxt (hdr_ptr (hdr s f)) s)
         else s)"

definition join_above :: "heap_state \<Rightarrow> u32 \<Rightarrow> u32 \<Rightarrow> heap_state" where
  "join_above s f nxt =
     (if hdr_add f (hdr_size (hdr s f)) = nxt
      then (let s = set_size f (hdr_size (hdr s f) + hdr_size (hdr s nxt)) s
            in set_ptr f (hdr_ptr (hdr s nxt)) s)
      else set_ptr f nxt s)"

partial_function (option) free_loop :: "heap_state \<Rightarrow> u32 \<Rightarrow> u32 option \<Rightarrow> u32 \<Rightarrow> call_result option" where
  "free_loop s f prev nxt =
     (if nxt \<noteq> 0 \<and> nxt < f then
        (if hdr_add nxt (hdr_size (hdr s nxt)) = f then Some (Done (join_below s f nxt))
         else free_loop s f (Some nxt) (hdr_ptr (hdr s nxt)))
      else (case prev of None \<Rightarrow> Some Undefined
            | Some q \<Rightarrow> Some (Done (join_above (set_ptr q f s) f nxt))))"

text \<open>A failed assertion prints and loops for ever.\<close>

definition free :: "heap_state \<Rightarrow> u32 \<Rightarrow> call_result option" where
  "free s ap =
     (if ap = 0 \<or> frhd s = 0 then None
      else
        (let f = ap - SIZEOF_HEADER;
             s = s\<lparr>memleft := memleft s + hdr_size (hdr s f)\<rparr>
         in if frhd s > f
            then (let nxt = frhd s in Some (Done (join_above (s\<lparr>frhd := f\<rparr>) f nxt)))
            else free_loop s f None (frhd s)))"

lemmas heap_ops = set_ptr_def set_size_def hdr_add_def SIZEOF_HEADER_def

section \<open>The free list\<close>

type_synonym block = "nat \<times> nat"

fun flist :: "heap_state \<Rightarrow> u32 \<Rightarrow> block list \<Rightarrow> bool" where
  "flist s p [] \<longleftrightarrow> p = 0"
| "flist s p ((a, n) # xs) \<longleftrightarrow>
     p \<noteq> 0 \<and> unat p = a \<and> unat (hdr_size (hdr s p)) = n \<and> flist s (hdr_ptr (hdr s p)) xs"

text \<open>Sorted, aligned, within bounds and without two blocks that touch.\<close>

fun chain :: "nat \<Rightarrow> block list \<Rightarrow> nat \<Rightarrow> bool" where
  "chain lo [] hi \<longleftrightarrow> True"
| "chain lo ((a, n) # xs) hi \<longleftrightarrow>
     lo \<le> a \<and> a mod 8 = 0 \<and> 0 < n \<and> a + 8 * n \<le> hi \<and> chain (a + 8 * n + 1) xs hi"

definition apart :: "block \<Rightarrow> block \<Rightarrow> bool" where
  "apart x y \<longleftrightarrow> fst x + 8 * snd x \<le> fst y \<or> fst y + 8 * snd y \<le> fst x"

definition cells :: "block \<Rightarrow> nat set" where
  "cells x = {fst x ..< fst x + 8 * snd x}"

definition all_cells :: "block list \<Rightarrow> nat set" where
  "all_cells xs = (\<Union>x \<in> set xs. cells x)"

lemma all_cells_simps [simp]:
  "all_cells [] = {}" "all_cells (x # xs) = cells x \<union> all_cells xs"
  by (simp_all add: all_cells_def)

lemma chain_lower: "chain lo xs hi \<Longrightarrow> (a, n) \<in> set xs \<Longrightarrow> lo \<le> a \<and> 0 < n \<and> a + 8 * n \<le> hi \<and> a mod 8 = 0"
  by (induction lo xs hi rule: chain.induct) fastforce+

lemma chain_mono: "chain lo xs hi \<Longrightarrow> lo' \<le> lo \<Longrightarrow> chain lo' xs hi"
  by (cases xs) auto

lemma flist_cong:
  "(\<And>p. unat p \<in> fst ` set xs \<Longrightarrow> hdr t p = hdr s p) \<Longrightarrow> flist s p xs \<Longrightarrow> flist t p xs"
  by (induction s p xs rule: flist.induct) auto

lemma flist_fields [simp]:
  "flist (s\<lparr>frhd := q\<rparr>) p xs = flist s p xs" "flist (s\<lparr>memleft := n\<rparr>) p xs = flist s p xs"
  by (induction s p xs rule: flist.induct) auto

text \<open>What the two operations do to the list of free blocks.\<close>

definition first_fit :: "nat \<Rightarrow> block list \<Rightarrow> (nat \<times> block list) option" where
  "first_fit k xs =
     (case dropWhile (\<lambda>x. snd x < k) xs of
        [] \<Rightarrow> None
      | (a, n) # ys \<Rightarrow> Some (a, if n > k then (a + 8 * k, n - k) # ys else ys))"

fun give_back :: "block \<Rightarrow> block list \<Rightarrow> block list" where
  "give_back x [] = [x]"
| "give_back (a, n) ((b, m) # xs) =
     (if a < b then (if a + 8 * n = b then (a, n + m) # xs else (a, n) # (b, m) # xs)
      else if b + 8 * m = a then
        (case xs of [] \<Rightarrow> [(b, m + n)]
         | (c, k) # ys \<Rightarrow> if a + 8 * n = c then (b, m + n + k) # ys else (b, m + n) # xs)
      else (b, m) # give_back (a, n) xs)"

lemma first_fit_chain:
  "chain lo xs hi \<Longrightarrow> 0 < k \<Longrightarrow> first_fit k xs = Some (a, ys) \<Longrightarrow>
     chain lo ys hi \<and> lo \<le> a \<and> a mod 8 = 0 \<and> a + 8 * k \<le> hi
     \<and> cells (a, k) \<subseteq> all_cells xs \<and> all_cells ys \<subseteq> all_cells xs \<and> (\<forall>y \<in> set ys. apart (a, k) y)"
proof (induction lo xs hi rule: chain.induct)
  case (2 lo b n xs hi)
  show ?case
  proof (cases "n < k")
    case True
    then have "first_fit k xs = Some (a, ys)" using 2(4) by (simp add: first_fit_def)
    then show ?thesis using 2 chain_mono by fastforce
  next
    case False
    then have ys: "a = b" "ys = (if n > k then (b + 8 * k, n - k) # xs else xs)"
      using 2(4) by (auto simp: first_fit_def)
    have later: "b + 8 * k \<le> a'" if "(a', n') \<in> set xs" for a' n'
      using chain_lower [of _ xs hi a' n'] 2(2) that False by fastforce
    have eq: "b + 8 * k + 8 * (n - k) + 1 = b + 8 * n + 1" using False by simp
    have rest: "chain (b + 8 * k + 8 * (n - k) + 1) xs hi" unfolding eq using 2(2) by simp
    show ?thesis
    proof (cases "n > k")
      case True
      then show ?thesis
        using 2(2,3) later rest by (auto simp: ys cells_def apart_def)
    next
      case False': False
      then show ?thesis
        using 2(2,3) False later chain_mono [of "b + 8 * n + 1" xs hi lo]
        by (auto simp: ys cells_def apart_def)
    qed
  qed
qed (simp add: first_fit_def)

text \<open>Giving a block back adds exactly its cells, and nothing touches afterwards.\<close>

lemma give_back_cells: "all_cells (give_back x xs) = cells x \<union> all_cells xs"
proof (induction x xs rule: give_back.induct)
  case (2 a n b m xs)
  then show ?case
    by (cases xs) (auto simp: cells_def split: prod.splits if_splits)
qed simp

lemma give_back_chain:
  assumes "chain lo xs hi" "lo \<le> a" "a mod 8 = 0" "0 < n" "a + 8 * n \<le> hi" "\<forall>y \<in> set xs. apart (a, n) y"
  shows "chain lo (give_back (a, n) xs) hi"
  using assms
proof (induction lo xs hi rule: chain.induct)
  case (2 lo b m xs hi)
  have low: "chain l xs hi" if "l \<le> b + 8 * m + 1" for l
    using chain_mono 2(2) that by auto
  have ab: "a + 8 * n \<le> b \<or> b + 8 * m \<le> a" using 2(7) by (simp add: apart_def)
  show ?case
  proof (cases "a < b")
    case True
    then show ?thesis using 2(2-6) ab low by (auto simp: algebra_simps)
  next
    case False
    then have above: "b + 8 * m \<le> a" using ab 2(5) by auto
    show ?thesis
    proof (cases "b + 8 * m = a")
      case True
      then show ?thesis
        using 2(2-7) False above by (cases xs) (auto simp: algebra_simps apart_def split: prod.splits)
    next
      case False': False
      then show ?thesis using 2 False above by auto
    qed
  qed
qed simp

section \<open>Refinement\<close>

lemma of_nat_addr: "unat p = a \<longleftrightarrow> p = of_nat a \<and> a < 2 ^ 32" for p :: u32
  using unsigned_less [of p] by (auto simp: unat_of_nat)

lemma unat_add_small: "unat p + 8 * n < 2 ^ 32 \<Longrightarrow> unat (p + 8 * of_nat n) = unat p + 8 * n" for p :: u32
  by (simp add: unat_word_ariths unat_of_nat mod_mult_right_eq)

lemma malloc_loop_first_fit:
  assumes "flist s p xs" "chain lo xs hi" "hi < 2 ^ 32" "0 < nunits"
  shows "malloc_loop s nunits 0 p =
    (case dropWhile (\<lambda>x. snd x < unat nunits) xs of
       [] \<Rightarrow> None | (a, n) # ys \<Rightarrow> Some (take_block s nunits 0 (of_nat a)))"
  using assms
proof (induction s p xs arbitrary: lo rule: flist.induct)
  case (1 s p)
  then show ?case by (simp add: malloc_loop.simps)
next
  case (2 s p a n xs)
  then show ?case
    by (subst malloc_loop.simps) (auto simp: word_le_nat_alt)
qed

lemma dropWhile_flist:
  "flist s p xs \<Longrightarrow> chain lo xs hi \<Longrightarrow> dropWhile P xs = (a, n) # ys \<Longrightarrow>
     flist s (of_nat a) ((a, n) # ys) \<and> chain lo ((a, n) # ys) hi"
proof (induction s p xs arbitrary: lo rule: flist.induct)
  case (2 s p b m xs)
  show ?case
  proof (cases "P (b, m)")
    case True
    then show ?thesis using 2 chain_mono [of "b + 8 * m + 1" "(a, n) # ys" hi lo] by fastforce
  next
    case False
    then show ?thesis using 2 by auto
  qed
qed simp

text \<open>Taking a block from the list rewrites headers of that block only.\<close>

lemma take_block_refines:
  assumes l: "flist s (of_nat a) ((a, n) # ys)" and c: "chain lo ((a, n) # ys) hi"
    and k: "unat nunits = k" "0 < k" "k \<le> n" and hi: "hi < 2 ^ 32"
  shows "\<exists>s'. take_block s nunits 0 (of_nat a) = (of_nat a + 8, s')
     \<and> flist s' (frhd s') (if n > k then (a + 8 * k, n - k) # ys else ys)
     \<and> unat (hdr_size (hdr s' (of_nat a))) = k \<and> memleft s' = memleft s - nunits
     \<and> (\<forall>z. \<not> (a \<le> unat z \<and> unat z < a + 8 * n) \<longrightarrow> hdr s' z = hdr s z)"
proof -
  have a: "a < 2 ^ 32" "a + 8 * n < 2 ^ 32" using c hi by auto
  let ?p = "of_nat a :: u32"
  have p: "unat ?p = a" using a by (simp add: unat_of_nat)
  have nu: "nunits = of_nat k" using k(1) by auto
  have later: "a + 8 * n < b" if "(b, m) \<in> set ys" for b m
    using chain_lower [of "a + 8 * n + 1" ys hi b m] c that by auto
  show ?thesis
  proof (cases "n > k")
    case False
    then have "\<not> hdr_size (hdr s ?p) > nunits" using l k by (simp add: word_less_nat_alt)
    then show ?thesis using l k False by (auto simp: take_block_def heap_ops)
  next
    case True
    define seg where "seg = ?p + 8 * nunits"
    have seg: "unat seg = a + 8 * k"
      unfolding seg_def nu by (subst unat_add_small) (use True a p in auto)
    have sz: "hdr_size (hdr s ?p) > nunits" using l k True by (simp add: word_less_nat_alt)
    have diff: "unat (hdr_size (hdr s ?p) - nunits) = n - k"
      using l k True by (simp add: unat_sub word_le_nat_alt)
    have ne: "seg \<noteq> ?p" using seg p k by auto
    have "seg \<noteq> 0" using seg k by auto
    define s' where "s' = snd (take_block s nunits 0 ?p)"
    have s': "s' = s\<lparr>frhd := seg, memleft := memleft s - nunits, hdr := (hdr s)
        (seg := (hdr s seg)\<lparr>hdr_ptr := hdr_ptr (hdr s ?p), hdr_size := hdr_size (hdr s ?p) - nunits\<rparr>,
         ?p := (hdr s ?p)\<lparr>hdr_size := nunits\<rparr>)\<rparr>"
      using sz ne by (simp add: s'_def take_block_def heap_ops Let_def seg_def [symmetric] fun_upd_twist)
    have tail: "flist s' (hdr_ptr (hdr s ?p)) ys"
    proof (rule flist_cong)
      show "flist s (hdr_ptr (hdr s ?p)) ys" using l by simp
      fix z :: u32 assume "unat z \<in> fst ` set ys"
      then have "z \<noteq> seg" "z \<noteq> ?p" using later seg p True by fastforce+
      then show "hdr s' z = hdr s z" by (simp add: s')
    qed
    have "flist s' (frhd s') ((a + 8 * k, n - k) # ys)"
      using tail seg diff ne \<open>seg \<noteq> 0\<close> by (simp add: s')
    moreover have "hdr s' z = hdr s z" if "\<not> (a \<le> unat z \<and> unat z < a + 8 * n)" for z
      using that seg p True by (auto simp: s')
    moreover have "take_block s nunits 0 ?p = (?p + 8, s')"
      by (simp add: s'_def take_block_def heap_ops Let_def)
    ultimately show ?thesis
      using True k(1) by (intro exI [of _ s']) (simp add: s')
  qed
qed

text \<open>Joining a block to the free block above it, and to the one below it.\<close>

lemma join_above_refines:
  assumes l: "flist s nxt xs" and c: "chain (a + 8 * n) xs hi" and hi: "hi < 2 ^ 32"
    and f: "unat f = a" "unat (hdr_size (hdr s f)) = n" "0 < n" "0 < a" "a + 8 * n \<le> hi"
  shows "flist (join_above s f nxt) f (case xs of (c, k) # ys \<Rightarrow> if a + 8 * n = c then (a, n + k) # ys else (a, n) # xs
      | [] \<Rightarrow> [(a, n)])"
    and "\<forall>z. z \<noteq> f \<longrightarrow> hdr (join_above s f nxt) z = hdr s z"
    and "frhd (join_above s f nxt) = frhd s" "memleft (join_above s f nxt) = memleft s"
proof -
  have n: "hdr_size (hdr s f) = of_nat n" using f(2) by auto
  have last: "unat (hdr_add f (hdr_size (hdr s f))) = a + 8 * n"
    unfolding hdr_add_def SIZEOF_HEADER_def n by (subst unat_add_small) (use f hi in auto)
  have f0: "f \<noteq> 0" using f by auto
  show "\<forall>z. z \<noteq> f \<longrightarrow> hdr (join_above s f nxt) z = hdr s z"
    "frhd (join_above s f nxt) = frhd s" "memleft (join_above s f nxt) = memleft s"
    by (simp_all add: join_above_def heap_ops Let_def)
  have keep: "flist t p ys" if "flist s p ys" "\<forall>z. z \<noteq> f \<longrightarrow> hdr t z = hdr s z" "a \<notin> fst ` set ys" for t p ys
    using that f by (intro flist_cong [of ys t s]) auto
  have beyond: "a \<notin> fst ` set xs" using chain_lower [OF c] f(3) by fastforce
  show "flist (join_above s f nxt) f (case xs of (c, k) # ys \<Rightarrow> if a + 8 * n = c then (a, n + k) # ys else (a, n) # xs
      | [] \<Rightarrow> [(a, n)])"
  proof (cases xs)
    case Nil
    then have "hdr_add f (hdr_size (hdr s f)) \<noteq> nxt" using l last f by auto
    then show ?thesis using Nil l f f0 by (simp add: join_above_def heap_ops)
  next
    case (Cons y ys)
    obtain c' k where y: "y = (c', k)" by (cases y)
    have nxt: "unat nxt = c'" "unat (hdr_size (hdr s nxt)) = k" "nxt \<noteq> f"
      using l c f Cons y by auto
    have eq: "hdr_add f (hdr_size (hdr s f)) = nxt \<longleftrightarrow> a + 8 * n = c'"
      using last nxt(1) by (metis word_unat_eq_iff)
    show ?thesis
    proof (cases "a + 8 * n = c'")
      case False
      have "flist (set_ptr f nxt s) nxt xs" by (rule keep [OF l]) (use beyond in \<open>simp_all add: heap_ops\<close>)
      then show ?thesis using False eq f f0 Cons y by (simp add: join_above_def heap_ops)
    next
      case True
      have "n + k < 2 ^ 32" using c hi Cons y True f by simp
      then have sum: "unat (hdr_size (hdr s f) + hdr_size (hdr s nxt)) = n + k"
        using f nxt by (simp add: unat_word_ariths)
      have "flist (join_above s f nxt) (hdr_ptr (hdr s nxt)) ys"
        by (rule keep) (use l beyond Cons y in \<open>simp_all add: join_above_def heap_ops\<close>)
      then show ?thesis using True eq f f0 Cons y sum nxt by (simp add: join_above_def heap_ops)
    qed
  qed
qed

lemma join_below_above:
  "join_below s f q = join_above (set_size q (hdr_size (hdr s q) + hdr_size (hdr s f)) s) q (hdr_ptr (hdr s q))"
  by (simp add: join_below_def join_above_def heap_ops Let_def fun_upd_idem)

lemma join_below_refines:
  assumes l: "flist s q ((b, m) # xs)" and c: "chain lo ((b, m) # xs) hi" and hi: "hi < 2 ^ 32"
    and f: "unat f = a" "unat (hdr_size (hdr s f)) = n" "b + 8 * m = a" "a + 8 * n \<le> hi"
      "\<forall>y \<in> set xs. apart (a, n) y" "0 < n"
  shows "flist (join_below s f q) q (give_back (a, n) ((b, m) # xs))"
    and "\<forall>z. z \<noteq> q \<longrightarrow> hdr (join_below s f q) z = hdr s z"
    and "frhd (join_below s f q) = frhd s" "memleft (join_below s f q) = memleft s"
proof -
  let ?s = "set_size q (hdr_size (hdr s q) + hdr_size (hdr s f)) s"
  have q: "unat q = b" "unat (hdr_size (hdr s q)) = m" "q \<noteq> 0" "0 < b" "0 < m"
    using l c by (auto simp: word_neq_0_conv word_less_nat_alt)
  have sz: "unat (hdr_size (hdr ?s q)) = m + n"
    using q f hi by (simp add: heap_ops unat_word_ariths)
  have above: "chain (a + 8 * n) xs hi"
    using c f(3,5,6) by (cases xs) (auto simp: apart_def)
  have notin: "unat q \<notin> fst ` set xs"
    using chain_lower [OF above] q(1) f(3,6) by fastforce
  have rest: "flist ?s (hdr_ptr (hdr s q)) xs"
    by (rule flist_cong [of xs ?s s]) (use l notin in \<open>auto simp: heap_ops\<close>)
  have "b + 8 * (m + n) = a + 8 * n" using f(3) by simp
  note ja = join_above_refines [OF rest _ hi q(1) sz, unfolded this, OF above]
  have less: "\<not> a < b" "b + 8 * m = a" using f(3) by auto
  show "flist (join_below s f q) q (give_back (a, n) ((b, m) # xs))"
    unfolding join_below_above using ja(1) q f less
    by (cases xs) (auto simp: ac_simps split: if_splits)
  show "\<forall>z. z \<noteq> q \<longrightarrow> hdr (join_below s f q) z = hdr s z"
    "frhd (join_below s f q) = frhd s" "memleft (join_below s f q) = memleft s"
    unfolding join_below_above using ja(2-4) q f by (auto simp: heap_ops)
qed

text \<open>The walk down the list, past the block \<open>q\<close>.\<close>

lemma free_loop_refines:
  assumes "flist s q ((b, m) # xs)" "chain lo ((b, m) # xs) hi" "hi < 2 ^ 32"
    and f: "unat f = a" "unat (hdr_size (hdr s f)) = n" "0 < n" "a + 8 * n \<le> hi"
    and "\<forall>y \<in> set xs. apart (a, n) y" "b + 8 * m < a"
  shows "\<exists>t. free_loop s f (Some q) (hdr_ptr (hdr s q)) = Some (Done t) \<and> flist t q ((b, m) # give_back (a, n) xs)
    \<and> frhd t = frhd s \<and> memleft t = memleft s
    \<and> (\<forall>z. z \<noteq> f \<and> unat z \<notin> fst ` set ((b, m) # xs) \<longrightarrow> hdr t z = hdr s z)"
  using assms
proof (induction xs arbitrary: q b m lo)
  case Nil
  have q: "unat q = b" "unat (hdr_size (hdr s q)) = m" "hdr_ptr (hdr s q) = 0" "q \<noteq> 0" "q \<noteq> f" "f \<noteq> 0"
    using Nil by auto
  have n: "unat (hdr_size (hdr (set_ptr q f s) f)) = n" using q f by (simp add: heap_ops)
  note ja = join_above_refines [of "set_ptr q f s" 0 "[]" a n hi f, OF _ _ Nil.prems(3) f(1) n f(3) _ f(4)]
  have "free_loop s f (Some q) 0 = Some (Done (join_above (set_ptr q f s) f 0))"
    by (subst free_loop.simps) simp
  moreover have "hdr (join_above (set_ptr q f s) f 0) q = (hdr s q)\<lparr>hdr_ptr := f\<rparr>"
    using ja(2) Nil.prems(9) q by (auto simp: heap_ops)
  ultimately show ?case
    using ja Nil.prems(9) q by (auto simp: heap_ops)
next
  case (Cons y ys)
  obtain c k where y: "y = (c, k)" by (cases y)
  define r where "r = hdr_ptr (hdr s q)"
  have q: "unat q = b" "unat (hdr_size (hdr s q)) = m" "q \<noteq> 0" "q \<noteq> f" "f \<noteq> 0"
    using Cons.prems by auto
  have r: "flist s r ((c, k) # ys)" "chain (b + 8 * m + 1) ((c, k) # ys) hi" "unat r = c"
      "unat (hdr_size (hdr s r)) = k" "r \<noteq> 0" "r \<noteq> q"
    using Cons.prems(1,2) y q by (auto simp: r_def)
  have ap: "apart (a, n) (c, k)" "\<forall>y \<in> set ys. apart (a, n) y" using Cons.prems(8) y by auto
  have last: "unat (hdr_add r (hdr_size (hdr s r))) = c + 8 * k"
  proof -
    have "hdr_size (hdr s r) = of_nat k" using r(4) by auto
    then show ?thesis
      unfolding hdr_add_def SIZEOF_HEADER_def by (simp only:) (subst unat_add_small; use r Cons.prems(3) in simp)
  qed
  show ?case
  proof (cases "c < a")
    case False
    then have above: "chain (a + 8 * n) ((c, k) # ys) hi" "r \<noteq> f"
      using r ap f by (auto simp: apart_def)
    have "r \<noteq> 0 \<and> r < f \<longleftrightarrow> False" using False r f by (simp add: word_less_nat_alt)
    then have run: "free_loop s f (Some q) r = Some (Done (join_above (set_ptr q f s) f r))"
      by (subst free_loop.simps) (simp only: if_False option.case)
    have n: "unat (hdr_size (hdr (set_ptr q f s) f)) = n" using q f by (simp add: heap_ops)
    have "b \<notin> fst ` set ((c, k) # ys)" using chain_lower [OF r(2)] by fastforce
    then have "flist (set_ptr q f s) r ((c, k) # ys)"
      using q by (intro flist_cong [OF _ r(1)]) (auto simp: heap_ops)
    note ja = join_above_refines [OF this above(1) Cons.prems(3) f(1) n f(3) _ f(4)]
    have "hdr (join_above (set_ptr q f s) f r) q = (hdr s q)\<lparr>hdr_ptr := f\<rparr>"
      using ja(2) Cons.prems(9) q by (auto simp: heap_ops)
    moreover have "give_back (a, n) ((c, k) # ys) = (if a + 8 * n = c then (a, n + k) # ys else (a, n) # (c, k) # ys)"
      using False r ap f by (auto simp: apart_def)
    ultimately show ?thesis
      using run ja Cons.prems(9) q y by (auto simp: heap_ops r_def [symmetric])
  next
    case True
    then have lt: "r \<noteq> 0 \<and> r < f" using r f by (simp add: word_less_nat_alt)
    have le: "c + 8 * k \<le> a" using ap True f by (auto simp: apart_def)
    show ?thesis
    proof (cases "c + 8 * k = a")
      case True': True
      then have "hdr_add r (hdr_size (hdr s r)) = f" using last f by (metis word_unat_eq_iff)
      then have run: "free_loop s f (Some q) r = Some (Done (join_below s f r))"
        using lt by (subst free_loop.simps) simp
      note jb = join_below_refines [OF r(1,2) Cons.prems(3) f(1,2) True' f(4) ap(2) f(3)]
      have "hdr (join_below s f r) q = hdr s q" using jb(2) r by auto
      then show ?thesis
        using run jb q y r(3) by (intro exI [of _ "join_below s f r"]) (auto simp: r_def [symmetric] simp del: give_back.simps)
    next
      case False
      then have "hdr_add r (hdr_size (hdr s r)) \<noteq> f" using last f by auto
      then have run: "free_loop s f (Some q) r = free_loop s f (Some r) (hdr_ptr (hdr s r))"
        using lt by (subst free_loop.simps) simp
      obtain t where t: "free_loop s f (Some r) (hdr_ptr (hdr s r)) = Some (Done t)"
        "flist t r ((c, k) # give_back (a, n) ys)" "frhd t = frhd s" "memleft t = memleft s"
        "\<forall>z. z \<noteq> f \<and> unat z \<notin> fst ` set ((c, k) # ys) \<longrightarrow> hdr t z = hdr s z"
        using Cons.IH [OF r(1,2) Cons.prems(3) f ap(2)] le False by auto
      have "b \<notin> fst ` set ((c, k) # ys)" using chain_lower [OF r(2)] by fastforce
      then have "hdr t q = hdr s q" using t(5) q by auto
      moreover have "give_back (a, n) ((c, k) # ys) = (c, k) # give_back (a, n) ys"
        using True False by simp
      ultimately show ?thesis
        using run t q y by (intro exI [of _ t]) (auto simp: r_def [symmetric])
    qed
  qed
qed

lemma free_refines_list:
  assumes l: "flist s (frhd s) xs" and c: "chain lo xs hi" and hi: "hi < 2 ^ 32" and ne: "xs \<noteq> []"
    and f: "unat p = a + 8" "unat (hdr_size (hdr s (p - 8))) = n" "0 < n" "0 < a" "a + 8 * n \<le> hi"
    and ap: "\<forall>y \<in> set xs. apart (a, n) y"
  shows "\<exists>t. free s p = Some (Done t) \<and> flist t (frhd t) (give_back (a, n) xs)
    \<and> memleft t = memleft s + of_nat n
    \<and> (\<forall>z. unat z \<noteq> a \<and> unat z \<notin> fst ` set xs \<longrightarrow> hdr t z = hdr s z)"
proof -
  define g where "g = p - 8"
  have g: "unat g = a" "unat (hdr_size (hdr s g)) = n"
    using f by (simp_all add: g_def unat_sub_if')
  obtain b m ys where xs: "xs = (b, m) # ys" using ne by (cases xs) auto
  define r where "r = frhd s"
  define u where "u = s\<lparr>memleft := memleft s + hdr_size (hdr s g)\<rparr>"
  have u: "flist u r xs" "unat (hdr_size (hdr u g)) = n" "frhd u = r" "hdr u = hdr s"
      "memleft u = memleft s + of_nat n"
    using l g by (auto simp: u_def r_def)
  have r: "unat r = b" "unat (hdr_size (hdr s r)) = m" "r \<noteq> 0" using u(1,4) xs by auto
  have pnz: "p \<noteq> 0" using f by auto
  have start: "free s p = (if r > g then Some (Done (join_above (u\<lparr>frhd := g\<rparr>) g r)) else free_loop u g None r)"
    using pnz r(3) by (simp add: free_def Let_def r_def u_def g_def SIZEOF_HEADER_def)
  have ab: "a + 8 * n \<le> b \<or> b + 8 * m \<le> a" "0 < m" using ap c xs by (auto simp: apart_def)
  show ?thesis
  proof (cases "a < b")
    case True
    have above: "chain (a + 8 * n) xs hi" using c ab True xs by auto
    have size: "unat (hdr_size (hdr (u\<lparr>frhd := g\<rparr>) g)) = n" using u(2) by simp
    have "flist (u\<lparr>frhd := g\<rparr>) r xs" using u(1) by simp
    note ja = join_above_refines [OF this above hi g(1) size f(3-5)]
    have "free s p = Some (Done (join_above (u\<lparr>frhd := g\<rparr>) g r))"
      using start True g(1) r(1) by (simp add: word_less_nat_alt)
    moreover have "give_back (a, n) xs = (case xs of (c, k) # ys \<Rightarrow> if a + 8 * n = c then (a, n + k) # ys else (a, n) # xs
        | [] \<Rightarrow> [(a, n)])"
      using True xs by simp
    ultimately show ?thesis using ja u g(1) by auto
  next
    case False
    then have le: "b + 8 * m \<le> a" using ab f(3) by auto
    then have lt: "r \<noteq> 0 \<and> r < g" "\<not> r > g"
      using r g ab(2) by (auto simp: word_less_nat_alt)
    have last: "unat (hdr_add r (hdr_size (hdr u r))) = b + 8 * m"
    proof -
      have "hdr_size (hdr u r) = of_nat m" using r u(4) by auto
      then show ?thesis
        unfolding hdr_add_def SIZEOF_HEADER_def by (simp only:) (subst unat_add_small; use r hi le f(5) in simp)
    qed
    have ap': "\<forall>y \<in> set ys. apart (a, n) y" using ap xs by simp
    show ?thesis
    proof (cases "b + 8 * m = a")
      case True
      then have "hdr_add r (hdr_size (hdr u r)) = g" using last g(1) by (metis word_unat_eq_iff)
      then have "free s p = Some (Done (join_below u g r))"
        unfolding start using lt by (subst free_loop.simps) simp
      moreover note jb = join_below_refines [OF u(1) [unfolded xs] c [unfolded xs] hi g(1) u(2) True f(5) ap' f(3)]
      moreover have "hdr (join_below u g r) z = hdr s z" if "unat z \<noteq> b" for z
        using jb(2) u(4) r(1) that by metis
      ultimately show ?thesis using u r(1) xs by (auto simp del: give_back.simps)
    next
      case False
      then have "hdr_add r (hdr_size (hdr u r)) \<noteq> g" using last g(1) by auto
      then have "free s p = free_loop u g (Some r) (hdr_ptr (hdr u r))"
        unfolding start using lt by (subst free_loop.simps) simp
      moreover obtain t where "free_loop u g (Some r) (hdr_ptr (hdr u r)) = Some (Done t)"
        "flist t r ((b, m) # give_back (a, n) ys)" "frhd t = frhd u" "memleft t = memleft u"
        "\<forall>z. z \<noteq> g \<and> unat z \<notin> fst ` set ((b, m) # ys) \<longrightarrow> hdr t z = hdr u z"
        using free_loop_refines [OF u(1) [unfolded xs] c [unfolded xs] hi g(1) u(2) f(3,5) ap'] le False by auto
      ultimately show ?thesis
        using u g(1) xs \<open>\<not> a < b\<close> False by (intro exI [of _ t]) auto
    qed
  qed
qed

lemma malloc_refines_list:
  assumes "flist s (frhd s) xs" "chain lo xs hi" "hi < 2 ^ 32" "0 < unat (nunits_of nbytes)"
  shows "case first_fit (unat (nunits_of nbytes)) xs of
      None \<Rightarrow> malloc s nbytes = None
    | Some (a, ys) \<Rightarrow> \<exists>s'. malloc s nbytes = Some (of_nat a + 8, s') \<and> flist s' (frhd s') ys
        \<and> hdr_size (hdr s' (of_nat a)) = nunits_of nbytes \<and> memleft s' = memleft s - nunits_of nbytes
        \<and> (\<forall>z. unat z \<notin> all_cells xs \<longrightarrow> hdr s' z = hdr s z)"
proof -
  let ?k = "unat (nunits_of nbytes)"
  have run: "malloc s nbytes = (case dropWhile (\<lambda>x. snd x < ?k) xs of
       [] \<Rightarrow> None | (a, n) # ys \<Rightarrow> Some (take_block s (nunits_of nbytes) 0 (of_nat a)))"
    unfolding malloc_def using assms by (intro malloc_loop_first_fit) (auto simp: word_less_nat_alt)
  show ?thesis
  proof (cases "dropWhile (\<lambda>x. snd x < ?k) xs")
    case Nil
    show ?thesis unfolding first_fit_def run Nil by simp
  next
    case (Cons x ys)
    obtain a n where x: "x = (a, n)" by (cases x)
    have d: "flist s (of_nat a) ((a, n) # ys)" "chain lo ((a, n) # ys) hi"
      using dropWhile_flist [OF assms(1,2)] Cons x by auto
    have big: "?k \<le> n" using Cons x hd_dropWhile [of "\<lambda>x. snd x < ?k" xs] by simp
    have "(a, n) \<in> set xs" using Cons x set_dropWhileD [of "(a, n)" "\<lambda>x. snd x < ?k" xs] by simp
    then have "cells (a, n) \<subseteq> all_cells xs" unfolding all_cells_def by blast
    then have cells: "{a ..< a + 8 * n} \<subseteq> all_cells xs" by (simp add: cells_def)
    obtain s' where s': "take_block s (nunits_of nbytes) 0 (of_nat a) = (of_nat a + 8, s')"
      "flist s' (frhd s') (if n > ?k then (a + 8 * ?k, n - ?k) # ys else ys)"
      "unat (hdr_size (hdr s' (of_nat a))) = ?k" "memleft s' = memleft s - nunits_of nbytes"
      "\<forall>z. \<not> (a \<le> unat z \<and> unat z < a + 8 * n) \<longrightarrow> hdr s' z = hdr s z"
      using take_block_refines [OF d refl assms(4) big assms(3)] by blast
    moreover have "hdr_size (hdr s' (of_nat a)) = nunits_of nbytes" using s'(3) by (simp only: word_unat_eq_iff)
    moreover have "hdr s' z = hdr s z" if "unat z \<notin> all_cells xs" for z
      using s'(5) cells that by fastforce
    ultimately show ?thesis unfolding first_fit_def run Cons x by auto
  qed
qed

section \<open>What a client may rely on\<close>

text \<open>
  An allocator: \<open>ok s L\<close> says that the client owns the requests \<open>L\<close>, a map from the pointers
  it was given to the number of bytes it asked for.
\<close>

locale allocator =
  fixes get_mem :: "'s \<Rightarrow> u32 \<Rightarrow> (u32 \<times> 's) option"
    and put_mem :: "'s \<Rightarrow> u32 \<Rightarrow> 's option"
    and ok :: "'s \<Rightarrow> (u32 \<rightharpoonup> u32) \<Rightarrow> bool"
    and extent :: "u32 \<Rightarrow> nat"
  assumes get_ok: "ok s L \<Longrightarrow> get_mem s nb = Some (p, s') \<Longrightarrow> L p = None \<and> ok s' (L(p \<mapsto> nb))"
    and put_ok: "ok s L \<Longrightarrow> L p = Some nb \<Longrightarrow> put_mem s p = Some s' \<Longrightarrow> ok s' (L(p := None))"
    and separate: "ok s L \<Longrightarrow> L p = Some nb \<Longrightarrow> L q = Some mb \<Longrightarrow> p \<noteq> q \<Longrightarrow>
      {unat p ..< unat p + extent nb} \<inter> {unat q ..< unat q + extent mb} = {}"

text \<open>A client that frees only what it owns; a call that does not return ends the run.\<close>

datatype request = Malloc u32 | Free u32

definition request_step ::
    "('s \<Rightarrow> u32 \<Rightarrow> (u32 \<times> 's) option) \<Rightarrow> ('s \<Rightarrow> u32 \<Rightarrow> 's option) \<Rightarrow>
     ('s \<times> (u32 \<rightharpoonup> u32)) option \<Rightarrow> request \<Rightarrow> ('s \<times> (u32 \<rightharpoonup> u32)) option" where
  "request_step get_mem put_mem r e =
     (case r of None \<Rightarrow> None
      | Some (s, L) \<Rightarrow>
          (case e of
             Malloc nb \<Rightarrow> map_option (\<lambda>(p, s). (s, L(p \<mapsto> nb))) (get_mem s nb)
           | Free p \<Rightarrow> (if L p = None then Some (s, L) else map_option (\<lambda>s. (s, L(p := None))) (put_mem s p))))"

context allocator
begin

definition owned :: "('s \<times> (u32 \<rightharpoonup> u32)) option \<Rightarrow> bool" where
  "owned r \<longleftrightarrow> (case r of None \<Rightarrow> True | Some (s, L) \<Rightarrow> ok s L)"

lemma request_step_owned: "owned r \<Longrightarrow> owned (request_step get_mem put_mem r e)"
  by (auto simp: owned_def request_step_def get_ok dest: put_ok split: option.splits request.splits)

lemma run_owned: "owned r \<Longrightarrow> owned (run_events (request_step get_mem put_mem) r es)"
  by (induction es arbitrary: r) (simp_all add: request_step_owned)

lemma run_separate:
  assumes "ok s L" "run_events (request_step get_mem put_mem) (Some (s, L)) es = Some (t, M)"
    "M p = Some nb" "M q = Some mb" "p \<noteq> q"
  shows "{unat p ..< unat p + extent nb} \<inter> {unat q ..< unat q + extent mb} = {}"
  using run_owned [of "Some (s, L)" es] assms separate by (simp add: owned_def)

end

text \<open>The model as an allocator.\<close>

definition block_of :: "u32 \<Rightarrow> u32 \<Rightarrow> block" where
  "block_of p nb = (unat p - 8, unat (nunits_of nb))"

definition block_ok :: "nat \<Rightarrow> nat \<Rightarrow> heap_state \<Rightarrow> u32 \<Rightarrow> u32 \<Rightarrow> bool" where
  "block_ok lo hi s p nb \<longleftrightarrow> lo + 8 \<le> unat p \<and> unat p mod 8 = 0 \<and> unat p - 8 + 8 * unat (nunits_of nb) \<le> hi
     \<and> hdr_size (hdr s (p - 8)) = nunits_of nb"

definition owns :: "block list \<Rightarrow> (u32 \<rightharpoonup> u32) \<Rightarrow> bool" where
  "owns xs L \<longleftrightarrow>
     (\<forall>p nb. L p = Some nb \<longrightarrow> (\<forall>y \<in> set xs. apart (block_of p nb) y)
        \<and> (\<forall>q mb. L q = Some mb \<longrightarrow> p \<noteq> q \<longrightarrow> apart (block_of p nb) (block_of q mb)))"

definition heap_ok :: "nat \<Rightarrow> nat \<Rightarrow> heap_state \<Rightarrow> (u32 \<rightharpoonup> u32) \<Rightarrow> bool" where
  "heap_ok lo hi s L \<longleftrightarrow> 0 < lo \<and> hi < 2 ^ 32
     \<and> (\<exists>xs. flist s (frhd s) xs \<and> chain lo xs hi \<and> owns xs L)
     \<and> (\<forall>p nb. L p = Some nb \<longrightarrow> block_ok lo hi s p nb)"

definition freed :: "heap_state \<Rightarrow> u32 \<Rightarrow> heap_state option" where
  "freed s p = (case free s p of Some (Done t) \<Rightarrow> Some t | _ \<Rightarrow> None)"

text \<open>The bytes a client may use: all it asked for, unless the request wraps.\<close>

definition usable :: "u32 \<Rightarrow> nat" where
  "usable nb = 8 * (unat (nunits_of nb) - 1)"

lemma nunits_pos: "0 < unat (nunits_of nb)" "unat (nunits_of nb) = unat (nb + 7) div 8 + 1"
proof -
  have "unat (nb + 7) < 2 ^ LENGTH(32)" by (rule unsigned_less)
  then have small: "unat (nb + 7) div 8 + 1 < 2 ^ 32" by simp
  have "nunits_of nb = (nb + 7) div 8 + 1" by (simp add: nunits_of_def SIZEOF_HEADER_def add.commute)
  also have "unat \<dots> = (unat ((nb + 7) div 8) + 1) mod 2 ^ 32" by (simp only: unat_word_ariths) simp
  also have "\<dots> = unat (nb + 7) div 8 + 1" using small by (simp add: unat_div_distrib)
  finally show "unat (nunits_of nb) = unat (nb + 7) div 8 + 1" .
  then show "0 < unat (nunits_of nb)" by simp
qed

lemma usable_enough: "nb \<le> 0xFFFFFFF8 \<Longrightarrow> unat nb \<le> usable nb"
proof -
  assume "nb \<le> 0xFFFFFFF8"
  then have "unat (nb + 7) = unat nb + 7" by (simp add: unat_word_ariths word_le_nat_alt)
  then show ?thesis by (simp add: usable_def nunits_pos(2))
qed

lemma owns_less: "owns xs L \<Longrightarrow> (\<And>p. M p = L p \<or> M p = None) \<Longrightarrow> owns xs M"
  unfolding owns_def by (metis option.discI)

lemma apart_cells: "0 < snd x \<Longrightarrow> 0 < snd y \<Longrightarrow> apart x y \<longleftrightarrow> cells x \<inter> cells y = {}"
proof
  show "apart x y \<Longrightarrow> cells x \<inter> cells y = {}"
    unfolding apart_def cells_def disjoint_iff atLeastLessThan_iff by (meson leD le_trans)
next
  assume pos: "0 < snd x" "0 < snd y" and none: "cells x \<inter> cells y = {}"
  have "max (fst x) (fst y) \<notin> cells x \<inter> cells y" using none by simp
  then show "apart x y" using pos by (simp add: apart_def cells_def max_def split: if_splits)
qed

lemma chain_pos: "chain lo xs hi \<Longrightarrow> y \<in> set xs \<Longrightarrow> 0 < snd y"
  using chain_lower [of lo xs hi "fst y" "snd y"] by simp

lemma apart_all_cells:
  "chain lo xs hi \<Longrightarrow> 0 < snd x \<Longrightarrow> (\<forall>y \<in> set xs. apart x y) \<longleftrightarrow> cells x \<inter> all_cells xs = {}"
proof -
  assume c: "chain lo xs hi" and pos: "0 < snd x"
  have "apart x y \<longleftrightarrow> cells x \<inter> cells y = {}" if "y \<in> set xs" for y
    by (rule apart_cells [OF pos chain_pos [OF c that]])
  then have "(\<forall>y \<in> set xs. apart x y) \<longleftrightarrow> (\<forall>y \<in> set xs. cells x \<inter> cells y = {})" by (rule ball_cong [OF refl])
  also have "\<dots> \<longleftrightarrow> cells x \<inter> all_cells xs = {}" unfolding all_cells_def by blast
  finally show ?thesis .
qed

lemma block_of_simps [simp]:
  "0 < snd (block_of p nb)" "snd (block_of p nb) = unat (nunits_of nb)"
  by (simp_all add: block_of_def nunits_pos)

text \<open>Ownership is a matter of the cells.\<close>

lemma owns_cells:
  assumes "chain lo xs hi"
  shows "owns xs L \<longleftrightarrow>
     (\<forall>p nb. L p = Some nb \<longrightarrow> cells (block_of p nb) \<inter> all_cells xs = {}
        \<and> (\<forall>q mb. L q = Some mb \<longrightarrow> p \<noteq> q \<longrightarrow> cells (block_of p nb) \<inter> cells (block_of q mb) = {}))"
  unfolding owns_def by (simp add: apart_all_cells [OF assms] apart_cells nunits_pos(1))

lemma malloc_ok:
  assumes ok: "heap_ok lo hi s L" and run: "malloc s nb = Some (p, t)"
  shows "L p = None" "heap_ok lo hi t (L(p \<mapsto> nb))"
proof -
  let ?k = "unat (nunits_of nb)"
  obtain xs where xs: "flist s (frhd s) xs" "chain lo xs hi" "owns xs L"
    and b: "\<forall>p nb. L p = Some nb \<longrightarrow> block_ok lo hi s p nb" and lohi: "0 < lo" "hi < 2 ^ 32"
    using ok unfolding heap_ok_def by blast
  obtain a ys where fit: "first_fit ?k xs = Some (a, ys)"
    and p: "p = of_nat a + 8" and t: "flist t (frhd t) ys" "hdr_size (hdr t (of_nat a)) = nunits_of nb"
      "\<forall>z. unat z \<notin> all_cells xs \<longrightarrow> hdr t z = hdr s z"
    using malloc_refines_list [OF xs(1,2) lohi(2) nunits_pos(1), of nb] run
    by (cases "first_fit ?k xs") auto
  have new: "chain lo ys hi" "lo \<le> a" "a mod 8 = 0" "a + 8 * ?k \<le> hi" "cells (a, ?k) \<subseteq> all_cells xs"
    "all_cells ys \<subseteq> all_cells xs" "\<forall>y \<in> set ys. apart (a, ?k) y"
    using first_fit_chain [OF xs(2) nunits_pos(1) fit] by auto
  have "a + 8 < 2 ^ 32" using new(4) lohi nunits_pos(1) [of nb] by linarith
  then have up: "unat p = a + 8" "p - 8 = of_nat a"
    by (simp_all add: p unat_word_ariths unat_of_nat)
  have blk: "block_of p nb = (a, ?k)" by (simp add: block_of_def up)
  have old: "cells (block_of q mb) \<inter> all_cells xs = {}" if "L q = Some mb" for q mb
    using xs(3) that unfolding owns_cells [OF xs(2)] by blast
  have "a \<in> cells (block_of p nb)" using nunits_pos(1) [of nb] by (simp add: blk cells_def)
  then have "a \<in> all_cells xs" using new(5) blk by auto
  show fresh: "L p = None"
  proof (rule ccontr)
    assume "L p \<noteq> None"
    then obtain mb where "L p = Some mb" by auto
    moreover have "a \<in> cells (block_of p mb)" using nunits_pos(1) [of mb] up by (simp add: block_of_def cells_def)
    ultimately show False using old \<open>a \<in> all_cells xs\<close> by blast
  qed
  have "owns ys (L(p \<mapsto> nb))"
    unfolding owns_cells [OF new(1)]
  proof (intro allI impI conjI)
    fix q mb assume q: "(L(p \<mapsto> nb)) q = Some mb"
    show "cells (block_of q mb) \<inter> all_cells ys = {}"
      using q old new(6,7) apart_all_cells [OF new(1), of "(a, ?k)"] nunits_pos(1) blk
      by (auto split: if_splits)
    fix r rb assume r: "(L(p \<mapsto> nb)) r = Some rb" and ne: "q \<noteq> r"
    show "cells (block_of q mb) \<inter> cells (block_of r rb) = {}"
    proof (cases "p = q \<or> p = r")
      case True
      then show ?thesis using q r ne old new(5) blk by (auto split: if_splits)
    next
      case False
      then show ?thesis using q r ne xs(3) unfolding owns_cells [OF xs(2)] by (metis fun_upd_apply)
    qed
  qed
  moreover have "block_ok lo hi t q mb" if q: "(L(p \<mapsto> nb)) q = Some mb" for q mb
  proof (cases "q = p")
    case True
    then show ?thesis using q new(2-4) t(2) up by (simp add: block_ok_def)
  next
    case False
    then have q: "L q = Some mb" and bq: "block_ok lo hi s q mb" using that b by auto
    have "unat (q - 8) = unat q - 8" using bq by (simp add: block_ok_def unat_sub_if')
    then have "unat (q - 8) \<in> cells (block_of q mb)" using nunits_pos(1) [of mb] by (simp add: block_of_def cells_def)
    then have "hdr t (q - 8) = hdr s (q - 8)" using old [OF q] t(3) by blast
    then show ?thesis using bq by (simp only: block_ok_def)
  qed
  ultimately show "heap_ok lo hi t (L(p \<mapsto> nb))"
    using lohi t(1) new(1) unfolding heap_ok_def by blast
qed

lemma free_ok:
  assumes ok: "heap_ok lo hi s L" and p: "L p = Some nb"
  shows "free s p = None \<and> frhd s = 0 \<or> (\<exists>t. free s p = Some (Done t) \<and> heap_ok lo hi t (L(p := None)))"
proof -
  let ?k = "unat (nunits_of nb)"
  obtain xs where xs: "flist s (frhd s) xs" "chain lo xs hi" "owns xs L"
    and b: "\<forall>p nb. L p = Some nb \<longrightarrow> block_ok lo hi s p nb" and lohi: "0 < lo" "hi < 2 ^ 32"
    using ok unfolding heap_ok_def by blast
  have bp: "lo + 8 \<le> unat p" "unat p mod 8 = 0" "unat p - 8 + 8 * ?k \<le> hi" "hdr_size (hdr s (p - 8)) = nunits_of nb"
    using b p by (auto simp: block_ok_def)
  define a where "a = unat p - 8"
  have a: "unat p = a + 8" "lo \<le> a" "0 < a" "a mod 8 = 0" "a + 8 * ?k \<le> hi"
    using bp lohi by (auto simp: a_def mod_eq_0_iff_dvd intro: dvd_diff_nat)
  have blk: "block_of p nb = (a, ?k)" by (simp add: block_of_def a_def)
  have ap: "\<forall>y \<in> set xs. apart (a, ?k) y" using xs(3) p blk unfolding owns_def by metis
  show ?thesis
  proof (cases "xs = []")
    case True
    then show ?thesis using xs(1) by (simp add: free_def)
  next
    case False
    obtain t where t: "free s p = Some (Done t)" "flist t (frhd t) (give_back (a, ?k) xs)"
      "\<forall>z. unat z \<noteq> a \<and> unat z \<notin> fst ` set xs \<longrightarrow> hdr t z = hdr s z"
      using free_refines_list [OF xs(1,2) lohi(2) False a(1) _ nunits_pos(1) a(3,5) ap] bp(4) by auto
    have new: "chain lo (give_back (a, ?k) xs) hi"
      by (rule give_back_chain [OF xs(2) a(2,4) nunits_pos(1) a(5) ap])
    have "owns (give_back (a, ?k) xs) (L(p := None))"
      unfolding owns_cells [OF new] unfolding give_back_cells blk [symmetric]
      using xs(3) p unfolding owns_cells [OF xs(2)] by (auto split: if_splits) blast
    moreover have "block_ok lo hi t q mb" if "(L(p := None)) q = Some mb" for q mb
    proof -
      have q: "L q = Some mb" "q \<noteq> p" using that by (auto split: if_splits)
      have bq: "block_ok lo hi s q mb" using b q by blast
      have uq: "unat (q - 8) = unat q - 8" using bq by (simp add: block_ok_def unat_sub_if')
      then have in_q: "unat (q - 8) \<in> cells (block_of q mb)" using nunits_pos(1) [of mb] by (simp add: block_of_def cells_def)
      have "a \<in> cells (block_of p nb)" using nunits_pos(1) [of nb] by (simp add: blk cells_def)
      then have "unat (q - 8) \<noteq> a"
        using in_q q p xs(3) unfolding owns_cells [OF xs(2)] by blast
      moreover have "unat (q - 8) \<notin> fst ` set xs"
      proof
        assume "unat (q - 8) \<in> fst ` set xs"
        then obtain y where y: "y \<in> set xs" "fst y = unat (q - 8)" by auto
        then have "unat (q - 8) \<in> all_cells xs"
          using chain_pos [OF xs(2) y(1)] by (force simp: all_cells_def cells_def)
        then show False using in_q q xs(3) unfolding owns_cells [OF xs(2)] by blast
      qed
      ultimately have "hdr t (q - 8) = hdr s (q - 8)" using t(3) by blast
      then show ?thesis using bq by (simp only: block_ok_def)
    qed
    ultimately show ?thesis
      using lohi t(1,2) new unfolding heap_ok_def by blast
  qed
qed

lemma blocks_separate:
  assumes "heap_ok lo hi s L" "L p = Some nb" "L q = Some mb" "p \<noteq> q"
  shows "{unat p ..< unat p + usable nb} \<inter> {unat q ..< unat q + usable mb} = {}"
proof -
  have "apart (block_of p nb) (block_of q mb)" "block_ok lo hi s p nb" "block_ok lo hi s q mb"
    using assms unfolding heap_ok_def owns_def by blast+
  then show ?thesis
    using nunits_pos(1) [of nb] nunits_pos(1) [of mb]
    by (auto simp: apart_def block_of_def block_ok_def usable_def)
qed

lemma freed_ok: "heap_ok lo hi s L \<Longrightarrow> L p = Some nb \<Longrightarrow> freed s p = Some t \<Longrightarrow> heap_ok lo hi t (L(p := None))"
  using free_ok [of lo hi s L p nb] by (auto simp: freed_def split: option.splits call_result.splits)

interpretation heap: allocator malloc freed "heap_ok lo hi" usable
proof unfold_locales
  show "heap_ok lo hi s L \<Longrightarrow> malloc s nb = Some (p, t) \<Longrightarrow> L p = None \<and> heap_ok lo hi t (L(p \<mapsto> nb))" for s L nb p t
    using malloc_ok by blast
qed (fact freed_ok blocks_separate)+

section \<open>Properties\<close>

lemma flist_unique: "flist s p xs \<Longrightarrow> flist s p ys \<Longrightarrow> xs = ys"
  by (induction s p xs arbitrary: ys rule: flist.induct) (auto elim: flist.elims)

lemma i_alloc_list:
  assumes "0 < unat a" "unat a mod 8 = 0" "unat a + 8 \<le> unat e"
  shows "flist (i_alloc a e s) (frhd (i_alloc a e s)) [(unat a, (unat e - unat a) div 8)]"
    "chain (unat a) [(unat a, (unat e - unat a) div 8)] (unat e)"
proof -
  have "a \<noteq> 0" using assms(1) by auto
  moreover have "unat ((e - a) div 8) = (unat e - unat a) div 8"
    using assms(3) by (simp add: unat_div_distrib unat_sub word_le_nat_alt)
  ultimately show "flist (i_alloc a e s) (frhd (i_alloc a e s)) [(unat a, (unat e - unat a) div 8)]"
    by (simp add: i_alloc_def heap_ops Let_def)
  have "8 * ((unat e - unat a) div 8) \<le> unat e - unat a" "1 \<le> (unat e - unat a) div 8"
    using assms(3) by (simp_all add: Suc_le_eq div_greater_zero_iff)
  then show "chain (unat a) [(unat a, (unat e - unat a) div 8)] (unat e)"
    using assms unfolding chain.simps by (intro conjI) (linarith | simp)+
qed

lemma i_alloc_ok:
  assumes "0 < unat a" "unat a mod 8 = 0" "unat a + 8 \<le> unat e"
  shows "heap_ok (unat a) (unat e) (i_alloc a e s) Map.empty"
proof -
  have "unat e < 2 ^ LENGTH(32)" by (rule unsigned_less)
  moreover have "owns [(unat a, (unat e - unat a) div 8)] Map.empty" by (simp add: owns_def)
  ultimately show ?thesis using i_alloc_list [OF assms] assms(1) unfolding heap_ok_def by (auto simp del: flist.simps chain.simps)
qed

text \<open>A heap of 32 units at 0x80001000, and the same heap after two requests and a free.\<close>

definition sample_heap :: heap_state where
  "sample_heap = i_alloc 0x80001000 0x80001100 \<lparr>frhd = 0, memleft = 0, hdr = \<lambda>_. \<lparr>hdr_ptr = 0, hdr_size = 0\<rparr>\<rparr>"

definition sample_run :: "(heap_state \<times> (u32 \<rightharpoonup> u32)) option" where
  "sample_run = run_events (request_step malloc freed) (Some (sample_heap, Map.empty))
     [Malloc 10, Malloc 20, Free 0x80001008]"

lemma sample_run_value:
  "\<exists>t. sample_run = Some (t, [0x80001020 \<mapsto> 20]) \<and> flist t (frhd t) [(0x80001000, 3), (0x80001038, 25)]"
  by (simp add: sample_run_def sample_heap_def request_step_def malloc_def freed_def free_def i_alloc_def
      malloc_loop.simps take_block_def join_above_def heap_ops nunits_of_def Let_def)

lemma sample_run_ok: "sample_run = Some (t, L) \<Longrightarrow> heap_ok 0x80001000 0x80001100 t L"
proof -
  assume run: "sample_run = Some (t, L)"
  have "heap_ok 0x80001000 0x80001100 sample_heap Map.empty"
    using i_alloc_ok [of "0x80001000" "0x80001100"] by (simp add: sample_heap_def)
  then have "heap.owned 0x80001000 0x80001100 sample_run"
    unfolding sample_run_def by (intro heap.run_owned) (simp add: heap.owned_def)
  then show ?thesis by (simp add: run heap.owned_def)
qed

text \<open>C8: In every run from \<open>i_alloc\<close>, whatever a client requests and frees, the bytes it was given for
  two requests it has not freed do not overlap, and they lie within the heap behind a header
  (requests above 0xFFFFFFF8 wrap and get no bytes at all).\<close>

theorem heap_blocks_separate:
  assumes "0 < unat a" "unat a mod 8 = 0" "unat a + 8 \<le> unat e"
    and "run_events (request_step malloc freed) (Some (i_alloc a e s, Map.empty)) es = Some (t, L)"
    and "L p = Some nb" "nb \<le> 0xFFFFFFF8" "L q = Some mb" "mb \<le> 0xFFFFFFF8" "p \<noteq> q"
  shows "{unat p ..< unat p + unat nb} \<inter> {unat q ..< unat q + unat mb} = {}
    \<and> unat a + 8 \<le> unat p \<and> unat p + unat nb \<le> unat e"
proof -
  let ?ok = "heap_ok (unat a) (unat e)"
  have "{unat p ..< unat p + usable nb} \<inter> {unat q ..< unat q + usable mb} = {}"
    by (rule heap.run_separate [OF i_alloc_ok [OF assms(1-3)] assms(4,5,7,9)])
  then have "{unat p ..< unat p + unat nb} \<inter> {unat q ..< unat q + unat mb} = {}"
    using usable_enough [OF assms(6)] usable_enough [OF assms(8)] by fastforce
  moreover have "?ok t L"
    using heap.run_owned [of "unat a" "unat e" "Some (i_alloc a e s, Map.empty)" es] i_alloc_ok [OF assms(1-3)] assms(4)
    by (simp add: heap.owned_def)
  then have "block_ok (unat a) (unat e) t p nb" using assms(5) by (auto simp: heap_ok_def)
  then have "unat a + 8 \<le> unat p \<and> unat p + unat nb \<le> unat e"
    using usable_enough [OF assms(6)] nunits_pos(1) [of nb] by (auto simp: block_ok_def usable_def)
  ultimately show ?thesis by simp
qed

lemma heap_blocks_separate_witness:
  "\<exists>t L. run_events (request_step malloc freed) (Some (sample_heap, Map.empty)) [Malloc 10, Malloc 20] = Some (t, L)
     \<and> L 0x80001008 = Some 10 \<and> L 0x80001020 = Some 20 \<and> {0x80001008 ..< 0x80001012} \<inter> {0x80001020 ..< 0x80001034::nat} = {}"
proof -
  have "\<exists>t L. run_events (request_step malloc freed) (Some (sample_heap, Map.empty)) [Malloc 10, Malloc 20] = Some (t, L)
     \<and> L 0x80001008 = Some 10 \<and> L 0x80001020 = Some 20"
    by (simp add: sample_heap_def request_step_def malloc_def i_alloc_def malloc_loop.simps take_block_def heap_ops
        nunits_of_def Let_def)
  then obtain t L where run: "run_events (request_step malloc freed) (Some (sample_heap, Map.empty)) [Malloc 10, Malloc 20] = Some (t, L)"
    "L 0x80001008 = Some 10" "L 0x80001020 = Some 20" by blast
  then show ?thesis
    using heap_blocks_separate [of "0x80001000" "0x80001100" _ "[Malloc 10, Malloc 20]" t L "0x80001008" 10 "0x80001020" 20,
        folded sample_heap_def]
    unfolding sample_heap_def by fastforce
qed

text \<open>C24: Freeing a block the client owns refines the list operation: the free list stays sorted and no
  two free blocks touch, it covers exactly the old free cells and those of the block, and
  \<open>memleft\<close> grows by the size of the block.\<close>

theorem free_refines:
  assumes "heap_ok lo hi s L" "L p = Some nb" "flist s (frhd s) xs" "xs \<noteq> []"
  shows "\<exists>t ys. free s p = Some (Done t) \<and> flist t (frhd t) ys \<and> ys = give_back (block_of p nb) xs
    \<and> chain lo ys hi \<and> all_cells ys = cells (block_of p nb) \<union> all_cells xs
    \<and> memleft t = memleft s + nunits_of nb"
proof -
  let ?k = "unat (nunits_of nb)" and ?a = "unat p - 8"
  obtain xs' where "flist s (frhd s) xs'" "chain lo xs' hi" "owns xs' L"
    and b: "block_ok lo hi s p nb" and lohi: "0 < lo" "hi < 2 ^ 32"
    using assms(1,2) unfolding heap_ok_def by blast
  then have xs: "chain lo xs hi" "owns xs L" using flist_unique [OF assms(3)] by auto
  have a: "unat p = ?a + 8" "lo \<le> ?a" "0 < ?a" "?a mod 8 = 0" "?a + 8 * ?k \<le> hi" "unat (hdr_size (hdr s (p - 8))) = ?k"
    using b lohi by (auto simp: block_ok_def mod_eq_0_iff_dvd intro: dvd_diff_nat)
  have ap: "\<forall>y \<in> set xs. apart (?a, ?k) y"
    using xs(2) assms(2) unfolding owns_def block_of_def by metis
  obtain t where "free s p = Some (Done t)" "flist t (frhd t) (give_back (?a, ?k) xs)"
    "memleft t = memleft s + of_nat ?k"
    using free_refines_list [OF assms(3) xs(1) lohi(2) assms(4) a(1,6) nunits_pos(1) a(3,5) ap] by blast
  then show ?thesis
    using give_back_chain [OF xs(1) a(2,4) nunits_pos(1) a(5) ap] give_back_cells by (simp add: block_of_def)
qed

lemma free_refines_witness:
  "\<exists>t u. sample_run = Some (t, [0x80001020 \<mapsto> 20]) \<and> free t 0x80001020 = Some (Done u)
     \<and> flist u (frhd u) [(0x80001000, 32)]"
proof -
  obtain t where t: "sample_run = Some (t, [0x80001020 \<mapsto> 20])" "flist t (frhd t) [(0x80001000, 3), (0x80001038, 25)]"
    using sample_run_value by blast
  have "give_back (block_of 0x80001020 20) [(0x80001000, 3), (0x80001038, 25)] = [(0x80001000, 32)]"
    by (simp add: block_of_def nunits_of_def SIZEOF_HEADER_def)
  then show ?thesis
    using free_refines [OF sample_run_ok [OF t(1)] _ t(2), of "0x80001020" 20] t(1) by auto
qed

text \<open>C25: \<open>malloc\<close> returns exactly if some free block is big enough, and then it takes the first such
  block; otherwise it loops for ever.\<close>

theorem malloc_returns:
  assumes "heap_ok lo hi s L" "flist s (frhd s) xs"
  shows "(malloc s nb = None) = (\<forall>x \<in> set xs. snd x < unat (nunits_of nb))
    \<and> (malloc s nb \<noteq> None) = (\<exists>a ys t. first_fit (unat (nunits_of nb)) xs = Some (a, ys)
        \<and> malloc s nb = Some (of_nat (a + 8), t) \<and> flist t (frhd t) ys)"
proof -
  have xs: "chain lo xs hi" "hi < 2 ^ 32"
    using assms flist_unique [OF assms(2)] unfolding heap_ok_def by blast+
  note list = malloc_refines_list [OF assms(2) xs nunits_pos(1), of nb]
  have none: "first_fit (unat (nunits_of nb)) xs = None \<longleftrightarrow> (\<forall>x \<in> set xs. snd x < unat (nunits_of nb))"
    by (simp add: first_fit_def split: list.split) (metis list.distinct(1) dropWhile_eq_Nil_conv)
  show ?thesis
  proof (cases "first_fit (unat (nunits_of nb)) xs")
    case None
    then show ?thesis using list none by simp
  next
    case (Some z)
    then obtain a ys t where "z = (a, ys)" "malloc s nb = Some (of_nat a + 8, t)" "flist t (frhd t) ys"
      using list by (cases z) auto
    then show ?thesis using Some none by (simp add: add.commute)
  qed
qed

lemma malloc_returns_witness:
  "\<exists>t. sample_run = Some (t, [0x80001020 \<mapsto> 20]) \<and> malloc t 200 = None \<and> malloc t 100 \<noteq> None"
proof -
  obtain t where t: "sample_run = Some (t, [0x80001020 \<mapsto> 20])" "flist t (frhd t) [(0x80001000, 3), (0x80001038, 25)]"
    using sample_run_value by blast
  have "unat (nunits_of 200) = 26" "unat (nunits_of 100) = 14" by (simp_all add: nunits_of_def SIZEOF_HEADER_def)
  then show ?thesis
    using malloc_returns [OF sample_run_ok [OF t(1)] t(2), of 200] malloc_returns [OF sample_run_ok [OF t(1)] t(2), of 100] t(1)
    by fastforce
qed

text \<open>C26: A free block in front of the one \<open>malloc\<close> takes is lost, because \<open>prev\<close> is never assigned: it
  is neither in the free list afterwards nor part of the block returned, and \<open>memleft\<close> still
  counts it.\<close>

theorem malloc_loses_skipped:
  assumes "heap_ok lo hi s L" "flist s (frhd s) ((b, m) # xs)" "m < unat (nunits_of nb)"
    and "malloc s nb = Some (p, t)"
  shows "\<exists>ys. flist t (frhd t) ys \<and> cells (b, m) \<inter> (all_cells ys \<union> cells (block_of p nb)) = {}
    \<and> memleft t = memleft s - nunits_of nb"
proof -
  let ?k = "unat (nunits_of nb)"
  have c: "chain lo ((b, m) # xs) hi" "hi < 2 ^ 32" "0 < lo"
    using assms(1) flist_unique [OF assms(2)] unfolding heap_ok_def by blast+
  have rest: "chain (b + 8 * m + 1) xs hi" using c(1) by simp
  obtain a ys where fit: "first_fit ?k ((b, m) # xs) = Some (a, ys)"
    and t: "p = of_nat a + 8" "flist t (frhd t) ys" "memleft t = memleft s - nunits_of nb"
    using malloc_refines_list [OF assms(2) c(1,2) nunits_pos(1), of nb] assms(4)
    by (cases "first_fit ?k ((b, m) # xs)") (auto simp del: flist.simps)
  have "first_fit ?k xs = Some (a, ys)" using fit assms(3) by (simp add: first_fit_def)
  then have new: "b + 8 * m + 1 \<le> a" "a + 8 * ?k \<le> hi" "cells (a, ?k) \<subseteq> all_cells xs" "all_cells ys \<subseteq> all_cells xs"
    using first_fit_chain [OF rest nunits_pos(1)] by auto
  have "cells (b, m) \<inter> all_cells xs = {}"
    using chain_lower [OF rest] by (fastforce simp: all_cells_def cells_def)
  moreover have "block_of p nb = (a, ?k)"
  proof -
    have "a + 8 < 2 ^ 32" using new(2) c(2) nunits_pos(1) [of nb] by linarith
    then show ?thesis by (simp add: block_of_def t(1) unat_word_ariths unat_of_nat)
  qed
  ultimately show ?thesis using t(2,3) new(3,4) by (intro exI [of _ ys]) auto
qed

lemma malloc_loses_skipped_witness:
  "\<exists>t p u ys. sample_run = Some (t, [0x80001020 \<mapsto> 20]) \<and> malloc t 100 = Some (p, u)
     \<and> flist u (frhd u) ys \<and> cells (0x80001000, 3) \<inter> (all_cells ys \<union> cells (block_of p 100)) = {}"
proof -
  obtain t where t: "sample_run = Some (t, [0x80001020 \<mapsto> 20])" "flist t (frhd t) [(0x80001000, 3), (0x80001038, 25)]"
    using sample_run_value by blast
  have k: "unat (nunits_of 100) = 14" by (simp add: nunits_of_def SIZEOF_HEADER_def)
  obtain p u where "malloc t 100 = Some (p, u)"
    using malloc_refines_list [OF t(2), of "0x80001000" "0x80001100" 100] k by (auto simp: first_fit_def)
  then show ?thesis
    using malloc_loses_skipped [OF sample_run_ok [OF t(1)] t(2), of 100 p u] k t(1) by auto
qed

text \<open>A request that takes the last free block exactly ends the heap: no later call returns.\<close>

lemma empty_heap_stuck: "frhd s = 0 \<Longrightarrow> malloc s nb = None \<and> free s p = None"
  by (simp add: malloc_def malloc_loop.simps free_def)

end
