(* ===== verification/Xmodem.thy ===== *)
theory Xmodem
  imports Prelude
begin

text \<open>
  The XMODEM receiver of the monitor, \<^verbatim>\<open>boot/monitor/xmodem.c\<close>. The serial line is the sequence
  of polls of its status register: \<open>Some c\<close> when a byte is ready, \<open>None\<close> when not. A run that
  uses up the given polls is still \<open>Waiting\<close>.
\<close>

section \<open>The receiver\<close>

definition SOH :: u8 where "SOH = 0x01"
definition EOT :: u8 where "EOT = 0x04"
definition ACK :: u8 where "ACK = 0x06"
definition NAK :: u8 where "NAK = 0x15"
definition CAN :: u8 where "CAN = 0x18"
definition RETRY :: nat where "RETRY = 20"

lemmas xmodem_consts = SOH_def EOT_def ACK_def NAK_def CAN_def

datatype xmodem_state = XMODEM_RX_READY | XMODEM_WAIT_HEADER | XMODEM_RX_PACKET | XMODEM_CANCEL | XMODEM_EOT

record xmodem =
  st :: xmodem_state
  retry :: nat
  block_index :: u8
  ptr :: u32
  rx_size :: int
  ram :: memory
  sent :: "u8 list" \<comment> \<open>the bytes written to the line\<close>

type_synonym polls = "u8 option list"

datatype xmodem_result = Waiting xmodem | Returned int xmodem polls

definition putc :: "u8 \<Rightarrow> xmodem \<Rightarrow> xmodem" where
  "putc c s = s\<lparr>sent := sent s @ [c]\<rparr>"

text \<open>\<open>Get_UartData_timeout\<close>: the byte, if one came in time, and the polls left.\<close>

fun getc_polls :: "nat \<Rightarrow> polls \<Rightarrow> (u8 option \<times> polls) option" where
  "getc_polls t [] = (if t = 0 then Some (None, []) else None)"
| "getc_polls t (p # ps) =
     (if t = 0 then Some (None, p # ps)
      else case p of Some c \<Rightarrow> Some (Some c, ps) | None \<Rightarrow> getc_polls (t - 1) ps)"

definition TIMEOUT :: nat where "TIMEOUT = 100000"

abbreviation getc :: "polls \<Rightarrow> (u8 option \<times> polls) option" where
  "getc ps \<equiv> getc_polls TIMEOUT ps"

text \<open>
  The payload: \<open>n\<close> bytes from index \<open>i\<close> on, stored as they come. \<open>Inl\<close> is a timeout.
\<close>

fun rx_data :: "nat \<Rightarrow> u32 \<Rightarrow> u8 \<Rightarrow> xmodem \<Rightarrow> polls \<Rightarrow> (u8 option \<times> xmodem \<times> polls) option" where
  "rx_data 0 i csum s ps = Some (Some csum, s, ps)"
| "rx_data (Suc n) i csum s ps =
     (case getc ps of
        None \<Rightarrow> None
      | Some (None, ps) \<Rightarrow> Some (None, s, ps)
      | Some (Some c, ps) \<Rightarrow> rx_data n (i + 1) (csum + c) (s\<lparr>ram := (ram s)(ptr s + i := c)\<rparr>) ps)"

datatype rx_packet = Polls_end | Timed_out xmodem polls | Packet u8 u8 u8 u8 xmodem polls

definition rx_packet :: "nat \<Rightarrow> xmodem \<Rightarrow> polls \<Rightarrow> rx_packet" where
  "rx_packet packet_size s ps =
     (case getc ps of None \<Rightarrow> Polls_end | Some (None, ps) \<Rightarrow> Timed_out s ps
      | Some (Some head1, ps) \<Rightarrow>
     (case getc ps of None \<Rightarrow> Polls_end | Some (None, ps) \<Rightarrow> Timed_out s ps
      | Some (Some head2, ps) \<Rightarrow>
     (case rx_data packet_size 0 0 s ps of None \<Rightarrow> Polls_end | Some (None, s, ps) \<Rightarrow> Timed_out s ps
      | Some (Some csum, s, ps) \<Rightarrow>
     (case getc ps of None \<Rightarrow> Polls_end | Some (None, ps) \<Rightarrow> Timed_out s ps
      | Some (Some head_csum, ps) \<Rightarrow> Packet head1 head2 csum head_csum s ps))))"

text \<open>What a packet that came in whole does. \<open>255 - head2\<close> is computed as an \<open>int\<close>.\<close>

definition take_packet :: "nat \<Rightarrow> u8 \<Rightarrow> u8 \<Rightarrow> u8 \<Rightarrow> u8 \<Rightarrow> xmodem \<Rightarrow> xmodem" where
  "take_packet packet_size head1 head2 csum head_csum s =
     (let s = s\<lparr>st := XMODEM_WAIT_HEADER\<rparr>; valid = (uint head1 = 255 - uint head2 \<and> head_csum = csum)
      in if valid \<and> head1 = block_index s
         then putc ACK (s\<lparr>ptr := ptr s + of_nat packet_size, rx_size := rx_size s + int packet_size,
                          block_index := block_index s + 1, retry := RETRY\<rparr>)
         else if valid \<and> head1 = block_index s - 1 then putc ACK s
         else putc NAK (s\<lparr>retry := retry s - 1\<rparr>))"

definition cancel :: "xmodem \<Rightarrow> xmodem" where
  "cancel s = putc CAN (putc CAN (putc CAN (putc CAN s)))"

lemma getc_polls_le: "getc_polls t ps = Some (c, qs) \<Longrightarrow> length qs \<le> length ps"
  by (induction t ps rule: getc_polls.induct) (fastforce split: if_splits option.splits)+

lemma getc_shorter: "getc ps = Some (c, qs) \<Longrightarrow> length qs < length ps"
  using getc_polls_le by (cases ps) (fastforce simp: TIMEOUT_def split: option.splits)+

lemma rx_data_le: "rx_data n i k s ps = Some (c, t, qs) \<Longrightarrow> length qs \<le> length ps"
proof (induction n arbitrary: i k s ps)
  case (Suc n)
  then show ?case by (fastforce dest!: getc_shorter split: option.splits)
qed simp

lemma rx_packet_shorter:
  "rx_packet n s ps = Timed_out t qs \<Longrightarrow> length qs < length ps"
  "rx_packet n s ps = Packet a b c d t qs \<Longrightarrow> length qs < length ps"
  by (fastforce simp: rx_packet_def dest!: getc_shorter rx_data_le split: option.splits)+

text \<open>
  The loop of \<open>xmodem_receive\<close>. Note that a timeout inside a packet leaves the state at
  \<open>XMODEM_RX_PACKET\<close>, and that a timeout before the first packet costs no retry.
\<close>

function xm_loop :: "xmodem \<Rightarrow> polls \<Rightarrow> xmodem_result" where
  "xm_loop s ps =
     (if retry s = 0 then Returned 0 (cancel s) ps
      else case st s of
        XMODEM_RX_READY \<Rightarrow>
          (let s = putc NAK s
           in case getc ps of
                None \<Rightarrow> Waiting s
              | Some (c, ps) \<Rightarrow>
                  (if c = Some SOH then xm_loop (s\<lparr>st := XMODEM_RX_PACKET\<rparr>) ps
                   else if c = Some 3 then Returned 0 (cancel s) ps
                   else xm_loop s ps))
      | XMODEM_WAIT_HEADER \<Rightarrow>
          (case getc ps of
             None \<Rightarrow> Waiting s
           | Some (Some c, ps) \<Rightarrow>
               xm_loop (s\<lparr>st := (if c = SOH then XMODEM_RX_PACKET else if c = CAN then XMODEM_CANCEL
                                else if c = EOT then XMODEM_EOT else st s)\<rparr>) ps
           | Some (None, ps) \<Rightarrow> xm_loop (s\<lparr>retry := retry s - 1\<rparr>) ps)
      | XMODEM_RX_PACKET \<Rightarrow>
          (case rx_packet 128 s ps of
             Polls_end \<Rightarrow> Waiting s
           | Timed_out s ps \<Rightarrow> xm_loop (putc NAK (s\<lparr>retry := retry s - 1\<rparr>)) ps
           | Packet head1 head2 csum head_csum s ps \<Rightarrow> xm_loop (take_packet 128 head1 head2 csum head_csum s) ps)
      | XMODEM_CANCEL \<Rightarrow> Returned 0 (putc ACK s) ps
      | XMODEM_EOT \<Rightarrow> Returned (rx_size s) (putc ACK s) ps)"
  by pat_completeness auto
termination
  by (relation "measure (\<lambda>(s, ps). length ps)") (auto dest: getc_shorter [OF sym] rx_packet_shorter [OF sym]
      dest!: getc_shorter rx_packet_shorter)

declare xm_loop.simps [simp del]

definition xmodem_receive :: "u32 \<Rightarrow> memory \<Rightarrow> polls \<Rightarrow> xmodem_result" where
  "xmodem_receive buf m ps =
     xm_loop \<lparr>st = XMODEM_RX_READY, retry = RETRY, block_index = 1, ptr = buf, rx_size = 0, ram = m, sent = []\<rparr> ps"

section \<open>Bytes on the line\<close>

text \<open>The polls deliver the bytes, each before the receiver times out, and go on with the rest.\<close>

inductive arrives :: "u8 list \<Rightarrow> polls \<Rightarrow> polls \<Rightarrow> bool" where
  arrives_nil: "arrives [] qs qs"
| arrives_cons: "n < TIMEOUT \<Longrightarrow> arrives bs ps qs \<Longrightarrow> arrives (b # bs) (replicate n None @ Some b # ps) qs"

inductive_cases arrives_consE: "arrives (b # bs) ps qs"
inductive_simps arrives_nil_iff [simp]: "arrives [] ps qs"

lemma getc_polls_replicate: "n < t \<Longrightarrow> getc_polls t (replicate n None @ Some b # ps) = Some (Some b, ps)"
  by (induction n arbitrary: t) auto

lemma getc_arrives: "arrives (b # bs) ps qs \<Longrightarrow> \<exists>rs. getc ps = Some (Some b, rs) \<and> arrives bs rs qs"
  by (erule arrives_consE) (auto simp: getc_polls_replicate)

lemma arrives_now: "arrives bs ps qs \<Longrightarrow> arrives (b # bs) (Some b # ps) qs"
  using arrives_cons [of 0] by (simp add: TIMEOUT_def)

lemma arrives_map: "arrives bs (map Some bs @ qs) qs"
  by (induction bs) (auto intro: arrives_now arrives_nil)

lemma rx_data_arrives:
  "arrives (bs @ later) ps qs \<Longrightarrow> \<exists>rs. rx_data (length bs) i k s ps =
     Some (Some (k + sum_list bs), s\<lparr>ram := write_bytes (ptr s + i) bs (ram s)\<rparr>, rs) \<and> arrives later rs qs"
proof (induction bs arbitrary: i k s ps)
  case (Cons b bs)
  obtain rs where rs: "getc ps = Some (Some b, rs)" "arrives (bs @ later) rs qs"
    using getc_arrives Cons.prems by fastforce
  then show ?case
    using Cons.IH [OF rs(2), of "i + 1" "k + b" "s\<lparr>ram := (ram s)(ptr s + i := b)\<rparr>"] by (simp add: ac_simps fun_upd_def)
qed simp

lemma rx_packet_arrives:
  assumes "arrives (h1 # h2 # bs @ cs # later) ps qs"
  shows "\<exists>rs. rx_packet (length bs) s ps =
      Packet h1 h2 (sum_list bs) cs (s\<lparr>ram := write_bytes (ptr s) bs (ram s)\<rparr>) rs \<and> arrives later rs qs"
proof -
  obtain p1 where p1: "getc ps = Some (Some h1, p1)" "arrives (h2 # bs @ cs # later) p1 qs"
    using getc_arrives assms by blast
  obtain p2 where p2: "getc p1 = Some (Some h2, p2)" "arrives (bs @ cs # later) p2 qs"
    using getc_arrives p1(2) by blast
  obtain p3 where p3: "rx_data (length bs) 0 0 s p2 =
      Some (Some (sum_list bs), s\<lparr>ram := write_bytes (ptr s) bs (ram s)\<rparr>, p3)" "arrives (cs # later) p3 qs"
    using rx_data_arrives [OF p2(2), of 0 0 s] by auto
  obtain p4 where "getc p3 = Some (Some cs, p4)" "arrives later p4 qs"
    using getc_arrives p3(2) by blast
  then show ?thesis using p1 p2 p3 by (simp add: rx_packet_def)
qed

section \<open>A transfer\<close>

definition frame_bytes :: "u8 \<times> u8 \<times> u8 list \<times> u8 \<Rightarrow> u8 list" where
  "frame_bytes = (\<lambda>(h1, h2, bs, cs). SOH # h1 # h2 # bs @ [cs])"

definition good_frame :: "u8 \<Rightarrow> u8 list \<Rightarrow> u8 list" where
  "good_frame k bs = frame_bytes (k, 255 - k, bs, sum_list bs)"

definition garbled :: "u8 \<times> u8 \<times> u8 list \<times> u8 \<Rightarrow> bool" where
  "garbled = (\<lambda>(h1, h2, bs, cs). length bs = 128 \<and> (h1 \<noteq> 255 - h2 \<or> cs \<noteq> sum_list bs))"

text \<open>A block is sent garbled a few times, then well, and maybe again because its answer was lost.\<close>

type_synonym delivery = "(u8 \<times> u8 \<times> u8 list \<times> u8) list \<times> u8 list \<times> nat"

definition delivery_ok :: "delivery \<Rightarrow> bool" where
  "delivery_ok = (\<lambda>(bads, bs, d). length bs = 128 \<and> length bads < RETRY \<and> list_all garbled bads)"

definition delivery_bytes :: "u8 \<Rightarrow> delivery \<Rightarrow> u8 list" where
  "delivery_bytes k = (\<lambda>(bads, bs, d). concat (map frame_bytes bads) @ concat (replicate (Suc d) (good_frame k bs)))"

definition replies :: "delivery \<Rightarrow> u8 list" where
  "replies = (\<lambda>(bads, bs, d). replicate (length bads) NAK @ replicate (Suc d) ACK)"

fun file_bytes :: "u8 \<Rightarrow> delivery list \<Rightarrow> u8 list" where
  "file_bytes k [] = []"
| "file_bytes k (d # ds) = delivery_bytes k d @ file_bytes (k + 1) ds"

lemma complement: "uint h1 = 255 - uint h2 \<longleftrightarrow> h1 = 255 - h2" for h1 h2 :: u8
proof -
  have "unat h2 < 2 ^ LENGTH(8)" by (rule unsigned_less)
  then have "h2 \<le> 255" by (simp add: word_le_nat_alt)
  then have "uint (255 - h2) = 255 - uint h2" by (simp add: uint_sub_if' word_le_def)
  then show ?thesis by (metis word_uint_eq_iff)
qed

text \<open>The receiver between two frames: \<open>data\<close> is stored and the block \<open>k\<close> is expected.\<close>

definition receiving :: "u32 \<Rightarrow> u8 list \<Rightarrow> u8 \<Rightarrow> nat \<Rightarrow> u8 list \<Rightarrow> xmodem \<Rightarrow> bool" where
  "receiving buf data k r out s \<longleftrightarrow> st s = XMODEM_WAIT_HEADER \<and> ptr s = buf + of_nat (length data)
     \<and> rx_size s = int (length data) \<and> block_index s = k \<and> retry s = r \<and> sent s = out
     \<and> read_bytes (ram s) buf (length data) = data"

text \<open>One frame, whatever it holds.\<close>

lemma xm_loop_frame:
  assumes "st s = XMODEM_WAIT_HEADER" "0 < retry s" "length bs = 128"
    and "arrives (frame_bytes (h1, h2, bs, cs) @ later) ps qs"
  shows "\<exists>rs. xm_loop s ps = xm_loop (take_packet 128 h1 h2 (sum_list bs) cs
      (s\<lparr>st := XMODEM_RX_PACKET, ram := write_bytes (ptr s) bs (ram s)\<rparr>)) rs \<and> arrives later rs qs"
proof -
  have "arrives (SOH # h1 # h2 # bs @ cs # later) ps qs" using assms(4) by (simp add: frame_bytes_def)
  then obtain p1 where p1: "getc ps = Some (Some SOH, p1)" "arrives (h1 # h2 # bs @ cs # later) p1 qs"
    using getc_arrives by blast
  obtain p2 where p2: "rx_packet 128 (s\<lparr>st := XMODEM_RX_PACKET\<rparr>) p1 =
      Packet h1 h2 (sum_list bs) cs (s\<lparr>st := XMODEM_RX_PACKET, ram := write_bytes (ptr s) bs (ram s)\<rparr>) p2"
    "arrives later p2 qs"
    using rx_packet_arrives [OF p1(2), of "s\<lparr>st := XMODEM_RX_PACKET\<rparr>"] assms(3) by auto
  have "xm_loop s ps = xm_loop (s\<lparr>st := XMODEM_RX_PACKET\<rparr>) p1"
    using assms(1,2) p1(1) by (subst xm_loop.simps) simp
  also have "\<dots> = xm_loop (take_packet 128 h1 h2 (sum_list bs) cs
      (s\<lparr>st := XMODEM_RX_PACKET, ram := write_bytes (ptr s) bs (ram s)\<rparr>)) p2"
    using assms(2) p2(1) by (subst xm_loop.simps) simp
  finally show ?thesis using p2(2) by blast
qed

lemma keeps_data:
  "length (data @ bs) \<le> 2 ^ 32 \<Longrightarrow> read_bytes m buf (length data) = data \<Longrightarrow>
     read_bytes (write_bytes (buf + of_nat (length data)) bs m) buf (length data) = data"
  using read_write_extend [of "length data" bs buf m] read_bytes_append [of _ buf "length data" "length bs"]
  by (simp add: append_eq_append_conv)

lemma garbled_frame:
  assumes "receiving buf data k (Suc r) out s" "garbled bad" "length data + 128 \<le> 2 ^ 32"
    and "arrives (frame_bytes bad @ later) ps qs"
  shows "\<exists>t rs. xm_loop s ps = xm_loop t rs \<and> receiving buf data k r (out @ [NAK]) t \<and> arrives later rs qs"
proof -
  obtain h1 h2 bs cs where bad: "bad = (h1, h2, bs, cs)" by (cases bad)
  then have g: "length bs = 128" "\<not> (h1 = 255 - h2 \<and> cs = sum_list bs)" using assms(2) by (auto simp: garbled_def)
  have s: "st s = XMODEM_WAIT_HEADER" "0 < retry s" using assms(1) by (simp_all add: receiving_def)
  obtain rs where "xm_loop s ps = xm_loop (take_packet 128 h1 h2 (sum_list bs) cs
      (s\<lparr>st := XMODEM_RX_PACKET, ram := write_bytes (ptr s) bs (ram s)\<rparr>)) rs" "arrives later rs qs"
    using xm_loop_frame [OF s g(1)] assms(4) bad by blast
  moreover have "receiving buf data k r (out @ [NAK]) (take_packet 128 h1 h2 (sum_list bs) cs
      (s\<lparr>st := XMODEM_RX_PACKET, ram := write_bytes (ptr s) bs (ram s)\<rparr>))"
    using assms(1,3) g keeps_data [of data bs "ram s" buf]
    by (auto simp: take_packet_def complement putc_def receiving_def)
  ultimately show ?thesis by blast
qed

lemma next_frame:
  assumes "receiving buf data k (Suc r) out s" "length bs = 128" "length data + 128 \<le> 2 ^ 32"
    and "arrives (good_frame k bs @ later) ps qs"
  shows "\<exists>t rs. xm_loop s ps = xm_loop t rs \<and> receiving buf (data @ bs) (k + 1) RETRY (out @ [ACK]) t \<and> arrives later rs qs"
proof -
  have s: "st s = XMODEM_WAIT_HEADER" "0 < retry s" "ptr s = buf + of_nat (length data)"
    using assms(1) by (simp_all add: receiving_def)
  obtain rs where "xm_loop s ps = xm_loop (take_packet 128 k (255 - k) (sum_list bs) (sum_list bs)
      (s\<lparr>st := XMODEM_RX_PACKET, ram := write_bytes (ptr s) bs (ram s)\<rparr>)) rs" "arrives later rs qs"
    using xm_loop_frame [OF s(1,2) assms(2)] assms(4) unfolding good_frame_def by blast
  moreover have "receiving buf (data @ bs) (k + 1) RETRY (out @ [ACK]) (take_packet 128 k (255 - k) (sum_list bs) (sum_list bs)
      (s\<lparr>st := XMODEM_RX_PACKET, ram := write_bytes (ptr s) bs (ram s)\<rparr>))"
    using assms(1-3) read_write_extend [of "length data" bs buf "ram s"]
    by (simp add: take_packet_def complement putc_def receiving_def)
  ultimately show ?thesis by blast
qed

lemma repeated_frame:
  assumes "receiving buf data (k + 1) (Suc r) out s" "length bs = 128" "length data + 128 \<le> 2 ^ 32"
    and "arrives (good_frame k bs @ later) ps qs"
  shows "\<exists>t rs. xm_loop s ps = xm_loop t rs \<and> receiving buf data (k + 1) (Suc r) (out @ [ACK]) t \<and> arrives later rs qs"
proof -
  have s: "st s = XMODEM_WAIT_HEADER" "0 < retry s" "ptr s = buf + of_nat (length data)"
    using assms(1) by (simp_all add: receiving_def)
  obtain rs where "xm_loop s ps = xm_loop (take_packet 128 k (255 - k) (sum_list bs) (sum_list bs)
      (s\<lparr>st := XMODEM_RX_PACKET, ram := write_bytes (ptr s) bs (ram s)\<rparr>)) rs" "arrives later rs qs"
    using xm_loop_frame [OF s(1,2) assms(2)] assms(4) unfolding good_frame_def by blast
  moreover have "receiving buf data (k + 1) (Suc r) (out @ [ACK]) (take_packet 128 k (255 - k) (sum_list bs) (sum_list bs)
      (s\<lparr>st := XMODEM_RX_PACKET, ram := write_bytes (ptr s) bs (ram s)\<rparr>))"
    using assms(1-3) keeps_data [of data bs "ram s" buf]
    by (simp add: take_packet_def complement putc_def receiving_def)
  ultimately show ?thesis by blast
qed

text \<open>Runs of such frames.\<close>

lemma garbled_frames:
  "receiving buf data k (Suc (length bads + r)) out s \<Longrightarrow> list_all garbled bads \<Longrightarrow> length data + 128 \<le> 2 ^ 32 \<Longrightarrow>
     arrives (concat (map frame_bytes bads) @ later) ps qs \<Longrightarrow>
     \<exists>t rs. xm_loop s ps = xm_loop t rs \<and> receiving buf data k (Suc r) (out @ replicate (length bads) NAK) t
       \<and> arrives later rs qs"
proof (induction bads arbitrary: s ps out)
  case (Cons bad bads)
  obtain t rs where t: "xm_loop s ps = xm_loop t rs" "receiving buf data k (Suc (length bads + r)) (out @ [NAK]) t"
    "arrives (concat (map frame_bytes bads) @ later) rs qs"
    using garbled_frame [of buf data k "Suc (length bads + r)" out s bad "concat (map frame_bytes bads) @ later" ps qs] Cons.prems
    by auto
  show ?case using Cons.IH [OF t(2) _ _ t(3)] Cons.prems t(1) by simp
qed auto

lemma repeated_frames:
  "receiving buf data (k + 1) (Suc r) out s \<Longrightarrow> length bs = 128 \<Longrightarrow> length data + 128 \<le> 2 ^ 32 \<Longrightarrow>
     arrives (concat (replicate d (good_frame k bs)) @ later) ps qs \<Longrightarrow>
     \<exists>t rs. xm_loop s ps = xm_loop t rs \<and> receiving buf data (k + 1) (Suc r) (out @ replicate d ACK) t
       \<and> arrives later rs qs"
proof (induction d arbitrary: s ps out)
  case (Suc d)
  obtain t rs where t: "xm_loop s ps = xm_loop t rs" "receiving buf data (k + 1) (Suc r) (out @ [ACK]) t"
    "arrives (concat (replicate d (good_frame k bs)) @ later) rs qs"
    using repeated_frame [of buf data k r out s bs "concat (replicate d (good_frame k bs)) @ later" ps qs] Suc.prems
    by auto
  show ?case using Suc.IH [OF t(2) _ _ t(3)] Suc.prems t(1) by (simp add: replicate_app_Cons_same)
qed auto

lemma one_delivery:
  assumes "receiving buf data k RETRY out s" "delivery_ok d" "length data + 256 \<le> 2 ^ 32"
    and "arrives (delivery_bytes k d @ later) ps qs"
  shows "\<exists>t rs r. xm_loop s ps = xm_loop t rs \<and> receiving buf (data @ fst (snd d)) (k + 1) RETRY (out @ replies d) t
    \<and> arrives later rs qs"
proof -
  obtain bads bs n where d: "d = (bads, bs, n)" by (cases d)
  have ok: "length bs = 128" "length bads < 20" "list_all garbled bads"
    using assms(2) by (simp_all add: delivery_ok_def d RETRY_def)
  obtain r where r: "RETRY = Suc (length bads + r)"
    using ok(2) that [of "19 - length bads"] by (simp add: RETRY_def)
  obtain t rs where t: "xm_loop s ps = xm_loop t rs" "receiving buf data k (Suc r) (out @ replicate (length bads) NAK) t"
    "arrives (good_frame k bs @ concat (replicate n (good_frame k bs)) @ later) rs qs"
    using garbled_frames [OF assms(1) [unfolded r] ok(3), of "good_frame k bs @ concat (replicate n (good_frame k bs)) @ later" ps qs]
      assms(3,4) by (auto simp: delivery_bytes_def d)
  obtain u rs' where u: "xm_loop t rs = xm_loop u rs'"
    "receiving buf (data @ bs) (k + 1) RETRY ((out @ replicate (length bads) NAK) @ [ACK]) u"
    "arrives (concat (replicate n (good_frame k bs)) @ later) rs' qs"
    using next_frame [OF t(2) ok(1) _ t(3)] assms(3) by auto
  have len: "length (data @ bs) + 128 \<le> 2 ^ 32" using assms(3) ok(1) by simp
  have "RETRY = Suc 19" by (simp add: RETRY_def)
  then obtain v rs'' where v: "xm_loop u rs' = xm_loop v rs''"
    "receiving buf (data @ bs) (k + 1) RETRY (((out @ replicate (length bads) NAK) @ [ACK]) @ replicate n ACK) v"
    "arrives later rs'' qs"
    using repeated_frames [of buf "data @ bs" k 19 "(out @ replicate (length bads) NAK) @ [ACK]" u bs n later rs' qs] u ok(1) len
    by auto
  then show ?thesis using t u v by (intro exI [of _ v] exI [of _ rs'']) (simp add: d replies_def)
qed

lemma deliveries:
  "receiving buf data k RETRY out s \<Longrightarrow> list_all delivery_ok ds \<Longrightarrow>
     length data + 128 * length ds + 128 \<le> 2 ^ 32 \<Longrightarrow> arrives (file_bytes k ds @ later) ps qs \<Longrightarrow>
     \<exists>t rs. xm_loop s ps = xm_loop t rs \<and> receiving buf (data @ concat (map (fst \<circ> snd) ds)) (k + of_nat (length ds)) RETRY
       (out @ concat (map replies ds)) t \<and> arrives later rs qs"
proof (induction ds arbitrary: data k out s ps)
  case Nil
  then show ?case by auto
next
  case (Cons d ds)
  have len: "length (fst (snd d)) = 128" using Cons.prems(2) by (auto simp: delivery_ok_def split: prod.splits)
  obtain t rs where t: "xm_loop s ps = xm_loop t rs"
    "receiving buf (data @ fst (snd d)) (k + 1) RETRY (out @ replies d) t" "arrives (file_bytes (k + 1) ds @ later) rs qs"
    using one_delivery [of buf data k out s d "file_bytes (k + 1) ds @ later" ps qs] Cons.prems by auto
  show ?case
    using Cons.IH [OF t(2) _ _ t(3)] Cons.prems(2,3) len t(1) by (simp add: add.assoc)
qed

text \<open>In the first state the frame opens with a NAK of the receiver and then as in any other.\<close>

lemma xm_loop_start:
  assumes "0 < retry s" "arrives (SOH # later) ps qs" "st s = XMODEM_RX_READY"
  shows "xm_loop s ps = xm_loop (putc NAK s\<lparr>st := XMODEM_WAIT_HEADER\<rparr>) ps"
proof -
  obtain rs where "getc ps = Some (Some SOH, rs)" using getc_arrives assms(2) by blast
  then show ?thesis
    using assms by (subst (1 2) xm_loop.simps) (simp add: putc_def)
qed

lemma file_bytes_start: "ds \<noteq> [] \<Longrightarrow> \<exists>later. file_bytes k ds = SOH # later"
  by (cases ds; cases "fst (hd ds)") (auto simp: delivery_bytes_def good_frame_def frame_bytes_def split: prod.splits)

text \<open>C27: A file of 128-byte blocks arrives over a noisy line: whatever the pauses within the timeout, as long as each
  block is garbled fewer than 20 times before it comes well, and however often blocks are sent
  again, the receiver returns the length of the file, memory holds exactly the file, and the
  answers are a NAK per garbled frame and an ACK per good one.\<close>

theorem xmodem_receives_file:
  assumes "ds \<noteq> []" "list_all delivery_ok ds" "128 * length ds < 2 ^ 31"
    and "arrives (file_bytes 1 ds @ [EOT]) ps qs"
  shows "\<exists>s. xmodem_receive buf m ps = Returned (int (128 * length ds)) s qs
    \<and> read_bytes (ram s) buf (128 * length ds) = concat (map (fst \<circ> snd) ds)
    \<and> sent s = NAK # concat (map replies ds) @ [ACK]"
proof -
  let ?s = "\<lparr>st = XMODEM_RX_READY, retry = RETRY, block_index = 1, ptr = buf, rx_size = 0, ram = m, sent = []\<rparr>"
  let ?file = "concat (map (fst \<circ> snd) ds)"
  obtain more where "file_bytes 1 ds = SOH # more" using file_bytes_start [OF assms(1)] by blast
  then have start: "xmodem_receive buf m ps = xm_loop (putc NAK ?s\<lparr>st := XMODEM_WAIT_HEADER\<rparr>) ps"
    unfolding xmodem_receive_def using xm_loop_start [of ?s] assms(4) by (simp add: RETRY_def)
  have rcv: "receiving buf [] 1 RETRY [NAK] (putc NAK ?s\<lparr>st := XMODEM_WAIT_HEADER\<rparr>)"
    by (simp add: receiving_def putc_def)
  obtain t rs where t: "xmodem_receive buf m ps = xm_loop t rs"
    "receiving buf ?file (1 + of_nat (length ds)) RETRY ([NAK] @ concat (map replies ds)) t" "arrives [EOT] rs qs"
    using deliveries [OF rcv assms(2) _ assms(4)] assms(3) start by auto
  have "getc rs = Some (Some EOT, qs)" using getc_arrives [OF t(3)] by auto
  then have "xm_loop t rs = xm_loop (t\<lparr>st := XMODEM_EOT\<rparr>) qs"
    using t(2) by (subst xm_loop.simps) (simp add: receiving_def RETRY_def xmodem_consts)
  also have "\<dots> = Returned (rx_size t) (putc ACK (t\<lparr>st := XMODEM_EOT\<rparr>)) qs"
    using t(2) by (subst xm_loop.simps) (simp add: receiving_def RETRY_def)
  finally have run: "xmodem_receive buf m ps = Returned (rx_size t) (putc ACK (t\<lparr>st := XMODEM_EOT\<rparr>)) qs"
    using t(1) by simp
  have "length ?file = 128 * length ds"
    using assms(2) by (induction ds) (auto simp: delivery_ok_def split: prod.splits)
  then show ?thesis using run t(2) by (simp add: receiving_def putc_def)
qed

text \<open>Two blocks, the first garbled once, the second sent twice, with pauses at the start.\<close>

definition sample_file :: "delivery list" where
  "sample_file = [([(1, 254, replicate 128 7, 0)], replicate 128 7, 0), ([], replicate 128 9, 1)]"

lemma xmodem_receives_file_witness:
  "\<exists>s. xmodem_receive 0x80300000 (\<lambda>_. 0) (replicate 5 None @ map Some (file_bytes 1 sample_file @ [EOT]))
       = Returned 256 s []
     \<and> read_bytes (ram s) 0x80300000 256 = replicate 128 7 @ replicate 128 9
     \<and> sent s = [NAK, NAK, ACK, ACK, ACK, ACK]"
proof -
  have ok: "list_all delivery_ok sample_file"
    by (simp add: sample_file_def delivery_ok_def garbled_def RETRY_def sum_list_replicate)
  have ne: "sample_file \<noteq> []" by (simp add: sample_file_def)
  obtain bs where bs: "file_bytes 1 sample_file @ [EOT] = SOH # bs"
    using file_bytes_start [OF ne, of 1] by auto
  have "arrives (file_bytes 1 sample_file @ [EOT]) (replicate 5 None @ Some SOH # (map Some bs @ [])) []"
    unfolding bs by (rule arrives_cons [OF _ arrives_map]) (simp add: TIMEOUT_def)
  then show ?thesis
    using xmodem_receives_file [of sample_file "replicate 5 None @ map Some (file_bytes 1 sample_file @ [EOT])" "[]" "0x80300000" "\<lambda>_. 0"] ok
    unfolding bs by (simp add: sample_file_def replies_def)
qed

text \<open>
  A timeout inside a packet. The receiver answers NAK but goes on reading a packet, so the start
  of the frame that is sent again is taken for its block number, and the last byte of the
  frame stays on the line.
\<close>

lemma xm_loop_misread:
  assumes "st s = XMODEM_RX_PACKET" "1 < retry s" "length bs = 128" "k \<noteq> 254"
    and "arrives (good_frame k bs @ later) ps qs"
  shows "\<exists>t rs. xm_loop s ps = xm_loop t rs \<and> arrives (sum_list bs # later) rs qs \<and> st t = XMODEM_WAIT_HEADER
    \<and> retry t = retry s - 1 \<and> rx_size t = rx_size s \<and> ptr t = ptr s \<and> block_index t = block_index s
    \<and> sent t = sent s @ [NAK]"
proof -
  obtain xs x where bs: "bs = xs @ [x]" by (cases bs rule: rev_cases) (use assms(3) in auto)
  let ?ys = "(255 - k) # xs"
  let ?t = "take_packet 128 SOH k (sum_list ?ys) x (s\<lparr>ram := write_bytes (ptr s) ?ys (ram s)\<rparr>)"
  have "arrives (SOH # k # ?ys @ x # sum_list bs # later) ps qs"
    using assms(5) by (simp add: good_frame_def frame_bytes_def bs)
  then obtain rs where rs: "rx_packet 128 s ps = Packet SOH k (sum_list ?ys) x (s\<lparr>ram := write_bytes (ptr s) ?ys (ram s)\<rparr>) rs"
    "arrives (sum_list bs # later) rs qs"
    using rx_packet_arrives [of SOH k ?ys x "sum_list bs # later" ps qs s] assms(3) bs by auto
  have "SOH \<noteq> 255 - k"
  proof
    assume "SOH = 255 - k"
    then have "k = 255 - SOH" by (simp add: algebra_simps)
    then show False using assms(4) by (simp add: SOH_def)
  qed
  then have "st ?t = XMODEM_WAIT_HEADER" "retry ?t = retry s - 1" "rx_size ?t = rx_size s" "ptr ?t = ptr s"
    "block_index ?t = block_index s" "sent ?t = sent s @ [NAK]"
    by (simp_all add: take_packet_def complement putc_def)
  moreover have "xm_loop s ps = xm_loop ?t rs"
    using assms(1,2) rs(1) by (subst xm_loop.simps) simp
  ultimately show ?thesis using rs(2) by blast
qed

lemma ram_same: "\<exists>m. (s :: xmodem) = s\<lparr>ram := m\<rparr>"
  by (rule exI [of _ "ram s"]) simp

lemma rx_data_ram: "rx_data n i k s ps = Some (c, u, qs) \<Longrightarrow> \<exists>m. u = s\<lparr>ram := m\<rparr>"
proof (induction n arbitrary: i k s ps)
  case 0
  then show ?case using ram_same by simp
next
  case (Suc n)
  show ?case
    using Suc.prems ram_same by (auto split: option.splits dest!: Suc.IH) blast
qed

lemma rx_packet_ram: "rx_packet n s ps = Timed_out u qs \<Longrightarrow> \<exists>m. u = s\<lparr>ram := m\<rparr>"
  using ram_same rx_data_ram by (fastforce simp: rx_packet_def split: option.splits)

text \<open>After a timeout anywhere inside a packet, the block that is correctly sent again is not stored, and when the
  sum of its bytes is 4, the checksum byte left on the line is read as the end of the transfer: the
  receiver reports success for the file without this block and all that follow.\<close>

theorem xmodem_truncates_file:
  assumes "st s = XMODEM_RX_PACKET" "2 < retry s" "rx_packet 128 s ps = Timed_out u ps'"
    and "length bs = 128" "sum_list bs = EOT" "k \<noteq> 254" "arrives (good_frame k bs @ later) ps' qs"
  shows "\<exists>t rs. xm_loop s ps = Returned (rx_size s) t rs \<and> arrives later rs qs \<and> sent t = sent s @ [NAK, NAK, ACK]"
proof -
  let ?s = "putc NAK (u\<lparr>retry := retry u - 1\<rparr>)"
  obtain m where u: "u = s\<lparr>ram := m\<rparr>" using rx_packet_ram assms(3) by blast
  have "xm_loop s ps = xm_loop ?s ps'"
    using assms(1-3) by (subst xm_loop.simps) simp
  moreover have "st ?s = XMODEM_RX_PACKET" "1 < retry ?s" using assms(1,2) by (simp_all add: u putc_def)
  then obtain t rs where t: "xm_loop ?s ps' = xm_loop t rs" "arrives (sum_list bs # later) rs qs" "st t = XMODEM_WAIT_HEADER"
    "retry t = retry ?s - 1" "rx_size t = rx_size ?s" "sent t = sent ?s @ [NAK]"
    using xm_loop_misread assms(4,6,7) by blast
  obtain rs' where rs': "getc rs = Some (Some EOT, rs')" "arrives later rs' qs" using getc_arrives [OF t(2) [unfolded assms(5)]] by blast
  then have "xm_loop t rs = xm_loop (t\<lparr>st := XMODEM_EOT\<rparr>) rs'"
    using t assms(2) by (subst xm_loop.simps) (simp add: xmodem_consts putc_def u)
  moreover have "\<dots> = Returned (rx_size t) (putc ACK (t\<lparr>st := XMODEM_EOT\<rparr>)) rs'"
    using t assms(2) by (subst xm_loop.simps) (simp add: putc_def u)
  ultimately show ?thesis using t rs'(2) by (simp add: putc_def u)
qed

text \<open>The third block of a file is cut off after its number; the block that is sent again begins with 4.\<close>

definition cut_off :: xmodem where
  "cut_off = \<lparr>st = XMODEM_RX_PACKET, retry = 20, block_index = 3, ptr = 0x80300100, rx_size = 256, ram = (\<lambda>_. 0), sent = []\<rparr>"

lemma getc_timeout: "getc_polls t (replicate t None @ ps) = Some (None, ps)"
  by (induction t) (cases ps; simp)+

lemma xmodem_truncates_file_witness:
  "\<exists>t. xm_loop cut_off (Some 3 # replicate TIMEOUT None @ map Some (good_frame 3 (4 # replicate 127 0))) = Returned 256 t []
     \<and> sent t = [NAK, NAK, ACK]"
proof -
  have "getc (Some 3 # replicate TIMEOUT None @ map Some (good_frame 3 (4 # replicate 127 0)))
      = Some (Some 3, replicate TIMEOUT None @ map Some (good_frame 3 (4 # replicate 127 0)))"
    by (simp add: TIMEOUT_def del: replicate.simps)
  then have timed_out: "rx_packet 128 cut_off (Some 3 # replicate TIMEOUT None @ map Some (good_frame 3 (4 # replicate 127 0))) =
      Timed_out cut_off (map Some (good_frame 3 (4 # replicate 127 0)))"
    by (simp add: rx_packet_def getc_timeout)
  have "arrives (good_frame 3 (4 # replicate 127 0) @ []) (map Some (good_frame 3 (4 # replicate 127 0))) []"
    using arrives_map [of "good_frame 3 (4 # replicate 127 0)" "[]"] by simp
  from xmodem_truncates_file [OF _ _ timed_out _ _ _ this] show ?thesis
    by (simp add: cut_off_def EOT_def sum_list_replicate)
qed

end
