(* ===== verification/Nandboot.thy ===== *)
theory Nandboot
  imports Image
begin

text \<open>
  The first loader of NAND boards, \<^verbatim>\<open>btcode/iram_parallel_nand.c\<close>, which looks for a valid copy
  of the boot code in the first megabyte of the flash, and the tool that packs the boot code
  for it, \<^verbatim>\<open>btcode/cvimg.c\<close> (the Makefile builds it as \<^verbatim>\<open>cvimg_nand\<close> for a little-endian host
  with signed \<^verbatim>\<open>char\<close>). The controller is a function from page numbers to what it transfers for
  the page, the data and the spare bytes, and whether it reports the page as good (blank or
  corrected).
\<close>

section \<open>The image tool\<close>

text \<open>The loop of \<open>calculateChecksum\<close> and \<open>verifyChecksum\<close>; an odd last byte is sign extended.\<close>

fun sum_halfwords :: "u16 \<Rightarrow> u8 list \<Rightarrow> u16" where
  "sum_halfwords s (a # b # xs) = sum_halfwords (s + le16 a b) xs"
| "sum_halfwords s [a] = s + scast a"
| "sum_halfwords s [] = s"

definition calculateChecksum :: "u8 list \<Rightarrow> u16" where
  "calculateChecksum buf = NOT (sum_halfwords 0 buf) + 1"

definition verifyChecksum :: "u8 list \<Rightarrow> u16" where
  "verifyChecksum buf = sum_halfwords 0 buf"

definition NAND_FLASH_PAGE_SIZE :: nat where "NAND_FLASH_PAGE_SIZE = 2048"

definition image_size :: "nat \<Rightarrow> nat" where
  "image_size st_size =
     (let size = st_size + 16 + 2;
          size = (if size mod 2 \<noteq> 0 then size + 1 else size);
          over = size mod NAND_FLASH_PAGE_SIZE
      in if over \<le> 16 \<and> over \<noteq> 0 then size + (16 + 2 - over) else size)"

text \<open>What \<open>cvimg\<close> writes; another signature than these two ends the program.\<close>

definition cvimg :: "string \<Rightarrow> u32 \<Rightarrow> u32 \<Rightarrow> u8 list \<Rightarrow> u8 list option" where
  "cvimg sig start_addr burn_addr contents =
     (let size = image_size (length contents)
      in if sig = ''boot'' \<or> sig = ''iram''
         then Some (ascii sig @ bytes32 start_addr @ bytes32 burn_addr @ bytes32 (of_nat (size - 16))
                @ contents @ replicate (size - 16 - 2 - length contents) 0 @ bytes16 (calculateChecksum contents))
         else None)"

section \<open>The loader\<close>

record nand_page =
  page_data :: "u8 list"
  page_spare :: "u8 list"
  page_ok :: bool

type_synonym nand = "nat \<Rightarrow> nand_page"

definition BOOT_START_ADDR :: u32 where "BOOT_START_ADDR = 0xA0500000"
definition IMAGE_START :: u32 where "IMAGE_START = 0"
definition IMAGE_OFFSET :: u32 where "IMAGE_OFFSET = 0x40000"
definition IMAGE_SIZE :: u32 where "IMAGE_SIZE = 0x40000"
definition CONFIG_NAND_PAGE_SIZE :: u32 where "CONFIG_NAND_PAGE_SIZE = 2048"

lemmas nand_consts = BOOT_START_ADDR_def IMAGE_START_def IMAGE_OFFSET_def IMAGE_SIZE_def CONFIG_NAND_PAGE_SIZE_def

text \<open>The loop over the pages. The transfer puts the data at \<open>buf\<close>, which moves on, and the spare
  bytes at \<open>oobBuf\<close>, which does not; only then the status of the page is looked at.\<close>

fun read_pages :: "nand \<Rightarrow> u32 \<Rightarrow> u32 \<Rightarrow> nat \<Rightarrow> nat \<Rightarrow> memory \<Rightarrow> bool \<times> memory" where
  "read_pages nand oobBuf buf pagenum 0 m = (True, m)"
| "read_pages nand oobBuf buf pagenum (Suc n) m =
     (let page = nand pagenum;
          m = write_bytes oobBuf (page_spare page) (write_bytes buf (page_data page) m)
      in if \<not> page_ok page then (False, m)
         else read_pages nand oobBuf (buf + CONFIG_NAND_PAGE_SIZE) (pagenum + 1) n m)"

definition parallel_nand_read :: "nand \<Rightarrow> u32 \<Rightarrow> u32 \<Rightarrow> u32 \<Rightarrow> memory \<Rightarrow> bool \<times> memory" where
  "parallel_nand_read nand buff offset fin m =
     (if offset mod CONFIG_NAND_PAGE_SIZE \<noteq> 0 \<or> buff mod CONFIG_NAND_PAGE_SIZE \<noteq> 0 then (False, m)
      else
        (let pagestart = (offset + CONFIG_NAND_PAGE_SIZE - 1) div CONFIG_NAND_PAGE_SIZE;
             pageend = (fin + CONFIG_NAND_PAGE_SIZE - 1) div CONFIG_NAND_PAGE_SIZE
         in read_pages nand (buff + 0x100000) buff (unat pagestart) (unat pageend - unat pagestart) m))"

text \<open>The sum; with a length of 0xFFFFFFFF the index wraps and the loop never ends.\<close>

partial_function (option) image_sum :: "memory \<Rightarrow> u32 \<Rightarrow> u32 \<Rightarrow> u16 \<Rightarrow> u16 option" where
  "image_sum m len i acc =
     (if i < len then image_sum m len (i + 2) (acc + load16 m (BOOT_START_ADDR + 16 + i)) else Some acc)"

definition iram_check_image :: "memory \<Rightarrow> int option" where
  "iram_check_image m =
     (if read_bytes m BOOT_START_ADDR 4 \<noteq> BOOT_SIGNATURE then Some (-1)
      else map_option uint (image_sum m (load32 m (BOOT_START_ADDR + 12)) 0 0))"

text \<open>How the loader ends: in a jump to an address, or by returning.\<close>

datatype loader = Jumped u32 memory | Gave_up memory

fun nflash_loop :: "nand \<Rightarrow> memory \<Rightarrow> u32 list \<Rightarrow> loader option" where
  "nflash_loop nand m [] = Some (Gave_up m)"
| "nflash_loop nand m (i # is) =
     (let start = IMAGE_START + i * IMAGE_OFFSET;
          (ok, m) = parallel_nand_read nand BOOT_START_ADDR start (start + IMAGE_SIZE) m
      in if \<not> ok then Some (Gave_up m)
         else case iram_check_image m of
                None \<Rightarrow> None
              | Some r \<Rightarrow> if r \<noteq> 0 then nflash_loop nand m is else Some (Jumped 0xA0500010 m))"

definition iram_nflash_read :: "nand \<Rightarrow> memory \<Rightarrow> loader option" where
  "iram_nflash_read nand m = nflash_loop nand m [0, 1, 2, 3]"

section \<open>Sums\<close>

lemma sum_halfwords_append:
  "even (length xs) \<Longrightarrow> sum_halfwords s (xs @ ys) = sum_halfwords (sum_halfwords s xs) ys"
  by (induction s xs rule: sum_halfwords.induct) auto

lemma sum_halfwords_add: "sum_halfwords (s + r) xs = s + sum_halfwords r xs"
  by (induction r xs rule: sum_halfwords.induct) (simp_all add: add.assoc)

lemma sum_halfwords_start: "sum_halfwords s xs = s + sum_halfwords 0 xs"
  using sum_halfwords_add [of s 0 xs] by simp

lemma sum_halfwords_zeros: "even n \<Longrightarrow> sum_halfwords s (replicate n 0) = s"
proof -
  have "sum_halfwords s (replicate (2 * k) 0) = s" for k
    by (induction k) (simp_all add: le16_def)
  then show "even n \<Longrightarrow> ?thesis" by (auto elim: evenE)
qed

lemma image_size_facts: "even (image_size n)" "n + 18 \<le> image_size n"
  "n < 2 ^ 31 \<Longrightarrow> image_size n < 2 ^ 32"
proof -
  have fixed: "even (k + (16 + 2 - k mod 2048))" if "even k" for k :: nat
  proof -
    have "even (k mod 2048)" using that by (simp add: dvd_mod_iff)
    then show ?thesis using that by (simp add: dvd_diff_nat)
  qed
  define size where "size = (if (n + 16 + 2) mod 2 \<noteq> 0 then n + 16 + 2 + 1 else n + 16 + 2)"
  have "even size" unfolding size_def by presburger
  moreover have "image_size n = (if size mod 2048 \<le> 16 \<and> size mod 2048 \<noteq> 0 then size + (16 + 2 - size mod 2048) else size)"
    unfolding image_size_def Let_def NAND_FLASH_PAGE_SIZE_def size_def [symmetric] ..
  ultimately show "even (image_size n)" using fixed [of size] by (metis (no_types))
  show "n + 18 \<le> image_size n" "n < 2 ^ 31 \<Longrightarrow> image_size n < 2 ^ 32"
    by (auto simp: image_size_def Let_def NAND_FLASH_PAGE_SIZE_def)
qed

lemma even_replicate_odd:
  "odd n \<Longrightarrow> sum_halfwords s (a # replicate n 0) = s + ucast a"
proof -
  assume "odd n"
  then obtain k where "n = Suc (2 * k)" by (auto elim: oddE)
  then show ?thesis using sum_halfwords_zeros [of "2 * k"] by (simp add: le16_def)
qed

text \<open>The sum of what the loader adds up: 0, or 0x100 if an odd last byte was taken for negative.\<close>

definition sign_error :: "u8 list \<Rightarrow> u16" where
  "sign_error xs = (if odd (length xs) then ucast (last xs) - scast (last xs) else 0)"

lemma payload_sum:
  assumes "even (length xs + n)"
  shows "sum_halfwords 0 (xs @ replicate n 0 @ bytes16 (calculateChecksum xs)) = sign_error xs"
proof -
  have ck: "sum_halfwords s (bytes16 (calculateChecksum xs)) = s - sum_halfwords 0 xs" for s
    by (simp add: bytes16_def calculateChecksum_def minus_eq_not_plus_1 [symmetric])
  show ?thesis
  proof (cases "even (length xs)")
    case True
    then show ?thesis using assms
      by (simp add: sum_halfwords_append sum_halfwords_zeros ck sign_error_def)
  next
    case False
    then obtain ys a where xs: "xs = ys @ [a]" by (cases xs rule: rev_cases) auto
    then have "even (length ys)" "odd n" using False assms by auto
    then have "sum_halfwords 0 (xs @ replicate n 0 @ bytes16 (calculateChecksum xs)) =
        sum_halfwords (sum_halfwords 0 ys + ucast a) (bytes16 (calculateChecksum xs))"
      using sum_halfwords_append [of "a # replicate n 0" "sum_halfwords 0 ys" "bytes16 (calculateChecksum xs)"]
      by (simp add: xs sum_halfwords_append even_replicate_odd)
    also have "\<dots> = sum_halfwords 0 ys + ucast a - sum_halfwords 0 xs" by (rule ck)
    also have "\<dots> = sign_error xs"
      using \<open>even (length ys)\<close> by (simp add: xs sum_halfwords_append sign_error_def)
    finally show ?thesis .
  qed
qed

lemma bit_7: "bit a 7 \<longleftrightarrow> 0x80 \<le> a" for a :: u8
proof -
  have "unat a < 2 ^ LENGTH(8)" by (rule unsigned_less)
  then have "unat a div 128 < 2" by (simp add: less_mult_imp_div_less)
  then have "unat a div 128 = 0 \<or> unat a div 128 = 1" by linarith
  then have "odd (unat a div 128) \<longleftrightarrow> 128 \<le> unat a" by (auto simp: div_eq_0_iff)
  moreover have "bit a 7 \<longleftrightarrow> bit (unat a) 7" by (simp add: bit_simps)
  then have "bit a 7 \<longleftrightarrow> odd (unat a div 2 ^ 7)" by (simp only: bit_iff_odd)
  ultimately show ?thesis by (simp add: word_le_nat_alt)
qed

lemma sign_error_byte: "(ucast a :: u16) - scast a = (if 0x80 \<le> a then 0x100 else 0)" for a :: u8
proof (cases "bit a 7")
  case False
  have "scast a = (ucast a :: u16)"
  proof (rule bit_word_eqI)
    fix n :: nat
    consider "n < 7" | "n = 7" | "8 \<le> n" by linarith
    then show "bit (scast a :: u16) n = bit (ucast a :: u16) n"
      by cases (use False in \<open>auto simp: bit_simps bit_ge min_def\<close>)
  qed
  then show ?thesis using False bit_7 by simp
next
  case True
  have "scast a = (ucast a :: u16) OR push_bit 8 (mask 8)"
  proof (rule bit_word_eqI)
    fix n :: nat assume n: "n < LENGTH(16)"
    consider "n < 7" | "n = 7" | "8 \<le> n" by linarith
    then show "bit (scast a :: u16) n = bit (ucast a OR push_bit 8 (mask 8) :: u16) n"
      by cases (use n True in \<open>auto simp: bit_simps bit_ge min_def\<close>)
  qed
  also have "\<dots> = ucast a + push_bit 8 (mask 8)"
    by (rule disjunctive_add [symmetric]) (auto simp: bit_simps bit_ge)
  finally have "scast a = (ucast a :: u16) + 0xff00" unfolding mask_literals .
  then show ?thesis using True bit_7 by simp
qed

section \<open>What the loader reads and checks\<close>

definition copy :: "nand \<Rightarrow> nat \<Rightarrow> u8 list" where
  "copy nand i = concat (map (\<lambda>p. page_data (nand p)) [128 * i ..< 128 * (i + 1)])"

text \<open>A page of the right size that the controller reports as good; the spare bytes are fewer than
  the data.\<close>

definition good_page :: "nand_page \<Rightarrow> bool" where
  "good_page pg \<longleftrightarrow> page_ok pg \<and> length (page_data pg) = 2048 \<and> length (page_spare pg) \<le> 2048"

definition readable :: "nand \<Rightarrow> nat \<Rightarrow> bool" where
  "readable nand i \<longleftrightarrow> (\<forall>p \<in> {128 * i ..< 128 * (i + 1)}. good_page (nand p))"

text \<open>Transfers to places apart from each other commute.\<close>

lemma write_bytes_commute:
  "\<forall>k < length xs. \<forall>j < length ys. a + of_nat k \<noteq> b + of_nat j \<Longrightarrow>
     write_bytes b ys (write_bytes a xs m) = write_bytes a xs (write_bytes b ys m)"
proof (induction xs arbitrary: a m)
  case (Cons x xs)
  have "(write_bytes b ys m)(a := x) = write_bytes b ys (m(a := x))"
    using Cons.prems
  proof (induction ys arbitrary: b m)
    case (Cons y ys)
    have "a \<noteq> b" using Cons.prems [rule_format, of 0 0] by simp
    then have twist: "m(a := x, b := y) = m(b := y, a := x)" by (rule fun_upd_twist)
    have "\<forall>k < length (x # xs). \<forall>j < length ys. a + of_nat k \<noteq> b + 1 + of_nat j"
    proof (intro allI impI)
      fix k j assume "k < length (x # xs)" "j < length ys"
      then show "a + of_nat k \<noteq> b + 1 + of_nat j"
        using Cons.prems [rule_format, of k "Suc j"] by (simp add: add.assoc)
    qed
    from Cons.IH [OF this, of "m(b := y)"] show ?case by (simp only: write_bytes.simps twist)
  qed simp
  moreover have "\<forall>k < length xs. \<forall>j < length ys. a + 1 + of_nat k \<noteq> b + of_nat j"
  proof (intro allI impI)
    fix k j assume "k < length xs" "j < length ys"
    then show "a + 1 + of_nat k \<noteq> b + of_nat j"
      using Cons.prems [rule_format, of "Suc k" j] by (simp add: add.assoc)
  qed
  note Cons.IH [OF this, of "m(a := x)"]
  ultimately show ?case by (simp only: write_bytes.simps)
qed simp

definition apart :: "u32 \<Rightarrow> nat \<Rightarrow> u32 \<Rightarrow> bool" where
  "apart buf n oob \<longleftrightarrow> (\<forall>k < n. \<forall>j < 2048. buf + of_nat k \<noteq> oob + of_nat j)"

definition spares :: "nand \<Rightarrow> u32 \<Rightarrow> nat list \<Rightarrow> memory \<Rightarrow> memory" where
  "spares nand oob = fold (\<lambda>p. write_bytes oob (page_spare (nand p)))"

lemma spares_commute:
  assumes "apart buf 2048 oob" "\<forall>p \<in> set ps. good_page (nand p)" "length bs = 2048"
  shows "spares nand oob ps (write_bytes buf bs m) = write_bytes buf bs (spares nand oob ps m)"
  using assms(2)
proof (induction ps arbitrary: m)
  case (Cons p ps)
  have "write_bytes oob (page_spare (nand p)) (write_bytes buf bs m) = write_bytes buf bs (write_bytes oob (page_spare (nand p)) m)"
    by (rule write_bytes_commute) (use assms(1,3) Cons.prems in \<open>auto simp: apart_def good_page_def\<close>)
  then show ?case using Cons by (simp add: spares_def)
qed (simp add: spares_def)

lemma apart_next: "apart buf (2048 + n) oob \<Longrightarrow> apart (buf + 2048) n oob \<and> apart buf 2048 oob"
proof -
  assume a: "apart buf (2048 + n) oob"
  have "buf + 2048 + of_nat k \<noteq> oob + of_nat j" if "k < n" "j < 2048" for k j
    using a [unfolded apart_def, rule_format, of "2048 + k" j] that by (simp add: add.assoc)
  then show ?thesis using a by (auto simp: apart_def)
qed

lemma read_pages_all:
  "\<forall>q \<in> {p ..< p + n}. good_page (nand q) \<Longrightarrow> apart buf (n * 2048) oob \<Longrightarrow>
     read_pages nand oob buf p n m
       = (True, write_bytes buf (concat (map (\<lambda>p. page_data (nand p)) [p ..< p + n])) (spares nand oob [p ..< p + n] m))"
proof (induction n arbitrary: p buf m)
  case 0
  then show ?case by (simp add: spares_def)
next
  case (Suc n)
  have pg: "good_page (nand p)" using Suc.prems(1) by auto
  then have len: "length (page_data (nand p)) = 2048" "page_ok (nand p)" by (simp_all add: good_page_def)
  have ap: "apart (buf + 2048) (n * 2048) oob" "apart buf 2048 oob"
    using apart_next [of buf "n * 2048" oob] Suc.prems(2) by simp_all
  have rest: "\<forall>q \<in> {Suc p ..< Suc p + n}. good_page (nand q)" using Suc.prems(1) by auto
  let ?m = "write_bytes oob (page_spare (nand p)) (write_bytes buf (page_data (nand p)) m)"
  have cons: "[p ..< p + Suc n] = p # [Suc p ..< Suc p + n]" by (simp add: upt_conv_Cons)
  have "spares nand oob [Suc p ..< Suc p + n] ?m = spares nand oob (p # [Suc p ..< Suc p + n]) (write_bytes buf (page_data (nand p)) m)"
    by (simp add: spares_def)
  also have "\<dots> = write_bytes buf (page_data (nand p)) (spares nand oob (p # [Suc p ..< Suc p + n]) m)"
    by (rule spares_commute [OF ap(2) _ len(1)]) (use pg rest in auto)
  finally have "spares nand oob [Suc p ..< Suc p + n] ?m = \<dots>" .
  then show ?case
    using Suc.IH [OF rest ap(1), of ?m] len
    unfolding cons by (simp add: write_bytes_append CONFIG_NAND_PAGE_SIZE_def Let_def del: upt_Suc)
qed

lemma read_pages_stops:
  "\<not> page_ok (nand q) \<Longrightarrow> p \<le> q \<Longrightarrow> q < p + n \<Longrightarrow> \<not> fst (read_pages nand oob buf p n m)"
proof (induction n arbitrary: p buf m)
  case (Suc n)
  then show ?case by (cases "p = q") (auto simp: Let_def)
qed simp

lemma parallel_nand_read_copy:
  assumes "i < 4"
  shows "parallel_nand_read nand BOOT_START_ADDR (IMAGE_START + of_nat i * IMAGE_OFFSET)
      (IMAGE_START + of_nat i * IMAGE_OFFSET + IMAGE_SIZE) m
    = read_pages nand 0xA0600000 BOOT_START_ADDR (128 * i) 128 m"
proof -
  have "i = 0 \<or> i = 1 \<or> i = 2 \<or> i = 3" using assms by auto
  then show ?thesis by (auto simp: parallel_nand_read_def nand_consts Let_def)
qed

lemma boot_apart: "apart BOOT_START_ADDR (128 * 2048) 0xA0600000"
  unfolding apart_def
proof (intro allI impI notI)
  fix k j :: nat assume kj: "k < 128 * 2048" "j < 2048"
    and e: "BOOT_START_ADDR + of_nat k = 0xA0600000 + of_nat j"
  have "unat (BOOT_START_ADDR + of_nat k) = 0xA0500000 + k" "unat (0xA0600000 + of_nat j :: u32) = 0xA0600000 + j"
    using kj by (simp_all add: BOOT_START_ADDR_def unat_word_ariths unat_of_nat)
  then show False using e kj by simp
qed

text \<open>The memory around the copy that was read, with the spare bytes of its pages.\<close>

definition around :: "nand \<Rightarrow> nat \<Rightarrow> memory \<Rightarrow> memory" where
  "around nand i = spares nand 0xA0600000 [128 * i ..< 128 * (i + 1)]"

lemma read_pages_copy:
  assumes "readable nand i"
  shows "read_pages nand 0xA0600000 BOOT_START_ADDR (128 * i) 128 m
    = (True, write_bytes BOOT_START_ADDR (copy nand i) (around nand i m))"
proof -
  have e: "128 * (i + 1) = 128 * i + 128" by simp
  show ?thesis
    using assms boot_apart unfolding copy_def readable_def around_def e by (rule read_pages_all)
qed

lemma copy_length: "readable nand i \<Longrightarrow> length (copy nand i) = 0x40000"
proof -
  assume "readable nand i"
  then have "map (\<lambda>p. length (page_data (nand p))) [128 * i ..< 128 * (i + 1)] = map (\<lambda>p. 2048) [128 * i ..< 128 * (i + 1)]"
    by (intro map_cong) (force simp: readable_def good_page_def)+
  then show ?thesis by (simp add: copy_def length_concat comp_def map_replicate_const sum_list_replicate)
qed

lemma image_sum_even:
  assumes "even (length xs)" "unat i + length xs = unat len" "read_bytes m (BOOT_START_ADDR + 16 + i) (length xs) = xs"
  shows "image_sum m len i acc = Some (sum_halfwords acc xs)"
  using assms
proof (induction acc xs arbitrary: i rule: sum_halfwords.induct)
  case (1 s a b xs)
  have len: "unat len < 2 ^ LENGTH(32)" by (rule unsigned_less)
  have i: "i < len" using 1(3) by (simp add: word_less_nat_alt)
  have i2: "unat (i + 2) = unat i + 2" using 1(3) len by (simp add: unat_word_ariths)
  have "load16 m (BOOT_START_ADDR + 16 + i) = le16 a b"
    using 1(4) by (simp add: load16_def add.assoc)
  moreover have "image_sum m len (i + 2) (s + le16 a b) = Some (sum_halfwords (s + le16 a b) xs)"
    by (rule 1(1)) (use 1 i2 in \<open>simp_all add: ac_simps\<close>)
  ultimately show ?case using i by (subst image_sum.simps) simp
next
  case (3 s)
  then have "\<not> i < len" by (simp add: word_less_nat_alt)
  then show ?case by (subst image_sum.simps) simp
qed simp

text \<open>With the greatest length the loop never ends.\<close>

lemma image_sum_hangs:
  assumes "even (unat i)"
  shows "image_sum m 0xFFFFFFFF i acc = None"
proof (rule ccontr)
  assume "image_sum m 0xFFFFFFFF i acc \<noteq> None"
  then obtain y where y: "image_sum m 0xFFFFFFFF i acc = Some y" by auto
  have "len = 0xFFFFFFFF \<longrightarrow> odd (unat i)" if "image_sum m len i acc = Some y" for m len i acc y
  proof (rule image_sum.raw_induct [where P = "\<lambda>m len i acc y. len = 0xFFFFFFFF \<longrightarrow> odd (unat i)", OF _ that])
    fix f :: "memory \<Rightarrow> u32 \<Rightarrow> u32 \<Rightarrow> u16 \<Rightarrow> u16 option" and m len i acc y
    assume IH: "\<And>m len i acc y. f m len i acc = Some y \<Longrightarrow> len = 0xFFFFFFFF \<longrightarrow> odd (unat i)"
      and run: "(if i < len then f m len (i + 2) (acc + load16 m (BOOT_START_ADDR + 16 + i)) else Some acc) = Some y"
    show "len = 0xFFFFFFFF \<longrightarrow> odd (unat i)"
    proof (intro impI notI)
      assume len: "len = 0xFFFFFFFF" and ev: "even (unat i)"
      then have "i \<noteq> len" by auto
      moreover have "unat i < 2 ^ LENGTH(32)" by (rule unsigned_less)
      ultimately have "i < len" using len by (simp add: word_less_nat_alt word_unat_eq_iff)
      then have "odd (unat (i + 2))" using run len IH by simp
      moreover have "even (unat (i + 2))" using ev by (simp add: unat_word_ariths dvd_mod_iff)
      ultimately show False by simp
    qed
  qed
  then show False using y assms by blast
qed

text \<open>The check on the bytes of the copy. A copy that is rejected has a wrong signature or sum.\<close>

definition header_len :: "u8 list \<Rightarrow> u32" where
  "header_len bs = le32 (bs ! 12) (bs ! 13) (bs ! 14) (bs ! 15)"

definition rejected :: "u8 list \<Rightarrow> bool" where
  "rejected bs \<longleftrightarrow> take 4 bs \<noteq> BOOT_SIGNATURE
     \<or> even (unat (header_len bs)) \<and> 16 + unat (header_len bs) \<le> length bs
       \<and> sum_halfwords 0 (take (unat (header_len bs)) (drop 16 bs)) \<noteq> 0"

lemma read_bytes_take: "k \<le> n \<Longrightarrow> read_bytes m a k = take k (read_bytes m a n)"
  using read_bytes_append [of m a k "n - k"] by simp

lemma read_bytes_drop: "k \<le> n \<Longrightarrow> read_bytes m (a + of_nat k) (n - k) = drop k (read_bytes m a n)"
  using read_bytes_append [of m a k "n - k"] by simp

lemma read_header_len:
  assumes "read_bytes m a n = bs" "16 \<le> n"
  shows "load32 m (a + 12) = header_len bs"
proof -
  have "bs ! k = m (a + of_nat k)" if "k < 16" for k using read_bytes_nth [of k n m a] assms that by simp
  then show ?thesis by (simp add: load32_def header_len_def add.assoc)
qed

lemma iram_check_even:
  assumes "read_bytes m BOOT_START_ADDR (length bs) = bs" "16 + unat (header_len bs) \<le> length bs"
    and "even (unat (header_len bs))" "take 4 bs = BOOT_SIGNATURE"
  shows "iram_check_image m = Some (uint (sum_halfwords 0 (take (unat (header_len bs)) (drop 16 bs))))"
proof -
  let ?l = "header_len bs" and ?xs = "take (unat (header_len bs)) (drop 16 bs)"
  have "read_bytes m BOOT_START_ADDR 4 = BOOT_SIGNATURE"
    using read_bytes_take [of 4 "length bs" m BOOT_START_ADDR] assms by simp
  moreover have len: "load32 m (BOOT_START_ADDR + 12) = ?l"
    using read_header_len [OF assms(1)] assms(2) by simp
  moreover have "read_bytes m (BOOT_START_ADDR + 16) (unat ?l) = ?xs"
  proof -
    have "read_bytes m (BOOT_START_ADDR + 16) (length bs - 16) = drop 16 bs"
      using read_bytes_drop [of 16 "length bs" m BOOT_START_ADDR] assms(1,2) by simp
    then show ?thesis
      using read_bytes_take [of "unat ?l" "length bs - 16" m "BOOT_START_ADDR + 16"] assms(2) by simp
  qed
  then have "image_sum m ?l 0 0 = Some (sum_halfwords 0 ?xs)"
    using assms(2,3) by (intro image_sum_even) simp_all
  ultimately show ?thesis unfolding iram_check_image_def by simp
qed

lemma iram_check_rejects:
  assumes "read_bytes m BOOT_START_ADDR (length bs) = bs" "rejected bs" "4 \<le> length bs"
  shows "\<exists>r. iram_check_image m = Some r \<and> r \<noteq> 0"
proof (cases "take 4 bs = BOOT_SIGNATURE")
  case True
  then show ?thesis using iram_check_even [OF assms(1)] assms(2) by (auto simp: rejected_def uint_0_iff)
next
  case False
  then have "read_bytes m BOOT_START_ADDR 4 \<noteq> BOOT_SIGNATURE"
    using read_bytes_take [of 4 "length bs" m BOOT_START_ADDR] assms(1,3) by simp
  then show ?thesis by (simp add: iram_check_image_def)
qed

lemma copy_stored:
  assumes "readable nand i"
  shows "read_bytes (write_bytes a (copy nand i) m) a (length (copy nand i)) = copy nand i"
  by (rule read_write_bytes) (simp add: copy_length [OF assms])

lemma nflash_loop_copy:
  fixes m :: memory
  assumes "i < 4" "readable nand i"
  defines "m' \<equiv> write_bytes BOOT_START_ADDR (copy nand i) (around nand i m)"
  shows "nflash_loop nand m (of_nat i # is) = (case iram_check_image m' of None \<Rightarrow> None
    | Some r \<Rightarrow> if r \<noteq> 0 then nflash_loop nand m' is else Some (Jumped 0xA0500010 m'))"
  unfolding nflash_loop.simps Let_def parallel_nand_read_copy [OF assms(1)] read_pages_copy [OF assms(2)] prod.case m'_def
  by (simp only: not_True_eq_False if_False)

text \<open>What the loader does with the copies up to \<open>i\<close>.\<close>

lemma loop_skips:
  assumes "\<forall>j < i. readable nand j \<and> rejected (copy nand j)" "i \<le> 4"
  shows "\<exists>m'. iram_nflash_read nand m = nflash_loop nand m' (map of_nat [i ..< 4])"
  using assms
proof (induction i)
  case 0
  have "[0 ..< 4 :: nat] = [0, 1, 2, 3]" by (simp add: upt_rec)
  then show ?case by (auto simp: iram_nflash_read_def)
next
  case (Suc i)
  then obtain m' where m': "iram_nflash_read nand m = nflash_loop nand m' (map of_nat [i ..< 4])" by auto
  have r: "readable nand i" "rejected (copy nand i)" "i < 4" using Suc.prems by auto
  let ?m = "write_bytes BOOT_START_ADDR (copy nand i) (around nand i m')"
  obtain v where "iram_check_image ?m = Some v" "v \<noteq> 0"
    using iram_check_rejects [OF copy_stored [OF r(1)] r(2)] copy_length [OF r(1)]
    by (metis numeral_le_iff semiring_norm(68) semiring_norm(71))
  then have "nflash_loop nand m' (map of_nat [i ..< 4]) = nflash_loop nand ?m (map of_nat [Suc i ..< 4])"
    unfolding upt_conv_Cons [OF r(3)] list.map nflash_loop_copy [OF r(3,1)] by (simp only: option.case if_True not_False_eq_True)
  then show ?case using m' by metis
qed

section \<open>Properties\<close>

lemma copy_first:
  assumes "readable nand i" "k \<le> 2048"
  shows "take k (copy nand i) = take k (page_data (nand (128 * i)))"
proof -
  have less: "128 * i < 128 * (i + 1)" by simp
  have "length (page_data (nand (128 * i))) = 2048" using assms(1) less unfolding readable_def good_page_def by force
  then show ?thesis
    using assms(2) unfolding copy_def upt_conv_Cons [OF less] by simp
qed

lemma cvimg_parts:
  assumes "cvimg sig sa ba contents = Some img"
  shows "take 4 img = ascii sig" "header_len img = of_nat (image_size (length contents) - 16)"
    "length img = image_size (length contents)"
    "drop 16 img = contents @ replicate (image_size (length contents) - 18 - length contents) 0
       @ bytes16 (calculateChecksum contents)"
proof -
  have four: "length (ascii sig) = 4" using assms(1) by (auto simp: cvimg_def Let_def ascii_def split: if_splits)
  then obtain a b c d where sig: "ascii sig = [a, b, c, d]" by (auto simp: numeral_eq_Suc length_Suc_conv)
  have img: "img = ascii sig @ bytes32 sa @ bytes32 ba @ bytes32 (of_nat (image_size (length contents) - 16))
     @ contents @ replicate (image_size (length contents) - 18 - length contents) 0 @ bytes16 (calculateChecksum contents)"
    using assms(1) by (simp add: cvimg_def Let_def split: if_splits)
  show "take 4 img = ascii sig" "header_len img = of_nat (image_size (length contents) - 16)"
    "drop 16 img = contents @ replicate (image_size (length contents) - 18 - length contents) 0
       @ bytes16 (calculateChecksum contents)"
    unfolding img sig by (simp_all add: bytes32_def header_len_def)
  show "length img = image_size (length contents)"
    unfolding img using four image_size_facts(2) [of "length contents"] by simp
qed

lemma cvimg_sum:
  assumes "cvimg sig sa ba contents = Some img" "length contents < 2 ^ 31"
  shows "even (unat (header_len img))" "16 + unat (header_len img) = length img"
    "sum_halfwords 0 (drop 16 img) = sign_error contents"
proof -
  note parts = cvimg_parts [OF assms(1)] and facts = image_size_facts [of "length contents"]
  have len: "unat (header_len img) = image_size (length contents) - 16"
    unfolding parts(2) using facts(3) assms(2) by (simp add: unat_of_nat)
  show "even (unat (header_len img))" "16 + unat (header_len img) = length img"
    using facts(1,2) parts(3) by (simp_all add: len)
  have "even (length contents + (image_size (length contents) - 18 - length contents))"
    using facts(1,2) by simp
  then show "sum_halfwords 0 (drop 16 img) = sign_error contents"
    unfolding parts(4) by (rule payload_sum)
qed

text \<open>C28: Boot code that the image tool has packed starts: if the copy \<open>i\<close> on the flash begins with the image
  (of at most 0x40000 bytes), every page up to there can be read, and the copies in front of it are
  rejected, the loader jumps to 0xA0500010 with exactly the packed contents there (of even length,
  or with a last byte below 0x80).\<close>

theorem cvimg_image_boots:
  assumes "cvimg ''boot'' sa ba contents = Some img" "length img \<le> 0x40000"
    and "even (length contents) \<or> last contents < 0x80" "i < 4" "\<forall>j \<le> i. readable nand j" "\<forall>j < i. rejected (copy nand j)"
    and "take (length img) (copy nand i) = img"
  shows "\<exists>m'. iram_nflash_read nand m = Some (Jumped 0xA0500010 m')
    \<and> read_bytes m' 0xA0500010 (length contents) = contents"
proof -
  have r: "readable nand i" using assms(5) by simp
  obtain m0 where skip: "iram_nflash_read nand m = nflash_loop nand m0 (map of_nat [i ..< 4])"
    using loop_skips [of i nand m] assms(4-6) by auto
  let ?m = "write_bytes BOOT_START_ADDR (copy nand i) (around nand i m0)"
  note parts = cvimg_parts [OF assms(1)]
  have len: "length contents < 2 ^ 31"
    using assms(2) parts(3) image_size_facts(2) [of "length contents"] by simp
  note sums = cvimg_sum [OF assms(1) len]
  have no_error: "sign_error contents = 0" using assms(3) sign_error_byte [of "last contents"] by (auto simp: sign_error_def)
  have fits: "length img \<le> length (copy nand i)" using assms(2) by (simp only: copy_length [OF r])
  have stored: "read_bytes ?m BOOT_START_ADDR (length img) = img"
    using read_bytes_take [OF fits, of ?m BOOT_START_ADDR] unfolding copy_stored [OF r] assms(7) .
  have "iram_check_image ?m = Some 0"
    using iram_check_even [OF stored _ sums(1)] sums(2,3) parts(1) no_error by (simp add: BOOT_SIGNATURE_def)
  then have "iram_nflash_read nand m = Some (Jumped 0xA0500010 ?m)"
    unfolding skip upt_conv_Cons [OF assms(4)] list.map nflash_loop_copy [OF assms(4) r] by (simp only: option.case) simp
  moreover have "read_bytes ?m 0xA0500010 (length contents) = contents"
  proof -
    have "read_bytes ?m (BOOT_START_ADDR + 16) (length img - 16) = drop 16 img"
      using read_bytes_drop [of 16 "length img" ?m BOOT_START_ADDR] stored sums(2) by simp
    moreover have "length contents \<le> length img - 16" using parts(3) image_size_facts(2) [of "length contents"] by simp
    ultimately show ?thesis
      using read_bytes_take [of "length contents" "length img - 16" ?m "BOOT_START_ADDR + 16"] parts(4)
      by (simp add: BOOT_START_ADDR_def)
  qed
  ultimately show ?thesis by blast
qed

text \<open>A flash whose first copy is erased and whose second copy holds three packed bytes.\<close>

definition packed :: "u8 \<Rightarrow> u8 list" where
  "packed b = the (cvimg ''boot'' 0 0 [0x12, 0x34, b])"

definition sample_nand :: nand where
  "sample_nand p =
     \<lparr>page_data = (if p = 128 then packed 0x56 @ replicate 2026 0xff else replicate 2048 0xff),
      page_spare = replicate 24 0xff, page_ok = True\<rparr>"

lemma packed_cvimg: "cvimg ''boot'' 0 0 [0x12, 0x34, b] = Some (packed b)" "length (packed b) = 22"
proof -
  have "image_size (Suc (Suc (Suc 0))) = 22" by (simp add: image_size_def NAND_FLASH_PAGE_SIZE_def)
  then show "cvimg ''boot'' 0 0 [0x12, 0x34, b] = Some (packed b)" "length (packed b) = 22"
    by (simp_all add: packed_def cvimg_def ascii_def Let_def numeral_eq_Suc)
qed

lemma cvimg_image_boots_witness:
  "\<exists>m'. iram_nflash_read sample_nand (\<lambda>_. 0) = Some (Jumped 0xA0500010 m')
    \<and> read_bytes m' 0xA0500010 3 = [0x12, 0x34, 0x56]"
proof -
  have r: "readable sample_nand j" for j by (simp add: readable_def good_page_def sample_nand_def packed_cvimg)
  have "take 4 (copy sample_nand 0) = replicate 4 0xff"
    using copy_first [OF r, of 4 0] by (simp add: sample_nand_def)
  moreover have "BOOT_SIGNATURE \<noteq> replicate 4 0xff"
  proof
    assume "BOOT_SIGNATURE = replicate 4 0xff"
    then have "hd BOOT_SIGNATURE = hd (replicate 4 0xff)" by (rule arg_cong)
    then show False by (simp add: BOOT_SIGNATURE_def ascii_def)
  qed
  ultimately have "rejected (copy sample_nand 0)" by (simp add: rejected_def)
  moreover have "take (length (packed 0x56)) (copy sample_nand 1) = packed 0x56"
    using copy_first [OF r, of 22 1] by (simp add: sample_nand_def packed_cvimg)
  ultimately show ?thesis
    using cvimg_image_boots [OF packed_cvimg(1) _ _ _ allI [OF impI [OF r]], of "0x56" 1 "\<lambda>_. 0"]
    by (simp add: packed_cvimg)
qed

text \<open>C29: A page that cannot be corrected ends the search: the loader gives up although later copies may be
  good.\<close>

theorem unreadable_copy_stops_boot:
  assumes "i < 4" "\<forall>j < i. readable nand j \<and> rejected (copy nand j)"
    and "\<not> page_ok (nand p)" "128 * i \<le> p" "p < 128 * (i + 1)"
  shows "\<exists>m'. iram_nflash_read nand m = Some (Gave_up m')"
proof -
  obtain m0 where skip: "iram_nflash_read nand m = nflash_loop nand m0 (map of_nat [i ..< 4])"
    using loop_skips [of i nand m] assms(1,2) by auto
  have "\<not> fst (read_pages nand 0xA0600000 BOOT_START_ADDR (128 * i) 128 m0)"
    by (rule read_pages_stops [of nand p]) (use assms(3-5) in simp_all)
  then obtain m' where "read_pages nand 0xA0600000 BOOT_START_ADDR (128 * i) 128 m0 = (False, m')"
    by (metis prod.collapse)
  then show ?thesis
    unfolding skip upt_conv_Cons [OF assms(1)] list.map nflash_loop.simps Let_def parallel_nand_read_copy [OF assms(1)]
    by (simp only: prod.case) simp
qed

lemma unreadable_copy_stops_boot_witness:
  "\<exists>m'. iram_nflash_read (sample_nand(3 := \<lparr>page_data = [], page_spare = [], page_ok = False\<rparr>)) (\<lambda>_. 0)
     = Some (Gave_up m')"
  using unreadable_copy_stops_boot [of 0 "sample_nand(3 := \<lparr>page_data = [], page_spare = [], page_ok = False\<rparr>)" 3]
  by simp

text \<open>Contents of odd length whose last byte is 0x80 or more are packed with a checksum the loader
  rejects: the tool sign extends the byte, the loader does not.\<close>

theorem cvimg_odd_rejected:
  assumes "cvimg ''boot'' sa ba contents = Some img" "length img \<le> 0x40000"
    and "odd (length contents)" "0x80 \<le> last contents" "read_bytes m BOOT_START_ADDR (length img) = img"
  shows "iram_check_image m = Some 0x100"
proof -
  note parts = cvimg_parts [OF assms(1)]
  have len: "length contents < 2 ^ 31"
    using assms(2) parts(3) image_size_facts(2) [of "length contents"] by simp
  note sums = cvimg_sum [OF assms(1) len]
  have "sign_error contents = 0x100" using assms(3,4) sign_error_byte by (simp add: sign_error_def)
  then show ?thesis
    using iram_check_even [OF assms(5) _ sums(1)] sums(2,3) parts(1) by (simp add: BOOT_SIGNATURE_def)
qed

lemma cvimg_odd_rejected_witness:
  "iram_check_image (write_bytes BOOT_START_ADDR (packed 0x96) (\<lambda>_. 0)) = Some 0x100"
proof -
  have "length (packed 0x96) \<le> 2 ^ 32" by (simp add: packed_cvimg)
  then show ?thesis
    using cvimg_odd_rejected [OF packed_cvimg(1) _ _ _ read_write_bytes] by (simp add: packed_cvimg(2))
qed

end
