(* ===== verification/Swnic.thy ===== *)
theory Swnic
  imports Calloc "HOL-Library.Monad_Syntax"
begin

text \<open>
  The Ethernet driver, \<^verbatim>\<open>boot/rtl8196x/swNic_poll.c\<close>: rings of descriptors that the CPU shares
  with the switch core. A descriptor is a 32-bit word, the address of a packet header with the bits
  OWN (who may use it) and WRAP (the last of the ring). A packet header points to an mbuf, an mbuf
  to its data. \<open>swNic_init\<close> allocates and links all of it, \<open>swNic_receive\<close> hands out the next
  received frame and gives the one before back, \<open>swNic_send\<close> fills the next transmit descriptor,
  \<open>swNic_txDone\<close> collects the sent ones.

  The rings are lists of words, the headers and mbufs maps from addresses, \<open>nmem\<close> the memory behind
  the uncached addresses. The switch core is not code; \<open>nic_step\<close> says what it may do with the
  descriptors it owns. The abstract receiver is a bounded queue of frames.
\<close>

section \<open>Data\<close>

definition DESC_OWNED_BIT :: u32 where "DESC_OWNED_BIT = 1"
definition DESC_RISC_OWNED :: u32 where "DESC_RISC_OWNED = 0"
definition DESC_SWCORE_OWNED :: u32 where "DESC_SWCORE_OWNED = 1"
definition DESC_WRAP :: u32 where "DESC_WRAP = 2"

lemmas desc_consts = DESC_OWNED_BIT_def DESC_RISC_OWNED_def DESC_SWCORE_OWNED_def DESC_WRAP_def

record mBuf =
  m_next :: u32
  m_pkthdr :: u32
  m_flags :: u8
  m_len :: u16
  m_data :: u32
  m_extbuf :: u32
  m_extsize :: u16

record pktHdr =
  ph_mbuf :: u32
  ph_len :: u16
  ph_type :: u8
  ph_portlist :: u8
  ph_flags :: u16
  ph_ptpPkt :: bool

definition SIZEOF_MBUF :: u32 where "SIZEOF_MBUF = 24"
definition SIZEOF_PKTHDR :: u32 where "SIZEOF_PKTHDR = 24"

text \<open>
  The driver's variables, and of the machine: the interrupt registers, the last value the code put
  into CPUICR, the positions of the switch core in ring 0 and the frames it has sent.
\<close>

record nic_state =
  rxPkthdrRing :: "u32 list list"
  txPkthdrRing :: "u32 list list"
  rxMbufRing :: "u32 list"
  pkthdrs :: "u32 \<Rightarrow> pktHdr"
  mbufs :: "u32 \<Rightarrow> mBuf"
  nmem :: memory
  currRx :: nat
  currRxMbuf :: nat
  currTx :: nat
  txPktDone :: nat
  firstTime :: bool
  rxPktCounter :: u32
  txPktCounter :: u32
  pktbuf :: u32
  CPUIISR :: u32
  CPUIIMR :: u32
  CPUICR :: u32
  CPURPDCR :: "u32 list"
  CPUTPDCR :: "u32 list"
  CPURMDCR0 :: u32
  core_rx :: nat
  core_tx :: nat
  wire :: "u8 list list"

abbreviation rx0 :: "nic_state \<Rightarrow> u32 list" where "rx0 s \<equiv> rxPkthdrRing s ! 0"
abbreviation tx0 :: "nic_state \<Rightarrow> u32 list" where "tx0 s \<equiv> txPkthdrRing s ! 0"

text \<open>\<open>memcpy\<close> copies upwards, byte by byte; \<open>ring_next\<close> is the increment with its reset to 0.\<close>

primrec copy_up :: "nat \<Rightarrow> u32 \<Rightarrow> u32 \<Rightarrow> memory \<Rightarrow> memory" where
  "copy_up 0 d s m = m"
| "copy_up (Suc n) d s m = copy_up n (d + 1) (s + 1) (m(d := m s))"

definition ring_next :: "nat \<Rightarrow> nat \<Rightarrow> nat" where
  "ring_next n i = (if Suc i = n then 0 else Suc i)"

definition ring_prev :: "nat \<Rightarrow> nat \<Rightarrow> nat" where
  "ring_prev n i = (if i = 0 then n - 1 else i - 1)"

definition desc_addr :: "u32 \<Rightarrow> u32" where
  "desc_addr w = w AND NOT (DESC_OWNED_BIT OR DESC_WRAP)"

definition risc_owned :: "u32 \<Rightarrow> bool" where
  "risc_owned w \<longleftrightarrow> w AND DESC_OWNED_BIT = DESC_RISC_OWNED"

definition set_rx0 :: "u32 list \<Rightarrow> nic_state \<Rightarrow> nic_state" where
  "set_rx0 r s = s\<lparr>rxPkthdrRing := (rxPkthdrRing s)[0 := r]\<rparr>"

definition set_tx0 :: "u32 list \<Rightarrow> nic_state \<Rightarrow> nic_state" where
  "set_tx0 r s = s\<lparr>txPkthdrRing := (txPkthdrRing s)[0 := r]\<rparr>"

section \<open>Receiving\<close>

definition PKTHDR_DESC_RUNOUT_ALL :: u32 where "PKTHDR_DESC_RUNOUT_ALL = push_bit 17 0x3f"

text \<open>
  The frame behind the current descriptor: \<open>*input\<close> and \<open>*pLen\<close> if it is for the board (the
  group bit of its first byte or \<open>eth0_mac\<close>), and the memory after the VLAN patch.
\<close>

definition take_frame :: "u8 list \<Rightarrow> pktHdr \<Rightarrow> nic_state \<Rightarrow> (u32 \<times> u32) option \<times> memory" where
  "take_frame eth0_mac h s =
     (let data = m_data (mbufs s (ph_mbuf h))
      in if nmem s data AND 1 \<noteq> 0 \<or> read_bytes (nmem s) data 6 = eth0_mac then
           (let pLen = ucast (ph_len h) - 4
            in (Some (data, pLen),
                if load16 (nmem s) (data + 12) = 0x8100
                then copy_up (unat (pLen - 16)) (data + 12) (data + 16) (nmem s) else nmem s))
         else (None, nmem s))"

text \<open>The frame handed out before, its header and its mbuf, go back to the switch core.\<close>

definition give_back_rx :: "nic_state \<Rightarrow> nic_state" where
  "give_back_rx s =
     (let n = length (rx0 s);
          pkthdr_index = ring_prev n (currRx s);
          h = pkthdrs s (desc_addr (rx0 s ! pkthdr_index));
          mbuf_index = unat ((ph_mbuf h - desc_addr (rxMbufRing s ! 0)) div SIZEOF_MBUF);
          s = set_rx0 ((rx0 s)[pkthdr_index := rx0 s ! pkthdr_index OR DESC_SWCORE_OWNED]) s
      in s\<lparr>rxMbufRing := (rxMbufRing s)[mbuf_index := rxMbufRing s ! mbuf_index OR DESC_SWCORE_OWNED]\<rparr>)"

definition clear_runout :: "nic_state \<Rightarrow> nic_state" where
  "clear_runout s =
     (if CPUIISR s AND PKTHDR_DESC_RUNOUT_ALL \<noteq> 0
      then s\<lparr>CPUIIMR := CPUIIMR s OR PKTHDR_DESC_RUNOUT_ALL, CPUIISR := CPUIISR s AND NOT PKTHDR_DESC_RUNOUT_ALL\<rparr>
      else s)"

definition swNic_receive :: "u8 list \<Rightarrow> nic_state \<Rightarrow> (u32 \<times> u32) option \<times> nic_state" where
  "swNic_receive eth0_mac s =
     (if risc_owned (rx0 s ! currRx s) then
        (let (ret, m) = take_frame eth0_mac (pkthdrs s (desc_addr (rx0 s ! currRx s))) s;
             s = s\<lparr>rxPktCounter := rxPktCounter s + 1, nmem := m\<rparr>;
             s = (if firstTime s then s\<lparr>firstTime := False\<rparr> else give_back_rx s);
             s = s\<lparr>currRx := ring_next (length (rx0 s)) (currRx s),
                   currRxMbuf := ring_next (length (rxMbufRing s)) (currRxMbuf s)\<rparr>
         in (ret, clear_runout s))
      else (None, s))"

section \<open>Sending\<close>

definition ALL_PORT_MASK :: u8 where "ALL_PORT_MASK = 0x3F"
definition TXFD :: u32 where "TXFD = push_bit 23 1"

definition pktbuf_alligned :: "nic_state \<Rightarrow> u32" where
  "pktbuf_alligned s = (pktbuf s AND 0xfffffffc) OR 0xa0000000"

text \<open>The result is the return value; a failed assertion (\<open>None\<close>) prints and loops for ever.\<close>

definition swNic_send :: "u8 list \<Rightarrow> nic_state \<Rightarrow> (int \<times> nic_state) option" where
  "swNic_send out s =
     (let next_index = ring_next (length (tx0 s)) (currTx s); len = (of_nat (length out) :: u32)
      in if next_index = txPktDone s then Some (-1, s)
         else
           (let s = s\<lparr>nmem := write_bytes (pktbuf_alligned s) out (nmem s)\<rparr>; d = tx0 s ! currTx s
            in if \<not> risc_owned d then None
               else
                 (let h = pkthdrs s (desc_addr d); mb = ph_mbuf h;
                      l = (if len < 60 then 64 else ucast (len + 4));
                      s = s\<lparr>pkthdrs := (pkthdrs s)(desc_addr d := h\<lparr>ph_len := l, ph_ptpPkt := False, ph_portlist := ALL_PORT_MASK\<rparr>),
                            mbufs := (mbufs s)(mb := (mbufs s mb)\<lparr>m_len := l, m_extsize := l,
                               m_data := pktbuf_alligned s, m_extbuf := pktbuf_alligned s\<rparr>)\<rparr>;
                      s = set_tx0 ((tx0 s)[currTx s := d OR DESC_SWCORE_OWNED]) s
                  in Some (0, s\<lparr>CPUICR := CPUICR s OR TXFD, txPktCounter := txPktCounter s + 1,
                                currTx := next_index\<rparr>))))"

partial_function (option) swNic_txDone :: "nic_state \<Rightarrow> nic_state option" where
  "swNic_txDone s =
     (if txPktDone s \<noteq> currTx s \<and> risc_owned (tx0 s ! txPktDone s)
      then swNic_txDone (s\<lparr>txPktDone := ring_next (length (tx0 s)) (txPktDone s)\<rparr>)
      else Some s)"

section \<open>Setting up\<close>

definition PKTHDR_USED :: u16 where "PKTHDR_USED = 0x8000"
definition PKT_INCOMING :: u16 where "PKT_INCOMING = 0x1000"
definition PKT_OUTGOING :: u16 where "PKT_OUTGOING = 0x0800"
definition MBUF_FLAGS :: u8 where "MBUF_FLAGS = 0x80 OR 0x10 OR 0x08 OR 0x04"
definition size_of_cluster :: u32 where "size_of_cluster = 2048"
definition EINVAL :: int where "EINVAL = 22"

text \<open>A request with the assertion on its result; both may loop for ever (\<open>None\<close>).\<close>

definition nic_malloc :: "u32 \<Rightarrow> heap_state \<Rightarrow> (u32 \<times> heap_state) option" where
  "nic_malloc nb h = do {
     (p, h) \<leftarrow> malloc h nb;
     if p AND 0x0fffffff = 0 then None else Some (p, h)
   }"

primrec alloc_rings :: "u32 list \<Rightarrow> heap_state \<Rightarrow> (u32 list \<times> heap_state) option" where
  "alloc_rings [] h = Some ([], h)"
| "alloc_rings (c # cs) h = do {
     (p, h) \<leftarrow> if c = 0 then Some (0, h) else nic_malloc (c * 4 + 32) h;
     (ps, h) \<leftarrow> alloc_rings cs h;
     Some (p # ps, h)
   }"

text \<open>The uncached alias of an address, rounded up to a multiple of 32.\<close>

definition ptr_align :: "u32 \<Rightarrow> u32" where "ptr_align p = (p + 31) AND NOT 31"
definition uncached :: "u32 \<Rightarrow> u32" where "uncached p = ptr_align (0xa0000000 OR p)"

definition new_hdr :: "u32 \<Rightarrow> u16 \<Rightarrow> pktHdr" where
  "new_hdr mb fl = \<lparr>ph_mbuf = mb, ph_len = 0, ph_type = 0, ph_portlist = 0, ph_flags = PKTHDR_USED OR fl, ph_ptpPkt = False\<rparr>"

definition new_mbuf :: "u32 \<Rightarrow> u32 \<Rightarrow> u16 \<Rightarrow> mBuf" where
  "new_mbuf a data sz = \<lparr>m_next = 0, m_pkthdr = a, m_flags = MBUF_FLAGS, m_len = 0,
     m_data = data, m_extbuf = data, m_extsize = sz\<rparr>"

text \<open>The inner loops: headers and mbufs are taken one behind the other; the words of the ring come out.\<close>

primrec fill_tx :: "nat \<Rightarrow> u32 \<Rightarrow> u32 \<Rightarrow> (u32 \<Rightarrow> pktHdr) \<Rightarrow> (u32 \<Rightarrow> mBuf) \<Rightarrow> u32 list \<times> (u32 \<Rightarrow> pktHdr) \<times> (u32 \<Rightarrow> mBuf)" where
  "fill_tx 0 p m H M = ([], H, M)"
| "fill_tx (Suc k) p m H M =
     (let (ws, H, M) = fill_tx k (p + SIZEOF_PKTHDR) (m + SIZEOF_MBUF) (H(p := new_hdr m PKT_OUTGOING)) (M(m := new_mbuf p 0 0))
      in ((p OR DESC_RISC_OWNED) # ws, H, M))"

primrec fill_rx :: "nat \<Rightarrow> u32 \<Rightarrow> u32 \<Rightarrow> u32 \<Rightarrow> (u32 \<Rightarrow> pktHdr) \<Rightarrow> (u32 \<Rightarrow> mBuf) \<Rightarrow>
    u32 list \<times> u32 list \<times> (u32 \<Rightarrow> pktHdr) \<times> (u32 \<Rightarrow> mBuf)" where
  "fill_rx 0 p m cl H M = ([], [], H, M)"
| "fill_rx (Suc k) p m cl H M =
     (let (ws, ms, H, M) = fill_rx k (p + SIZEOF_PKTHDR) (m + SIZEOF_MBUF) (cl + size_of_cluster)
            (H(p := new_hdr m PKT_INCOMING)) (M(m := new_mbuf p (cl + 2) (ucast size_of_cluster)))
      in ((p OR DESC_SWCORE_OWNED) # ws, (m OR DESC_SWCORE_OWNED) # ms, H, M))"

definition set_wrap :: "u32 list \<Rightarrow> u32 list" where
  "set_wrap ws = (if ws = [] then [] else ws[length ws - 1 := ws ! (length ws - 1) OR DESC_WRAP])"

primrec fill_tx_rings :: "u32 list \<Rightarrow> u32 \<Rightarrow> u32 \<Rightarrow> (u32 \<Rightarrow> pktHdr) \<Rightarrow> (u32 \<Rightarrow> mBuf) \<Rightarrow>
    u32 list list \<times> (u32 \<Rightarrow> pktHdr) \<times> (u32 \<Rightarrow> mBuf)" where
  "fill_tx_rings [] p m H M = ([], H, M)"
| "fill_tx_rings (c # cs) p m H M =
     (let (ws, H, M) = fill_tx (unat c) p m H M;
          (rs, H, M) = fill_tx_rings cs (p + SIZEOF_PKTHDR * c) (m + SIZEOF_MBUF * c) H M
      in (set_wrap ws # rs, H, M))"

primrec fill_rx_rings :: "u32 list \<Rightarrow> u32 \<Rightarrow> u32 \<Rightarrow> u32 \<Rightarrow> (u32 \<Rightarrow> pktHdr) \<Rightarrow> (u32 \<Rightarrow> mBuf) \<Rightarrow>
    u32 list list \<times> u32 list \<times> (u32 \<Rightarrow> pktHdr) \<times> (u32 \<Rightarrow> mBuf)" where
  "fill_rx_rings [] p m cl H M = ([], [], H, M)"
| "fill_rx_rings (c # cs) p m cl H M =
     (let (ws, ms, H, M) = fill_rx (unat c) p m cl H M;
          (rs, ms', H, M) = fill_rx_rings cs (p + SIZEOF_PKTHDR * c) (m + SIZEOF_MBUF * c) (cl + size_of_cluster * c) H M
      in (set_wrap ws # rs, ms @ ms', H, M))"

text \<open>
  The allocations in their order, then the loops. More receive descriptors than mbufs would be
  written past the mbuf ring; that is \<open>None\<close>, too. The core starts at the first descriptors.
\<close>

definition swNic_init :: "u32 list \<Rightarrow> u32 \<Rightarrow> u32 list \<Rightarrow> heap_state \<Rightarrow> nic_state \<Rightarrow> (int \<times> nic_state \<times> heap_state) option" where
  "swNic_init rxcnt mbufcnt txcnt h s = do {
     let rxtotal = sum_list rxcnt;
     let txtotal = sum_list txcnt;
     (rxp, h) \<leftarrow> alloc_rings rxcnt h;
     if rxtotal = 0 then Some (EINVAL, s, h)
     else do {
       (txp, h) \<leftarrow> alloc_rings txcnt h;
       if txtotal = 0 \<or> mbufcnt = 0 then Some (EINVAL, s, h)
       else do {
         (mr, h) \<leftarrow> nic_malloc (mbufcnt * 4 + 32) h;
         (ph, h) \<leftarrow> nic_malloc ((rxtotal + txtotal) * SIZEOF_PKTHDR + 32) h;
         (pm, h) \<leftarrow> nic_malloc ((mbufcnt + txtotal) * SIZEOF_MBUF + 32) h;
         let clbytes = mbufcnt * size_of_cluster + 8 - 1 + 2 * mbufcnt + 32;
         (pc, h) \<leftarrow> nic_malloc clbytes h;
         let cl = (uncached pc + 8 - 1) AND NOT (8 - 1);
         let (txr, H, M) = fill_tx_rings txcnt (uncached ph) (uncached pm) (pkthdrs s) (mbufs s);
         let (rxr, ms, H, M) = fill_rx_rings rxcnt (uncached ph + SIZEOF_PKTHDR * txtotal)
               (uncached pm + SIZEOF_MBUF * txtotal) cl H M;
         if length ms > unat mbufcnt then None
         else Some (0, s\<lparr>rxPkthdrRing := rxr, txPkthdrRing := txr,
           rxMbufRing := set_wrap (ms @ replicate (unat mbufcnt - length ms) 0), pkthdrs := H, mbufs := M,
           nmem := write_bytes (0xa0000000 OR pc) (replicate (unat clbytes) 0) (nmem s),
           currRx := 0, currRxMbuf := 0, currTx := 0, txPktDone := 0, rxPktCounter := 0, txPktCounter := 0,
           CPUTPDCR := map (\<lambda>p. if p = 0 then 0 else uncached p) txp,
           CPURPDCR := map (\<lambda>p. if p = 0 then 0 else uncached p) rxp, CPURMDCR0 := uncached mr,
           CPUICR := push_bit 31 1 OR push_bit 30 1 OR push_bit 24 4, CPUIIMR := push_bit 3 0x3f OR push_bit 9 3,
           core_rx := 0, core_tx := 0\<rparr>, h)
       }
     }
   }"

section \<open>The switch core\<close>

text \<open>
  What the switch core does with what it owns: it stores a frame, with its checksum, in the buffer of
  some mbuf of the mbuf ring, links that to the header of the next descriptor and hands both over;
  and it sends what the next transmit descriptor points to, as the driver laid it out.
\<close>

definition core_next :: "u32 list \<Rightarrow> nat \<Rightarrow> nat" where
  "core_next r i = (if r ! i AND DESC_WRAP \<noteq> 0 then 0 else Suc i)"

definition core_store :: "u8 list \<Rightarrow> nat \<Rightarrow> nic_state \<Rightarrow> nic_state" where
  "core_store f j s =
     (let i = core_rx s; d = rx0 s ! i; mb = desc_addr (rxMbufRing s ! j);
          s = s\<lparr>nmem := write_bytes (m_data (mbufs s mb)) f (nmem s),
                pkthdrs := (pkthdrs s)(desc_addr d := (pkthdrs s (desc_addr d))\<lparr>ph_mbuf := mb, ph_len := of_nat (length f)\<rparr>),
                rxMbufRing := (rxMbufRing s)[j := rxMbufRing s ! j AND NOT DESC_OWNED_BIT],
                core_rx := core_next (rx0 s) i\<rparr>
      in set_rx0 ((rx0 s)[i := d AND NOT DESC_OWNED_BIT]) s)"

definition core_fetch :: "nic_state \<Rightarrow> nic_state" where
  "core_fetch s =
     (let i = core_tx s; d = tx0 s ! i; mb = mbufs s (ph_mbuf (pkthdrs s (desc_addr d)));
          s = s\<lparr>wire := wire s @ [read_bytes (nmem s) (m_data mb) (unat (m_len mb) - 4)],
                core_tx := core_next (tx0 s) i\<rparr>
      in set_tx0 ((tx0 s)[i := d AND NOT DESC_OWNED_BIT]) s)"

text \<open>What can be observed: frames stored or missed, polls with the frame they hand out, sends, fetches.\<close>

datatype nic_obs =
    Stored "u8 list" | Missed "u8 list" | Polled "u8 list option"
  | Sent "u8 list" int | Fetched "u8 list" | Collected

definition frame_ok :: "u8 list \<Rightarrow> bool" where
  "frame_ok f \<longleftrightarrow> 64 \<le> length f \<and> length f \<le> 1522"

text \<open>The bytes behind the pointer and length that a poll returns.\<close>

definition polled :: "(u32 \<times> u32) option \<times> nic_state \<Rightarrow> u8 list option" where
  "polled r = map_option (\<lambda>(data, n). read_bytes (nmem (snd r)) data (unat n)) (fst r)"

inductive nic_step :: "u8 list \<Rightarrow> nic_state \<Rightarrow> nic_obs \<Rightarrow> nic_state \<Rightarrow> bool" for mac where
  store: "\<not> risc_owned (rx0 s ! core_rx s) \<Longrightarrow> j < length (rxMbufRing s) \<Longrightarrow> \<not> risc_owned (rxMbufRing s ! j) \<Longrightarrow>
    frame_ok f \<Longrightarrow> nic_step mac s (Stored f) (core_store f j s)"
| miss: "risc_owned (rx0 s ! core_rx s) \<Longrightarrow> frame_ok f \<Longrightarrow> nic_step mac s (Missed f) s"
| poll: "nic_step mac s (Polled (polled (swNic_receive mac s))) (snd (swNic_receive mac s))"
| send: "length f \<le> 2048 \<Longrightarrow> swNic_send f s = Some (r, t) \<Longrightarrow> nic_step mac s (Sent f r) t"
| fetch: "\<not> risc_owned (tx0 s ! core_tx s) \<Longrightarrow> nic_step mac s (Fetched (last (wire (core_fetch s)))) (core_fetch s)"
| collect: "swNic_txDone s = Some t \<Longrightarrow> nic_step mac s Collected t"

inductive_cases nic_stepE: "nic_step mac s ob t"

section \<open>Descriptors and rings\<close>

lemma desc_masks:
  "DESC_OWNED_BIT = mask 1" "DESC_SWCORE_OWNED = mask 1" "DESC_WRAP = push_bit 1 (mask 1)"
  "DESC_OWNED_BIT OR DESC_WRAP = mask 2"
  by (simp_all add: desc_consts mask_eq_exp_minus_1 push_bit_eq_mult)

lemma desc_bits [simp]:
  "desc_addr (w OR DESC_SWCORE_OWNED) = desc_addr w"
  "desc_addr (w AND NOT DESC_OWNED_BIT) = desc_addr w"
  "(w OR DESC_SWCORE_OWNED) AND DESC_WRAP = w AND DESC_WRAP"
  "(w AND NOT DESC_OWNED_BIT) AND DESC_WRAP = w AND DESC_WRAP"
  unfolding desc_addr_def desc_masks(4) unfolding desc_masks(1-3)
  by (auto intro!: bit_word_eqI simp: bit_simps simp del: mask_1)

lemma risc_owned_bit: "risc_owned w = (\<not> bit w 0)"
  by (simp add: risc_owned_def desc_consts bit_0 and_one_eq odd_iff_mod_2_eq_one even_iff_mod_2_eq_zero)

lemma desc_owned [simp]:
  "\<not> risc_owned (w OR DESC_SWCORE_OWNED)"
  "risc_owned (w AND NOT DESC_OWNED_BIT)"
  by (simp_all add: risc_owned_bit desc_consts bit_or_iff bit_and_iff bit_not_iff)

lemma ring_next_mod: "k < n \<Longrightarrow> ring_next n k = Suc k mod n"
  by (auto simp: ring_next_def)

lemma ring_next_add: "0 < n \<Longrightarrow> ring_next n ((b + k) mod n) = (b + Suc k) mod n"
  by (simp add: ring_next_mod mod_Suc_eq)

lemma ring_next_less [simp]: "i < n \<Longrightarrow> ring_next n i < n"
  by (simp add: ring_next_def)

lemma ring_prev_next: "b < n \<Longrightarrow> ring_prev n (Suc b mod n) = b"
  by (cases "Suc b = n") (auto simp: ring_prev_def)

lemma ring_dist: "k < n \<Longrightarrow> ((b + k) mod n + (n - b mod n)) mod n = k" for b k n :: nat
proof -
  assume k: "k < n"
  have "((b + k) mod n + (n - b mod n)) mod n = (b mod n + (n - b mod n) + k) mod n"
    by (metis add.assoc add.commute mod_add_left_eq)
  also have "b mod n + (n - b mod n) + k = n + k" using k mod_less_divisor [of n b] by linarith
  finally show ?thesis using k by simp
qed

lemma ring_pos_inj: "k < n \<Longrightarrow> l < n \<Longrightarrow> (b + k) mod n = (b + l) mod n \<longleftrightarrow> k = l"
  for b k l n :: nat
  by (metis ring_dist)

lemma ring_pos_ex: "i < n \<Longrightarrow> \<exists>k < n. i = (b + k) mod n" for b i n :: nat
proof -
  assume i: "i < n"
  have "(b + (i + (n - b mod n)) mod n) mod n = (b mod n + (i + (n - b mod n))) mod n"
    by (simp add: mod_simps)
  also have "b mod n + (i + (n - b mod n)) = i + n"
    using i mod_less_divisor [of n b] by linarith
  finally have "(b + (i + (n - b mod n)) mod n) mod n = i" using i by simp
  then show ?thesis using i by (intro exI [of _ "(i + (n - b mod n)) mod n"]) auto
qed

text \<open>The descriptors of a ring whose owner is known by their distance from a position \<open>b\<close>.\<close>

definition owned_from :: "u32 list \<Rightarrow> nat \<Rightarrow> (nat \<Rightarrow> bool) \<Rightarrow> bool" where
  "owned_from r b Q \<longleftrightarrow> (\<forall>k < length r. risc_owned (r ! ((b + k) mod length r)) = Q k)"

lemma owned_from_at: "owned_from r b Q \<Longrightarrow> k < length r \<Longrightarrow> risc_owned (r ! ((b + k) mod length r)) = Q k"
  by (simp add: owned_from_def)

lemma owned_from_cong: "owned_from r b Q \<Longrightarrow> (\<And>k. k < length r \<Longrightarrow> Q k = Q' k) \<Longrightarrow> owned_from r b Q'"
  by (simp add: owned_from_def)

lemma owned_from_update:
  assumes "owned_from r b Q" "k < length r"
  shows "owned_from (r[(b + k) mod length r := w]) b (Q(k := risc_owned w))"
proof (unfold owned_from_def, intro allI impI)
  let ?n = "length r" let ?i = "(b + k) mod ?n"
  fix l assume l: "l < length (r[?i := w])"
  have "?i < ?n" using assms(2) by (intro mod_less_divisor) linarith
  then show "risc_owned (r[?i := w] ! ((b + l) mod length (r[?i := w]))) = (Q(k := risc_owned w)) l"
    using l assms ring_pos_inj [of k ?n l b] owned_from_at [OF assms(1), of l] by (cases "k = l") simp_all
qed

lemma owned_from_shift:
  assumes "owned_from r b Q"
  shows "owned_from r (Suc b mod length r) (\<lambda>k. if Suc k = length r then Q 0 else Q (Suc k))"
proof (unfold owned_from_def, intro allI impI)
  fix k assume k: "k < length r"
  then have "r \<noteq> []" by auto
  have "(Suc b mod length r + k) mod length r = (b + Suc k) mod length r" by (simp add: mod_simps)
  then show "risc_owned (r ! ((Suc b mod length r + k) mod length r)) = (if Suc k = length r then Q 0 else Q (Suc k))"
    using owned_from_at [OF assms, of "Suc k"] owned_from_at [OF assms, of 0] k \<open>r \<noteq> []\<close>
    by (cases "Suc k = length r") (auto simp flip: add_Suc_right)
qed

text \<open>The ring itself: at least two descriptors, different headers, WRAP on the last one.\<close>

definition ring_ok :: "u32 list \<Rightarrow> bool" where
  "ring_ok r \<longleftrightarrow> 2 \<le> length r \<and> distinct (map desc_addr r)
     \<and> map (\<lambda>w. w AND DESC_WRAP \<noteq> 0) r = replicate (length r - 1) False @ [True]"

lemma ring_ok_pos: "ring_ok r \<Longrightarrow> 0 < length r"
  by (auto simp: ring_ok_def)

lemma core_next_ring: "ring_ok r \<Longrightarrow> i < length r \<Longrightarrow> core_next r i = ring_next (length r) i"
proof -
  assume r: "ring_ok r" "i < length r"
  have "(r ! i AND DESC_WRAP \<noteq> 0) = map (\<lambda>w. w AND DESC_WRAP \<noteq> 0) r ! i" using r(2) by simp
  also have "\<dots> = (replicate (length r - 1) False @ [True]) ! i" using r(1) by (simp add: ring_ok_def)
  also have "\<dots> = (Suc i = length r)" using r(2) by (auto simp: nth_append)
  finally show ?thesis by (simp add: core_next_def ring_next_def)
qed

lemma ring_ok_same:
  assumes "ring_ok r" "map desc_addr r' = map desc_addr r" "map (\<lambda>w. w AND DESC_WRAP) r' = map (\<lambda>w. w AND DESC_WRAP) r"
  shows "ring_ok r'"
proof -
  have "map (\<lambda>w. w AND DESC_WRAP \<noteq> 0) r' = map (\<lambda>v. v \<noteq> 0) (map (\<lambda>w. w AND DESC_WRAP) r')" by simp
  also have "\<dots> = map (\<lambda>w. w AND DESC_WRAP \<noteq> 0) r" unfolding assms(3) by simp
  finally have "map (\<lambda>w. w AND DESC_WRAP \<noteq> 0) r' = map (\<lambda>w. w AND DESC_WRAP \<noteq> 0) r" .
  moreover have "length r' = length r" using assms(2) by (metis length_map)
  ultimately show ?thesis using assms(1,2) by (simp add: ring_ok_def)
qed

lemma map_update_same: "f w = f (r ! i) \<Longrightarrow> map f (r[i := w]) = map f r"
  by (metis list_update_id map_update)

lemma ring_ok_update:
  assumes "ring_ok r" "desc_addr w = desc_addr (r ! i)" "w AND DESC_WRAP = r ! i AND DESC_WRAP"
  shows "ring_ok (r[i := w])"
  using assms by (intro ring_ok_same [OF assms(1)] map_update_same) simp_all

section \<open>Buffers\<close>

definition blocks_apart :: "u32 \<Rightarrow> u32 \<Rightarrow> bool" where
  "blocks_apart a b \<longleftrightarrow> (\<forall>x. \<not> (in_block a 2048 x \<and> in_block b 2048 x))"

lemma in_block_mono: "in_block a n x \<Longrightarrow> n \<le> l \<Longrightarrow> in_block a l x"
  by (simp add: in_block_def)

lemma in_block_add: "unat k + n \<le> l \<Longrightarrow> l \<le> 2 ^ 32 \<Longrightarrow> in_block (a + k) n x \<Longrightarrow> in_block a l x"
proof -
  assume a: "unat k + n \<le> l" "l \<le> 2 ^ 32" "in_block (a + k) n x"
  have "x - a = (x - (a + k)) + k" by simp
  moreover have "unat (u + v) \<le> unat u + unat v" for u v :: u32 by (simp add: unat_word_ariths)
  ultimately have "unat (x - a) \<le> unat (x - (a + k)) + unat k" by metis
  then show ?thesis using a by (simp add: in_block_def)
qed

lemma read_write_apart:
  assumes "blocks_apart a b" "length xs \<le> 2048" "n \<le> 2048"
  shows "read_bytes (write_bytes a xs m) b n = read_bytes m b n"
proof (rule read_bytes_cong, rule write_bytes_outside)
  fix k assume "k < n"
  then have "in_block b 2048 (b + of_nat k)" using assms(3) by (intro in_block_nth) auto
  then show "\<not> in_block a (length xs) (b + of_nat k)"
    using assms(1,2) in_block_mono unfolding blocks_apart_def by blast
qed

lemma blocks_apart_sym: "blocks_apart a b \<longleftrightarrow> blocks_apart b a"
  by (auto simp: blocks_apart_def)

text \<open>The upwards copy over four bytes takes the bytes as they were.\<close>

lemma copy_up_write:
  "n \<le> 2 ^ 32 - 5 \<Longrightarrow> copy_up n d (d + 4) m = write_bytes d (read_bytes m (d + 4) n) m"
proof (induction n arbitrary: d m)
  case (Suc n)
  have "read_bytes (m(d := m (d + 4))) (d + 1 + 4) n = read_bytes m (d + 1 + 4) n"
  proof (rule read_bytes_cong)
    fix k assume k: "k < n"
    have "d + 1 + 4 + of_nat k \<noteq> d"
    proof
      assume "d + 1 + 4 + of_nat k = d"
      then have "(of_nat (5 + k) :: u32) = 0" by (simp add: algebra_simps)
      then have "unat (of_nat (5 + k) :: u32) = 0" by simp
      then show False using k Suc.prems by (simp add: unat_of_nat del: of_nat_add)
    qed
    then show "(m(d := m (d + 4))) (d + 1 + 4 + of_nat k) = m (d + 1 + 4 + of_nat k)" by simp
  qed
  moreover have "d + 4 + 1 = d + 1 + 4" by simp
  ultimately show ?case using Suc.IH [of "d + 1" "m(d := m (d + 4))"] Suc.prems by (simp del: fun_upd_apply)
qed simp

section \<open>The shape of the driver's data\<close>

text \<open>
  What never changes after \<open>swNic_init\<close>: both rings, the mbufs next to each other in the order of
  the mbuf ring, headers and mbufs of the two directions apart, and apart also the buffers the
  frames are stored in from each other and from the transmit buffer.
\<close>

definition mbuf_of :: "nic_state \<Rightarrow> nat \<Rightarrow> u32" where
  "mbuf_of s j = desc_addr (rxMbufRing s ! j)"

definition cluster :: "nic_state \<Rightarrow> nat \<Rightarrow> u32" where
  "cluster s j = m_data (mbufs s (mbuf_of s j))"

definition mbuf_ring_ok :: "u32 list \<Rightarrow> bool" where
  "mbuf_ring_ok r \<longleftrightarrow> 24 * length r \<le> 2 ^ 32
     \<and> map desc_addr r = map (\<lambda>j. desc_addr (r ! 0) + SIZEOF_MBUF * of_nat j) [0..<length r]"

definition addrs :: "u32 list \<Rightarrow> u32 set" where
  "addrs r = set (map desc_addr r)"

definition nic_typed :: "nat \<Rightarrow> nic_state \<Rightarrow> bool" where
  "nic_typed n s \<longleftrightarrow>
     rxPkthdrRing s \<noteq> [] \<and> ring_ok (rx0 s) \<and> length (rx0 s) = n
     \<and> txPkthdrRing s \<noteq> [] \<and> ring_ok (tx0 s) \<and> addrs (rx0 s) \<inter> addrs (tx0 s) = {}
     \<and> mbuf_ring_ok (rxMbufRing s) \<and> length (rxMbufRing s) = n
     \<and> inj_on (\<lambda>a. ph_mbuf (pkthdrs s a)) (addrs (tx0 s))
     \<and> (\<forall>a \<in> addrs (tx0 s). \<forall>j < n. ph_mbuf (pkthdrs s a) \<noteq> mbuf_of s j)
     \<and> (\<forall>j < n. \<forall>k < n. j \<noteq> k \<longrightarrow> blocks_apart (cluster s j) (cluster s k))
     \<and> (\<forall>j < n. blocks_apart (pktbuf_alligned s) (cluster s j))"

text \<open>Two states that agree on all that is fixed.\<close>

definition same_ring :: "u32 list \<Rightarrow> u32 list \<Rightarrow> bool" where
  "same_ring r r' \<longleftrightarrow> map desc_addr r' = map desc_addr r
     \<and> map (\<lambda>w. w AND DESC_WRAP) r' = map (\<lambda>w. w AND DESC_WRAP) r"

definition same_shape :: "nic_state \<Rightarrow> nic_state \<Rightarrow> bool" where
  "same_shape s t \<longleftrightarrow>
     rxPkthdrRing t \<noteq> [] \<and> same_ring (rx0 s) (rx0 t) \<and> txPkthdrRing t \<noteq> [] \<and> same_ring (tx0 s) (tx0 t)
     \<and> map desc_addr (rxMbufRing t) = map desc_addr (rxMbufRing s)
     \<and> (\<forall>a \<in> addrs (tx0 s). ph_mbuf (pkthdrs t a) = ph_mbuf (pkthdrs s a))
     \<and> (\<forall>j < length (rxMbufRing s). cluster t j = cluster s j)
     \<and> pktbuf t = pktbuf s"

lemma same_ring_refl [simp]: "same_ring r r"
  by (simp add: same_ring_def)

lemma same_ring_trans: "same_ring r r' \<Longrightarrow> same_ring r' q \<Longrightarrow> same_ring r q"
  by (simp add: same_ring_def)

lemma same_ring_length: "same_ring r r' \<Longrightarrow> length r' = length r"
  unfolding same_ring_def by (metis length_map)

lemma same_ring_addrs: "same_ring r r' \<Longrightarrow> addrs r' = addrs r"
  unfolding same_ring_def addrs_def by (simp del: set_map)

lemma same_ring_ok: "same_ring r r' \<Longrightarrow> ring_ok r \<Longrightarrow> ring_ok r'"
  unfolding same_ring_def by (blast intro: ring_ok_same)

lemma same_ring_nth: "same_ring r r' \<Longrightarrow> i < length r \<Longrightarrow> desc_addr (r' ! i) = desc_addr (r ! i)"
  using same_ring_length [of r r'] unfolding same_ring_def by (metis nth_map)

lemma same_ring_update [simp]:
  "same_ring r (r[i := r ! i OR DESC_SWCORE_OWNED])" "same_ring r (r[i := r ! i AND NOT DESC_OWNED_BIT])"
  by (simp_all add: same_ring_def map_update_same)

lemma same_shape_mbuf_of: "same_shape s t \<Longrightarrow> j < length (rxMbufRing s) \<Longrightarrow> mbuf_of t j = mbuf_of s j"
  unfolding same_shape_def mbuf_of_def by (metis length_map nth_map)

lemma same_shape_lengths:
  "same_shape s t \<Longrightarrow> length (rx0 t) = length (rx0 s)" "same_shape s t \<Longrightarrow> length (tx0 t) = length (tx0 s)"
  "same_shape s t \<Longrightarrow> length (rxMbufRing t) = length (rxMbufRing s)"
  unfolding same_shape_def by (blast intro: same_ring_length, blast intro: same_ring_length, metis length_map)

lemma same_shape_mbuf_ring: "same_shape s t \<Longrightarrow> mbuf_ring_ok (rxMbufRing s) \<Longrightarrow> mbuf_ring_ok (rxMbufRing t)"
proof -
  assume st: "same_shape s t" and r: "mbuf_ring_ok (rxMbufRing s)"
  have len: "length (rxMbufRing t) = length (rxMbufRing s)" by (rule same_shape_lengths(3) [OF st])
  show ?thesis
  proof (cases "rxMbufRing s")
    case (Cons w r')
    then have "desc_addr (rxMbufRing t ! 0) = desc_addr (rxMbufRing s ! 0)"
      using same_shape_mbuf_of [OF st, of 0] by (simp add: mbuf_of_def)
    then show ?thesis using st r len unfolding mbuf_ring_ok_def same_shape_def by simp
  qed (use len in \<open>simp add: mbuf_ring_ok_def\<close>)
qed

lemma same_shape_typed:
  assumes "nic_typed n s" "same_shape s t" shows "nic_typed n t"
proof -
  have s: "length (rxMbufRing s) = n" using assms(1) by (simp add: nic_typed_def)
  have t: "mbuf_of t j = mbuf_of s j" "cluster t j = cluster s j" if "j < n" for j
    using same_shape_mbuf_of [OF assms(2)] assms(2) s that by (simp_all add: same_shape_def)
  have "addrs (tx0 t) = addrs (tx0 s)" "addrs (rx0 t) = addrs (rx0 s)" "ring_ok (rx0 t)" "ring_ok (tx0 t)"
    using assms by (auto simp: nic_typed_def same_shape_def same_ring_addrs intro: same_ring_ok)
  moreover have "pktbuf_alligned t = pktbuf_alligned s" using assms(2) by (simp add: same_shape_def pktbuf_alligned_def)
  moreover have ph: "rxPkthdrRing t \<noteq> []" "txPkthdrRing t \<noteq> []" "\<forall>a \<in> addrs (tx0 s). ph_mbuf (pkthdrs t a) = ph_mbuf (pkthdrs s a)"
    using assms(2) by (simp_all add: same_shape_def)
  moreover have "inj_on (\<lambda>a. ph_mbuf (pkthdrs t a)) (addrs (tx0 s)) = inj_on (\<lambda>a. ph_mbuf (pkthdrs s a)) (addrs (tx0 s))"
    by (rule inj_on_cong) (use ph(3) in simp)
  moreover have "mbuf_ring_ok (rxMbufRing t)"
    using assms same_shape_mbuf_ring by (simp add: nic_typed_def)
  moreover note same_shape_lengths [OF assms(2)]
  ultimately show ?thesis
    using assms(1) unfolding nic_typed_def by (simp add: t)
qed

lemma same_shape_refl: "nic_typed n s \<Longrightarrow> same_shape s s"
  by (simp add: same_shape_def nic_typed_def)

lemma same_shape_trans: "same_shape s t \<Longrightarrow> same_shape t u \<Longrightarrow> same_shape s u"
proof -
  assume st: "same_shape s t" and tu: "same_shape t u"
  have "same_ring (rx0 s) (rx0 u)" "same_ring (tx0 s) (tx0 u)" "addrs (tx0 t) = addrs (tx0 s)"
    using st tu same_ring_trans same_ring_addrs unfolding same_shape_def by blast+
  moreover have "length (rxMbufRing t) = length (rxMbufRing s)" by (rule same_shape_lengths(3) [OF st])
  ultimately show ?thesis using st tu unfolding same_shape_def by simp
qed

section \<open>The receive ring as a queue\<close>

text \<open>
  The reference: which frames are for the board, and what a poll hands out of one, its bytes without
  the checksum, behind a tag 00 81 four of them missing.
\<close>

definition accepts :: "u8 list \<Rightarrow> u8 list \<Rightarrow> bool" where
  "accepts mac f \<longleftrightarrow> f ! 0 AND 1 \<noteq> 0 \<or> take 6 f = mac"

definition delivered :: "u8 list \<Rightarrow> u8 list" where
  "delivered f =
     (let g = take (length f - 4) f
      in if le16 (f ! 12) (f ! 13) = 0x8100 then take 12 g @ drop 16 g @ drop (length g - 4) g else g)"

text \<open>A bounded queue; one of its places is taken by the frame that was handed out last.\<close>

type_synonym frame_queue = "bool \<times> u8 list list"

inductive queue_step :: "u8 list \<Rightarrow> nat \<Rightarrow> frame_queue \<Rightarrow> nic_obs \<Rightarrow> frame_queue \<Rightarrow> bool" for mac n where
  enqueue: "of_bool h + length q < n \<Longrightarrow> queue_step mac n (h, q) (Stored f) (h, q @ [f])"
| overrun: "of_bool h + length q = n \<Longrightarrow> queue_step mac n (h, q) (Missed f) (h, q)"
| nothing: "queue_step mac n (h, []) (Polled None) (h, [])"
| dequeue: "queue_step mac n (h, f # q) (Polled (if accepts mac f then Some (delivered f) else None)) (True, q)"
| sending: "ob \<in> {Sent f r, Fetched f, Collected} \<Longrightarrow> queue_step mac n a ob a"

inductive_simps queue_stored_iff [simp]: "queue_step mac n a (Stored f) b"
inductive_simps queue_missed_iff [simp]: "queue_step mac n a (Missed f) b"
inductive_simps queue_polled_iff [simp]: "queue_step mac n a (Polled r) b"

text \<open>
  The frames in the ring from position \<open>b\<close> on, each with the mbuf that holds it; \<open>c\<close> of them have
  been handed out.
\<close>

definition slot_ok :: "u8 list \<Rightarrow> nic_state \<Rightarrow> bool \<Rightarrow> u32 \<Rightarrow> u8 list \<times> nat \<Rightarrow> bool" where
  "slot_ok mac s out a w = (case w of (f, j) \<Rightarrow>
     frame_ok f \<and> ph_mbuf (pkthdrs s a) = mbuf_of s j
     \<and> (if out then accepts mac f \<longrightarrow> read_bytes (nmem s) (cluster s j) (length f - 4) = delivered f
        else ph_len (pkthdrs s a) = of_nat (length f) \<and> read_bytes (nmem s) (cluster s j) (length f) = f))"

definition slot_addr :: "nic_state \<Rightarrow> nat \<Rightarrow> nat \<Rightarrow> u32" where
  "slot_addr s b k = desc_addr (rx0 s ! ((b + k) mod length (rx0 s)))"

definition mbufs_of :: "u32 list \<Rightarrow> nat list \<Rightarrow> bool" where
  "mbufs_of r js \<longleftrightarrow> distinct js \<and> set js \<subseteq> {..<length r} \<and> (\<forall>j < length r. risc_owned (r ! j) = (j \<in> set js))"

definition rx_slots :: "u8 list \<Rightarrow> nic_state \<Rightarrow> nat \<Rightarrow> nat \<Rightarrow> (u8 list \<times> nat) list \<Rightarrow> bool" where
  "rx_slots mac s c b ws \<longleftrightarrow>
     b < length (rx0 s) \<and> length ws \<le> length (rx0 s) \<and> core_rx s = (b + length ws) mod length (rx0 s)
     \<and> owned_from (rx0 s) b (\<lambda>k. k < length ws) \<and> mbufs_of (rxMbufRing s) (map snd ws)
     \<and> (\<forall>k < length ws. slot_ok mac s (k < c) (slot_addr s b k) (ws ! k))"

lemma slot_addr_inj:
  assumes "ring_ok (rx0 s)" "k < length (rx0 s)" "l < length (rx0 s)"
  shows "slot_addr s b k = slot_addr s b l \<longleftrightarrow> k = l"
proof -
  let ?n = "length (rx0 s)"
  have pos: "(b + k) mod ?n < ?n" "(b + l) mod ?n < ?n" using ring_ok_pos [OF assms(1)] by simp_all
  have "distinct (map desc_addr (rx0 s))" using assms(1) by (simp add: ring_ok_def)
  then have "slot_addr s b k = slot_addr s b l \<longleftrightarrow> (b + k) mod ?n = (b + l) mod ?n"
    using nth_eq_iff_index_eq [of "map desc_addr (rx0 s)" "(b + k) mod ?n" "(b + l) mod ?n"] pos
    by (simp add: slot_addr_def)
  then show ?thesis using ring_pos_inj [OF assms(2,3)] by simp
qed

lemma slot_addr_in: "ring_ok (rx0 s) \<Longrightarrow> slot_addr s b k \<in> addrs (rx0 s)"
  using ring_ok_pos [of "rx0 s"] by (auto simp: slot_addr_def addrs_def)

lemma slot_addr_same: "same_shape s t \<Longrightarrow> 0 < length (rx0 s) \<Longrightarrow> slot_addr t b k = slot_addr s b k"
  using same_shape_lengths(1) [of s t] same_ring_nth [of "rx0 s" "rx0 t" "(b + k) mod length (rx0 s)"]
  by (simp add: slot_addr_def same_shape_def)

text \<open>A slot is not affected by a step that leaves its header and its buffer alone.\<close>

lemma slot_ok_frame:
  assumes "slot_ok mac s out a (f, j)" "same_shape s t" "j < length (rxMbufRing s)"
    and "pkthdrs t a = pkthdrs s a"
    and "\<And>n. n \<le> 2048 \<Longrightarrow> read_bytes (nmem t) (cluster s j) n = read_bytes (nmem s) (cluster s j) n"
  shows "slot_ok mac t out a (f, j)"
proof -
  have "mbuf_of t j = mbuf_of s j" "cluster t j = cluster s j"
    using same_shape_mbuf_of [OF assms(2,3)] assms(2,3) by (simp_all add: same_shape_def)
  moreover have "length f \<le> 2048" "length f - 4 \<le> 2048" using assms(1) by (auto simp: slot_ok_def frame_ok_def)
  ultimately show ?thesis using assms(1,4) assms(5) by (simp add: slot_ok_def split: if_splits)
qed

lemma rx_slots_frame:
  assumes "rx_slots mac s c b ws" "nic_typed n s" "same_shape s t"
    and "rx0 t = rx0 s" "rxMbufRing t = rxMbufRing s" "core_rx t = core_rx s"
    and "\<And>a. a \<in> addrs (rx0 s) \<Longrightarrow> pkthdrs t a = pkthdrs s a"
    and "\<And>j l. j < n \<Longrightarrow> l \<le> 2048 \<Longrightarrow> read_bytes (nmem t) (cluster s j) l = read_bytes (nmem s) (cluster s j) l"
  shows "rx_slots mac t c b ws"
proof -
  have n: "length (rxMbufRing s) = n" "ring_ok (rx0 s)" using assms(2) by (simp_all add: nic_typed_def)
  have addr: "slot_addr t b k = slot_addr s b k" for k by (simp add: slot_addr_def assms(4))
  have "slot_ok mac t (k < c) (slot_addr s b k) (ws ! k)" if "k < length ws" for k
  proof (cases "ws ! k")
    case (Pair f j)
    have "j \<in> set (map snd ws)" using that Pair nth_mem [OF that] by force
    then have "j < length (rxMbufRing s)" using assms(1) by (auto simp: rx_slots_def mbufs_of_def)
    moreover have "slot_ok mac s (k < c) (slot_addr s b k) (f, j)"
      using assms(1) that Pair unfolding rx_slots_def by metis
    ultimately have "slot_ok mac t (k < c) (slot_addr s b k) (f, j)"
      using slot_ok_frame [OF _ assms(3) _ assms(7) [OF slot_addr_in [OF n(2)]] assms(8)] n(1) by blast
    then show ?thesis by (simp only: Pair)
  qed
  then show ?thesis using assms(1,4-6) addr by (simp add: rx_slots_def)
qed

text \<open>Updates of the rings that keep their shape.\<close>

lemma rx_update_shape:
  assumes "nic_typed n s"
    and "rxPkthdrRing t = (rxPkthdrRing s)[0 := r]" "same_ring (rx0 s) r"
    and "map desc_addr (rxMbufRing t) = map desc_addr (rxMbufRing s)"
    and "txPkthdrRing t = txPkthdrRing s" "mbufs t = mbufs s" "pktbuf t = pktbuf s"
    and "\<And>a. a \<in> addrs (tx0 s) \<Longrightarrow> ph_mbuf (pkthdrs t a) = ph_mbuf (pkthdrs s a)"
  shows "same_shape s t" "rx0 t = r"
proof -
  have ne: "rxPkthdrRing s \<noteq> []" "txPkthdrRing s \<noteq> []" using assms(1) by (simp_all add: nic_typed_def)
  then show r: "rx0 t = r" by (simp add: assms(2))
  have "cluster t j = cluster s j" if "j < length (rxMbufRing s)" for j
  proof -
    have "length (rxMbufRing t) = length (rxMbufRing s)" using assms(4) by (metis length_map)
    then have "mbuf_of t j = mbuf_of s j" using assms(4) that unfolding mbuf_of_def by (metis nth_map)
    then show ?thesis by (simp add: cluster_def assms(6))
  qed
  then show "same_shape s t" using assms(2-5,7,8) ne r by (simp add: same_shape_def)
qed

lemma mbufs_of_take:
  assumes "mbufs_of r js" "j < length r" "\<not> risc_owned (r ! j)"
  shows "mbufs_of (r[j := r ! j AND NOT DESC_OWNED_BIT]) (js @ [j])"
  using assms by (auto simp: mbufs_of_def nth_list_update)

lemma mbufs_of_release:
  assumes "mbufs_of r (j # js)"
  shows "mbufs_of (r[j := r ! j OR DESC_SWCORE_OWNED]) js"
  using assms by (auto simp: mbufs_of_def nth_list_update)

lemma of_nat_len_u16: "frame_ok f \<Longrightarrow> unat (of_nat (length f) :: u16) = length f"
  by (simp add: frame_ok_def unat_of_nat)

text \<open>The switch core finds a descriptor of its own exactly if the ring is not full.\<close>

lemma core_owns_iff:
  assumes "rx_slots mac s c b ws"
  shows "risc_owned (rx0 s ! core_rx s) \<longleftrightarrow> length ws = length (rx0 s)"
proof (cases "length ws = length (rx0 s)")
  case True
  then have "0 < length ws" "core_rx s = (b + 0) mod length (rx0 s)" using assms by (auto simp: rx_slots_def)
  then show ?thesis
    using True owned_from_at [of "rx0 s" b _ 0] assms by (auto simp: rx_slots_def)
next
  case False
  then have "length ws < length (rx0 s)" using assms by (simp add: rx_slots_def)
  then show ?thesis
    using False owned_from_at [of "rx0 s" b "\<lambda>k. k < length ws" "length ws"] assms by (simp add: rx_slots_def)
qed

lemma store_slots:
  assumes typed: "nic_typed n s" and slots: "rx_slots mac s c b ws"
    and "\<not> risc_owned (rx0 s ! core_rx s)" "j < length (rxMbufRing s)" "\<not> risc_owned (rxMbufRing s ! j)" "frame_ok f"
    and c: "c \<le> length ws"
  shows "same_shape s (core_store f j s)" "rx_slots mac (core_store f j s) c b (ws @ [(f, j)])"
proof -
  let ?n = "length (rx0 s)" and ?t = "core_store f j s"
  let ?a = "slot_addr s b (length ws)"
  have n: "?n = n" "length (rxMbufRing s) = n" "ring_ok (rx0 s)" "0 < n"
    using typed ring_ok_pos [of "rx0 s"] by (simp_all add: nic_typed_def)
  have len: "length ws < n" using core_owns_iff [OF slots] assms(3) slots n(1) by (auto simp: rx_slots_def)
  have at: "core_rx s = (b + length ws) mod ?n" using slots by (simp add: rx_slots_def)
  have a: "desc_addr (rx0 s ! core_rx s) = ?a" by (simp add: slot_addr_def at)
  have fields: "nmem ?t = write_bytes (cluster s j) f (nmem s)"
    "pkthdrs ?t = (pkthdrs s)(?a := (pkthdrs s ?a)\<lparr>ph_mbuf := mbuf_of s j, ph_len := of_nat (length f)\<rparr>)"
    "rxMbufRing ?t = (rxMbufRing s)[j := rxMbufRing s ! j AND NOT DESC_OWNED_BIT]"
    "core_rx ?t = core_next (rx0 s) (core_rx s)" "mbufs ?t = mbufs s" "txPkthdrRing ?t = txPkthdrRing s" "pktbuf ?t = pktbuf s"
    "rxPkthdrRing ?t = (rxPkthdrRing s)[0 := (rx0 s)[core_rx s := rx0 s ! core_rx s AND NOT DESC_OWNED_BIT]]"
    by (simp_all add: core_store_def set_rx0_def Let_def cluster_def mbuf_of_def flip: a)
  have "?a \<notin> addrs (tx0 s)"
    using slot_addr_in [OF n(3), of b "length ws"] typed by (auto simp: nic_typed_def)
  then have shape: "same_shape s ?t" and r: "rx0 ?t = (rx0 s)[core_rx s := rx0 s ! core_rx s AND NOT DESC_OWNED_BIT]"
    by (intro rx_update_shape [OF typed fields(8)]; auto simp: fields map_update_same)+
  then show "same_shape s ?t" by simp
  have same: "slot_addr ?t b k = slot_addr s b k" for k using slot_addr_same [OF shape] n by simp
  have cl: "cluster ?t i = cluster s i" "mbuf_of ?t i = mbuf_of s i" if "i < n" for i
    using shape that n(2) same_shape_mbuf_of by (simp_all add: same_shape_def)
  have old: "slot_ok mac ?t (k < c) (slot_addr s b k) (ws ! k)" if k: "k < length ws" for k
  proof (cases "ws ! k")
    case (Pair g i)
    have "i \<in> set (map snd ws)" using k Pair nth_mem [OF k] by force
    then have i: "i < n" "i \<noteq> j" using slots n assms(4,5) by (auto simp: rx_slots_def mbufs_of_def)
    have "blocks_apart (cluster s j) (cluster s i)" using typed i assms(4) n(2) by (simp add: nic_typed_def)
    then have mem: "read_bytes (nmem ?t) (cluster s i) l = read_bytes (nmem s) (cluster s i) l" if "l \<le> 2048" for l
      using read_write_apart [of "cluster s j" "cluster s i" f l] that assms(6) by (simp add: fields(1) frame_ok_def)
    have "slot_addr s b k \<noteq> ?a" using slot_addr_inj [OF n(3), of k "length ws" b] k len n(1) by simp
    then have hd: "pkthdrs ?t (slot_addr s b k) = pkthdrs s (slot_addr s b k)" by (simp add: fields(2))
    have "slot_ok mac s (k < c) (slot_addr s b k) (g, i)" using slots k Pair unfolding rx_slots_def by metis
    then have "slot_ok mac ?t (k < c) (slot_addr s b k) (g, i)"
      using hd mem i(1) n(2) by (intro slot_ok_frame [OF _ shape]) simp_all
    then show ?thesis by (simp only: Pair)
  qed
  have new: "slot_ok mac ?t False ?a (f, j)"
    using assms(4,6) cl n(2) read_write_bytes [of f "cluster s j" "nmem s"]
    by (simp add: slot_ok_def fields(1,2) frame_ok_def)
  have "core_rx ?t = (b + Suc (length ws)) mod ?n"
    using core_next_ring [OF n(3), of "core_rx s"] ring_next_add [of ?n b "length ws"] n(1,4) by (simp add: fields(4) at)
  moreover have "owned_from (rx0 ?t) b (\<lambda>k. k < Suc (length ws))"
    unfolding r at using slots len n(1)
    by (intro owned_from_cong [OF owned_from_update [of "rx0 s" b "\<lambda>k. k < length ws" "length ws"]])
       (auto simp: rx_slots_def)
  moreover have "mbufs_of (rxMbufRing ?t) (map snd ws @ [j])"
    unfolding fields(3) using slots assms(4,5) by (intro mbufs_of_take) (simp_all add: rx_slots_def)
  moreover have "slot_ok mac ?t (k < c) (slot_addr s b k) ((ws @ [(f, j)]) ! k)" if "k < Suc (length ws)" for k
    using old new c that by (cases "k = length ws") (simp_all add: nth_append)
  ultimately show "rx_slots mac ?t c b (ws @ [(f, j)])"
    using slots len n(1) same by (simp add: rx_slots_def r)
qed

text \<open>A poll looks at the oldest frame that has not been handed out.\<close>

lemma take_read_bytes: "k \<le> n \<Longrightarrow> take k (read_bytes m a n) = read_bytes m a k"
  using read_bytes_append [of m a k "n - k"] by simp

lemma drop_read_bytes: "k \<le> n \<Longrightarrow> drop k (read_bytes m a n) = read_bytes m (a + of_nat k) (n - k)"
  using read_bytes_append [of m a k "n - k"] by simp

lemma in_block_after: "l \<le> k \<Longrightarrow> k < 2 ^ 32 \<Longrightarrow> \<not> in_block a l (a + of_nat k)"
  by (simp add: in_block_def unat_of_nat)

lemma copy_up_block:
  assumes "n + k + 8 \<le> 2 ^ 32"
  shows "read_bytes (copy_up k (a + of_nat n) (a + of_nat n + 4) m) a (n + k + 4) =
      read_bytes m a n @ read_bytes m (a + of_nat (n + 4)) k @ read_bytes m (a + of_nat (n + k)) 4"
proof -
  let ?m = "write_bytes (a + of_nat n) (read_bytes m (a + of_nat n + 4) k) m"
  have copy: "copy_up k (a + of_nat n) (a + of_nat n + 4) m = ?m" using assms by (intro copy_up_write) simp
  have "read_bytes ?m a (n + k) = read_bytes m a n @ read_bytes m (a + of_nat n + 4) k"
    using read_write_extend [of n "read_bytes m (a + of_nat n + 4) k" a m] assms by simp
  moreover have "read_bytes ?m (a + of_nat (n + k)) 4 = read_bytes m (a + of_nat (n + k)) 4"
  proof (rule read_bytes_cong, rule write_bytes_outside)
    fix i :: nat assume "i < 4"
    then have "\<not> in_block (a + of_nat n) k (a + of_nat n + of_nat (k + i))"
      using assms by (intro in_block_after) auto
    then show "\<not> in_block (a + of_nat n) (length (read_bytes m (a + of_nat n + 4) k)) (a + of_nat (n + k) + of_nat i)"
      by (simp add: add.assoc)
  qed
  moreover have "a + of_nat n + 4 = a + of_nat (n + 4)" by simp
  ultimately show ?thesis unfolding copy by (simp only: read_bytes_append append_assoc)
qed

lemma take_frame_slot:
  assumes "slot_ok mac s False a (f, j)"
  defines "r \<equiv> take_frame mac (pkthdrs s a) s"
  shows "fst r = (if accepts mac f then Some (cluster s j, of_nat (length f - 4)) else None)"
    and "accepts mac f \<Longrightarrow> read_bytes (snd r) (cluster s j) (length f - 4) = delivered f"
    and "\<And>b l. blocks_apart (cluster s j) b \<Longrightarrow> l \<le> 2048 \<Longrightarrow> read_bytes (snd r) b l = read_bytes (nmem s) b l"
proof -
  let ?d = "cluster s j" and ?n = "length f" and ?m = "nmem s"
  have f: "64 \<le> ?n" "?n \<le> 1522" "read_bytes ?m ?d ?n = f" "ph_len (pkthdrs s a) = of_nat ?n"
    and data: "m_data (mbufs s (ph_mbuf (pkthdrs s a))) = ?d"
    using assms(1) by (simp_all add: slot_ok_def frame_ok_def cluster_def)
  have nth: "f ! i = ?m (?d + of_nat i)" if "i < ?n" for i using read_bytes_nth [OF that, of ?m ?d] f(3) by simp
  have acc: "accepts mac f \<longleftrightarrow> ?m ?d AND 1 \<noteq> 0 \<or> read_bytes ?m ?d 6 = mac"
  proof -
    have "0 < ?n" using f(1) by linarith
    then have "f ! 0 = ?m ?d" using nth [of 0] by simp
    moreover have "take 6 f = read_bytes ?m ?d 6" using take_read_bytes [of 6 ?n ?m ?d] f(1,3) by simp
    ultimately show ?thesis by (simp only: accepts_def)
  qed
  have pLen: "ucast (ph_len (pkthdrs s a)) - 4 = (of_nat (?n - 4) :: u32)"
  proof -
    have "(ucast (of_nat ?n :: u16) :: u32) = of_nat ?n"
      using f(2) by (simp add: word_unat_eq_iff unat_of_nat unsigned_ucast_eq take_bit_nat_eq_self)
    then show ?thesis using f(1) by (simp add: f(4) of_nat_diff)
  qed
  have k: "unat ((of_nat (?n - 4) :: u32) - 16) = ?n - 20"
    using f(1,2) by (simp add: unat_sub_if' unat_of_nat)
  have tag: "load16 ?m (?d + 12) = le16 (f ! 12) (f ! 13)"
    using nth [of 12] nth [of 13] f(1) by (simp add: load16_def add.assoc)
  define m where "m = (if load16 ?m (?d + 12) = 0x8100 then copy_up (?n - 20) (?d + 12) (?d + 16) ?m else ?m)"
  have r: "r = (if accepts mac f then (Some (?d, of_nat (?n - 4)), m) else (None, ?m))"
    unfolding r_def take_frame_def Let_def data pLen k acc m_def by simp
  show "fst r = (if accepts mac f then Some (?d, of_nat (?n - 4)) else None)" by (simp add: r)
  have sixteen: "?d + 16 = ?d + of_nat 12 + 4" by simp
  show "read_bytes (snd r) ?d (?n - 4) = delivered f" if "accepts mac f"
  proof (cases "load16 ?m (?d + 12) = 0x8100")
    case True
    have "read_bytes m ?d (12 + (?n - 20) + 4) =
        read_bytes ?m ?d 12 @ read_bytes ?m (?d + of_nat (12 + 4)) (?n - 20) @ read_bytes ?m (?d + of_nat (12 + (?n - 20))) 4"
      using copy_up_block [of 12 "?n - 20" ?d ?m] f(2) True unfolding m_def sixteen by simp
    moreover have "12 + (?n - 20) + 4 = ?n - 4" "12 + (?n - 20) = ?n - 8" using f(1) by simp_all
    moreover have g: "take (?n - 4) f = read_bytes ?m ?d (?n - 4)" using take_read_bytes [of "?n - 4" ?n ?m ?d] f(3) by simp
    ultimately show ?thesis
      using True that f(1) take_read_bytes [of 12 "?n - 4" ?m ?d] drop_read_bytes [of 16 "?n - 4" ?m ?d]
        drop_read_bytes [of "?n - 8" "?n - 4" ?m ?d]
      unfolding delivered_def Let_def g tag by (simp add: r)
  next
    case False
    then show ?thesis
      using that take_read_bytes [of "?n - 4" ?n ?m ?d] f(3) tag by (simp add: r m_def delivered_def Let_def)
  qed
  show "read_bytes (snd r) b l = read_bytes ?m b l" if b: "blocks_apart ?d b" "l \<le> 2048" for b l
  proof -
    have "copy_up (?n - 20) (?d + 12) (?d + 16) ?m = write_bytes (?d + 12) (read_bytes ?m (?d + 12 + 4) (?n - 20)) ?m"
    proof -
      have "?d + 16 = ?d + 12 + 4" by simp
      moreover have "?n - 20 \<le> 2 ^ 32 - 5" using f(2) by simp
      ultimately show ?thesis using copy_up_write [of "?n - 20" "?d + 12" ?m] by (simp only:)
    qed
    moreover have "read_bytes (write_bytes (?d + 12) xs ?m) b l = read_bytes ?m b l" if "length xs = ?n - 20" for xs
    proof (rule read_bytes_cong, rule write_bytes_outside)
      fix i assume i: "i < l"
      then have "in_block b 2048 (b + of_nat i)" using b(2) by (intro in_block_nth) auto
      then show "\<not> in_block (?d + 12) (length xs) (b + of_nat i)"
        using b(1) in_block_add [of 12 "length xs" 2048 ?d "b + of_nat i"] that f(2) unfolding blocks_apart_def by auto
    qed
    ultimately show ?thesis by (simp add: r m_def)
  qed
qed

text \<open>Handing out the frame changes its buffer only.\<close>

lemma consume_slots:
  assumes typed: "nic_typed n s" and slots: "rx_slots mac s c b ws" and c: "c < length ws"
    and t: "t = s\<lparr>rxPktCounter := x, nmem := snd (take_frame mac (pkthdrs s (slot_addr s b c)) s)\<rparr>"
  shows "same_shape s t" "rx_slots mac t (Suc c) b ws"
proof -
  let ?n = "length (rx0 s)"
  have n: "?n = n" "length (rxMbufRing s) = n" using typed by (simp_all add: nic_typed_def)
  have eq: "rxPkthdrRing t = rxPkthdrRing s" "txPkthdrRing t = txPkthdrRing s" "rxMbufRing t = rxMbufRing s" "core_rx t = core_rx s"
    "pkthdrs t = pkthdrs s" "mbufs t = mbufs s" "pktbuf t = pktbuf s"
    by (simp_all add: t)
  then have same: "slot_addr t b k = slot_addr s b k" "mbuf_of t j = mbuf_of s j" "cluster t j = cluster s j" for k j
    by (simp_all add: slot_addr_def mbuf_of_def cluster_def)
  show shape: "same_shape s t" using same_shape_refl [OF typed] same eq by (simp add: same_shape_def)
  obtain f j where w: "ws ! c = (f, j)" by (cases "ws ! c")
  have slot: "slot_ok mac s False (slot_addr s b c) (f, j)" using slots c w unfolding rx_slots_def by fastforce
  have js: "distinct (map snd ws)" "set (map snd ws) \<subseteq> {..<n}" using slots n(2) by (simp_all add: rx_slots_def mbufs_of_def)
  have j: "j = map snd ws ! c" using c w by simp
  have ok: "slot_ok mac t (k < Suc c) (slot_addr s b k) (ws ! k)" if k: "k < length ws" for k
  proof (cases "k = c")
    case True
    have "accepts mac f \<longrightarrow> read_bytes (nmem t) (cluster t j) (length f - 4) = delivered f"
      using take_frame_slot(2) [OF slot] by (simp add: t cluster_def mbuf_of_def)
    then show ?thesis using slot same True by (simp add: w slot_ok_def eq(5))
  next
    case False
    obtain g i where v: "ws ! k = (g, i)" by (cases "ws ! k")
    have i: "i = map snd ws ! k" using k v by simp
    have "i \<in> set (map snd ws)" "j \<in> set (map snd ws)"
      unfolding i j by (intro nth_mem; use k c in simp)+
    then have "i < n" "j < n" using js(2) by blast+
    moreover have "i \<noteq> j" using nth_eq_iff_index_eq [OF js(1), of k c] k c False unfolding i j by simp
    ultimately have "blocks_apart (cluster s j) (cluster s i)" using typed by (simp add: nic_typed_def)
    then have mem: "read_bytes (nmem t) (cluster s i) l = read_bytes (nmem s) (cluster s i) l" if "l \<le> 2048" for l
      using take_frame_slot(3) [OF slot] that by (simp add: t)
    have "slot_ok mac s (k < c) (slot_addr s b k) (g, i)" using slots k v unfolding rx_slots_def by metis
    then have "slot_ok mac t (k < c) (slot_addr s b k) (g, i)"
      using mem \<open>i < n\<close> n(2) by (intro slot_ok_frame [OF _ shape]) (simp_all add: eq)
    moreover have "(k < Suc c) = (k < c)" using False by auto
    ultimately show ?thesis by (simp only: v)
  qed
  then show "rx_slots mac t (Suc c) b ws" using slots same by (simp add: rx_slots_def eq)
qed

text \<open>The mbuf of the frame given back is found again from its address.\<close>

lemma mbuf_index:
  assumes "mbuf_ring_ok r" "j < length r"
  shows "unat ((desc_addr (r ! j) - desc_addr (r ! 0)) div SIZEOF_MBUF) = j"
proof -
  have "map desc_addr r = map (\<lambda>j. desc_addr (r ! 0) + SIZEOF_MBUF * of_nat j) [0..<length r]"
    using assms(1) unfolding mbuf_ring_ok_def by blast
  from arg_cong [OF this, of "\<lambda>xs. xs ! j"]
  have "desc_addr (r ! j) = desc_addr (r ! 0) + SIZEOF_MBUF * of_nat j" using assms(2) by simp
  then have "desc_addr (r ! j) - desc_addr (r ! 0) = of_nat (24 * j)" by (simp add: SIZEOF_MBUF_def)
  moreover have "24 * j < 2 ^ 32" using assms by (simp add: mbuf_ring_ok_def)
  ultimately show ?thesis by (simp add: SIZEOF_MBUF_def unat_div_distrib unat_of_nat del: of_nat_mult)
qed

lemma give_back_slots:
  assumes typed: "nic_typed n s" and slots: "rx_slots mac s (Suc c) b (w # ws)"
    and "currRx s = Suc b mod length (rx0 s)"
  shows "same_shape s (give_back_rx s)" "rx_slots mac (give_back_rx s) c (Suc b mod length (rx0 s)) ws"
proof -
  let ?n = "length (rx0 s)" and ?t = "give_back_rx s" and ?j = "snd w"
  have n: "?n = n" "length (rxMbufRing s) = n" "ring_ok (rx0 s)" "0 < n"
    using typed ring_ok_pos [of "rx0 s"] by (simp_all add: nic_typed_def)
  have b: "b < ?n" "length ws < ?n" using slots by (simp_all add: rx_slots_def)
  have prev: "ring_prev ?n (currRx s) = b" using ring_prev_next [OF b(1)] assms(3) by simp
  have "slot_ok mac s True (slot_addr s b 0) w" using slots by (force simp: rx_slots_def)
  then have hd: "ph_mbuf (pkthdrs s (desc_addr (rx0 s ! b))) = mbuf_of s ?j"
    using b(1) by (simp add: slot_ok_def slot_addr_def split: prod.splits)
  have j: "?j < n" using slots n(2) by (simp add: rx_slots_def mbufs_of_def)
  have idx: "unat ((mbuf_of s ?j - desc_addr (rxMbufRing s ! 0)) div SIZEOF_MBUF) = ?j"
    using mbuf_index [of "rxMbufRing s" ?j] typed j by (simp add: nic_typed_def mbuf_of_def)
  have fields: "rxPkthdrRing ?t = (rxPkthdrRing s)[0 := (rx0 s)[b := rx0 s ! b OR DESC_SWCORE_OWNED]]"
    "rxMbufRing ?t = (rxMbufRing s)[?j := rxMbufRing s ! ?j OR DESC_SWCORE_OWNED]"
    "nmem ?t = nmem s" "pkthdrs ?t = pkthdrs s" "mbufs ?t = mbufs s" "txPkthdrRing ?t = txPkthdrRing s" "pktbuf ?t = pktbuf s"
    "core_rx ?t = core_rx s"
    by (simp_all add: give_back_rx_def set_rx0_def Let_def prev hd idx)
  have shape: "same_shape s ?t" and r: "rx0 ?t = (rx0 s)[b := rx0 s ! b OR DESC_SWCORE_OWNED]"
    by (intro rx_update_shape [OF typed fields(1)]; simp add: fields map_update_same)+
  then show "same_shape s ?t" by simp
  have at: "(Suc b mod ?n + k) mod ?n = (b + Suc k) mod ?n" for k by (simp add: mod_simps)
  have same: "slot_addr ?t b k = slot_addr s b k" for k using slot_addr_same [OF shape] n by simp
  then have shift: "slot_addr ?t (Suc b mod ?n) k = slot_addr s b (Suc k)" for k
    using same [of "Suc k"] by (simp add: slot_addr_def r at)
  have "slot_ok mac ?t (k < c) (slot_addr s b (Suc k)) (ws ! k)" if k: "k < length ws" for k
  proof (cases "ws ! k")
    case (Pair f i)
    have "i \<in> set (map snd ws)" using k Pair nth_mem [OF k] by force
    then have "i < n" using slots n(2) by (auto simp: rx_slots_def mbufs_of_def)
    moreover have "slot_ok mac s (Suc k < Suc c) (slot_addr s b (Suc k)) ((w # ws) ! Suc k)"
      using slots k unfolding rx_slots_def by (metis Suc_less_eq length_Cons)
    ultimately have "slot_ok mac ?t (k < c) (slot_addr s b (Suc k)) (f, i)"
      using n(2) Pair by (intro slot_ok_frame [OF _ shape]) (simp_all add: fields)
    then show ?thesis by (simp only: Pair)
  qed
  moreover have "owned_from (rx0 ?t) (Suc b mod ?n) (\<lambda>k. k < length ws)"
  proof -
    have "owned_from (rx0 s) b (\<lambda>k. k < Suc (length ws))" using slots by (simp add: rx_slots_def)
    moreover have "(b + 0) mod length (rx0 s) = b" "0 < length (rx0 s)" using b(1) by (simp, linarith)
    ultimately have "owned_from (rx0 ?t) b ((\<lambda>k. k < Suc (length ws))(0 := False))"
      using owned_from_update [of "rx0 s" b "\<lambda>k. k < Suc (length ws)" 0 "rx0 s ! b OR DESC_SWCORE_OWNED"]
      by (simp only: r desc_owned)
    from owned_from_shift [OF this]
    have "owned_from (rx0 ?t) (Suc b mod ?n) (\<lambda>k. if Suc k = ?n then ((\<lambda>k. k < Suc (length ws))(0 := False)) 0
        else ((\<lambda>k. k < Suc (length ws))(0 := False)) (Suc k))"
      by (simp only: r length_list_update)
    then show ?thesis by (rule owned_from_cong) (use b(2) in auto)
  qed
  moreover have "mbufs_of (rxMbufRing ?t) (map snd ws)"
    unfolding fields(2) using slots by (intro mbufs_of_release) (simp add: rx_slots_def)
  moreover have "core_rx ?t = (Suc b mod ?n + length ws) mod ?n" using slots by (simp add: fields(8) rx_slots_def at)
  ultimately show "rx_slots mac ?t c (Suc b mod ?n) ws" using b n shift by (simp add: rx_slots_def r)
qed

text \<open>Neither the counters nor the current positions nor the registers matter for the slots.\<close>

lemma rx_slots_eq:
  assumes "rxPkthdrRing t = rxPkthdrRing s" "rxMbufRing t = rxMbufRing s" "core_rx t = core_rx s" "nmem t = nmem s"
    and "pkthdrs t = pkthdrs s" "mbufs t = mbufs s"
  shows "rx_slots mac t c b ws = rx_slots mac s c b ws"
  by (simp add: rx_slots_def slot_ok_def slot_addr_def mbuf_of_def cluster_def assms)

lemma nic_typed_eq:
  assumes "rxPkthdrRing t = rxPkthdrRing s" "txPkthdrRing t = txPkthdrRing s" "rxMbufRing t = rxMbufRing s"
    and "pkthdrs t = pkthdrs s" "mbufs t = mbufs s" "pktbuf t = pktbuf s"
  shows "nic_typed n t = nic_typed n s"
  by (simp add: nic_typed_def mbuf_of_def cluster_def pktbuf_alligned_def assms)

lemma clear_runout_fields [simp]:
  "rxPkthdrRing (clear_runout s) = rxPkthdrRing s" "txPkthdrRing (clear_runout s) = txPkthdrRing s"
  "rxMbufRing (clear_runout s) = rxMbufRing s" "pkthdrs (clear_runout s) = pkthdrs s" "mbufs (clear_runout s) = mbufs s"
  "pktbuf (clear_runout s) = pktbuf s" "nmem (clear_runout s) = nmem s" "core_rx (clear_runout s) = core_rx s"
  "firstTime (clear_runout s) = firstTime s" "currRx (clear_runout s) = currRx s"
  "currTx (clear_runout s) = currTx s" "txPktDone (clear_runout s) = txPktDone s" "core_tx (clear_runout s) = core_tx s"
  "wire (clear_runout s) = wire s"
  by (simp_all add: clear_runout_def)

lemma give_back_fields [simp]:
  "nmem (give_back_rx s) = nmem s" "currRx (give_back_rx s) = currRx s" "firstTime (give_back_rx s) = firstTime s"
  "currRxMbuf (give_back_rx s) = currRxMbuf s" "core_rx (give_back_rx s) = core_rx s"
  "txPkthdrRing (give_back_rx s) = txPkthdrRing s" "pkthdrs (give_back_rx s) = pkthdrs s" "mbufs (give_back_rx s) = mbufs s"
  "currTx (give_back_rx s) = currTx s" "txPktDone (give_back_rx s) = txPktDone s" "core_tx (give_back_rx s) = core_tx s"
  "wire (give_back_rx s) = wire s" "pktbuf (give_back_rx s) = pktbuf s"
  by (simp_all add: give_back_rx_def set_rx0_def Let_def)

text \<open>The states of the driver that stand for a state of the queue.\<close>

definition rx_sim :: "u8 list \<Rightarrow> nat \<Rightarrow> nic_state \<Rightarrow> frame_queue \<Rightarrow> bool" where
  "rx_sim mac n s a = (case a of (h, q) \<Rightarrow>
     nic_typed n s \<and> firstTime s = (\<not> h)
     \<and> (\<exists>b ws. rx_slots mac s (of_bool h) b ws \<and> of_bool h \<le> length ws
          \<and> currRx s = (b + of_bool h) mod n \<and> q = map fst (drop (of_bool h) ws)))"

lemma rx_simI:
  assumes "nic_typed n s" "firstTime s = (\<not> h)" "rx_slots mac s (of_bool h) b ws" "of_bool h \<le> length ws"
    "currRx s = (b + of_bool h) mod n" "q = map fst (drop (of_bool h) ws)"
  shows "rx_sim mac n s (h, q)"
  using assms unfolding rx_sim_def prod.case by blast

lemma rx_simE:
  assumes "rx_sim mac n s (h, q)"
  obtains b ws where "nic_typed n s" "firstTime s = (\<not> h)" "rx_slots mac s (of_bool h) b ws" "of_bool h \<le> length ws"
    "currRx s = (b + of_bool h) mod n" "q = map fst (drop (of_bool h) ws)"
  using assms unfolding rx_sim_def prod.case by blast

lemma receive_empty:
  assumes "rx_sim mac n s (h, [])" shows "swNic_receive mac s = (None, s)"
proof -
  obtain b ws where "nic_typed n s" "firstTime s = (\<not> h)" "rx_slots mac s (of_bool h) b ws" "of_bool h \<le> length ws"
    "currRx s = (b + of_bool h) mod n" "[] = map fst (drop (of_bool h) ws)"
    by (rule rx_simE [OF assms])
  then have r: "nic_typed n s" "rx_slots mac s (of_bool h) b ws" "length ws = of_bool h" "currRx s = (b + of_bool h) mod n"
    by simp_all
  have n: "length (rx0 s) = n" "2 \<le> n" using r(1) by (auto simp: nic_typed_def ring_ok_def)
  then have "\<not> risc_owned (rx0 s ! currRx s)"
    using owned_from_at [of "rx0 s" b "\<lambda>k. k < length ws" "of_bool h"] r(2-4) by (cases h) (simp_all add: rx_slots_def)
  then show ?thesis by (simp add: swNic_receive_def)
qed

lemma receive_frame:
  assumes "rx_sim mac n s (h, f # q)"
  shows "polled (swNic_receive mac s) = (if accepts mac f then Some (delivered f) else None)"
    and "rx_sim mac n (snd (swNic_receive mac s)) (True, q)"
    and "\<exists>b j ws. fst (swNic_receive mac s) = (if accepts mac f then Some (cluster s j, of_nat (length f - 4)) else None)
      \<and> rx_slots mac (snd (swNic_receive mac s)) 1 b ((f, j) # ws) \<and> cluster (snd (swNic_receive mac s)) j = cluster s j"
proof -
  let ?c = "of_bool h :: nat" and ?t = "snd (swNic_receive mac s)"
  obtain b ws where typed: "nic_typed n s" and first: "firstTime s = (\<not> h)" and slots: "rx_slots mac s ?c b ws"
    and cur: "currRx s = (b + ?c) mod n" and q: "f # q = map fst (drop ?c ws)"
    by (rule rx_simE [OF assms])
  have c: "?c < length ws"
  proof (rule ccontr)
    assume "\<not> ?c < length ws"
    then show False using q by simp
  qed
  have n: "length (rx0 s) = n" "2 \<le> n" "length (rxMbufRing s) = n" using typed by (auto simp: nic_typed_def ring_ok_def)
  have own: "risc_owned (rx0 s ! currRx s)"
    using owned_from_at [of "rx0 s" b "\<lambda>k. k < length ws" ?c] slots c cur n(1) by (simp add: rx_slots_def)
  have addr: "desc_addr (rx0 s ! currRx s) = slot_addr s b ?c" by (simp add: slot_addr_def cur n(1))
  define r where "r = take_frame mac (pkthdrs s (slot_addr s b ?c)) s"
  define s1 where "s1 = s\<lparr>rxPktCounter := rxPktCounter s + 1, nmem := snd r\<rparr>"
  define s2 where "s2 = (if firstTime s then s1\<lparr>firstTime := False\<rparr> else give_back_rx s1)"
  have step: "swNic_receive mac s = (fst r, clear_runout (s2\<lparr>currRx := ring_next (length (rx0 s2)) (currRx s2),
      currRxMbuf := ring_next (length (rxMbufRing s2)) (currRxMbuf s2)\<rparr>))"
    using own by (simp add: swNic_receive_def addr r_def s1_def s2_def Let_def split: prod.split)
  have shape1: "same_shape s s1" and slots1: "rx_slots mac s1 (Suc ?c) b ws"
    using consume_slots [OF typed slots c] by (simp_all add: s1_def r_def)
  have typed1: "nic_typed n s1" by (rule same_shape_typed [OF typed shape1])
  have b': "\<exists>b'. rx_slots mac s2 1 b' (drop ?c ws) \<and> nic_typed n s2 \<and> b' = currRx s \<and> b' < n \<and> same_shape s1 s2"
  proof (cases h)
    case False
    then have "s2 = s1\<lparr>firstTime := False\<rparr>" using first by (simp add: s2_def)
    moreover have "currRx s = b" "b < n" using cur slots n(1) False by (simp_all add: rx_slots_def)
    moreover have "same_shape s1 (s1\<lparr>firstTime := False\<rparr>)"
      using same_shape_refl [OF typed1] by (simp add: same_shape_def cluster_def mbuf_of_def)
    ultimately show ?thesis
      using slots1 typed1 False
      by (simp add: rx_slots_eq [of "s1\<lparr>firstTime := False\<rparr>" s1] nic_typed_eq [of "s1\<lparr>firstTime := False\<rparr>" s1])
  next
    case True
    obtain w ws' where ws: "ws = w # ws'" using c True by (cases ws) auto
    have len1: "length (rx0 s1) = n" using same_shape_lengths(1) [OF shape1] n(1) by simp
    have cur1: "currRx s1 = Suc b mod length (rx0 s1)" using cur True len1 by (simp add: s1_def)
    have "rx_slots mac (give_back_rx s1) 1 (Suc b mod length (rx0 s1)) ws'" "same_shape s1 (give_back_rx s1)"
      using give_back_slots [OF typed1 _ cur1, of mac 1 w ws'] slots1 True ws by simp_all
    then show ?thesis
      using True first ws cur same_shape_typed [OF typed1] len1 n(2) by (auto simp: s2_def)
  qed
  obtain j where w: "ws ! ?c = (f, j)" and dw: "drop ?c ws = (f, j) # drop (Suc ?c) ws"
    using q c by (cases "ws ! ?c") (auto simp: Cons_nth_drop_Suc [symmetric])
  have slot: "slot_ok mac s False (slot_addr s b ?c) (f, j)" using slots c w unfolding rx_slots_def by fastforce
  have "nmem ?t = snd r" by (simp add: step s2_def s1_def)
  moreover have "length f - 4 < 2 ^ 32" using slot by (auto simp: slot_ok_def frame_ok_def)
  ultimately show "polled (swNic_receive mac s) = (if accepts mac f then Some (delivered f) else None)"
    using take_frame_slot(1,2) [OF slot] step unfolding polled_def r_def [symmetric]
    by (simp add: unat_of_nat)
  have s2: "currRx s2 = currRx s" "firstTime s2 = False" using first by (simp_all add: s2_def s1_def)
  have t: "rxPkthdrRing ?t = rxPkthdrRing s2" "rxMbufRing ?t = rxMbufRing s2" "core_rx ?t = core_rx s2"
    "nmem ?t = nmem s2" "pkthdrs ?t = pkthdrs s2" "mbufs ?t = mbufs s2" "txPkthdrRing ?t = txPkthdrRing s2" "pktbuf ?t = pktbuf s2"
    by (simp_all add: step)
  have slots': "rx_slots mac ?t (of_bool True) (currRx s) (drop ?c ws)"
    using b' unfolding rx_slots_eq [OF t(1-6)] by auto
  have "map snd ws ! ?c \<in> set (map snd ws)" using c by (intro nth_mem) simp
  then have "j < length (rxMbufRing s)" using slots w c by (auto simp: rx_slots_def mbufs_of_def)
  moreover have "same_shape s s2" using same_shape_trans [OF shape1] b' by blast
  ultimately have "cluster s2 j = cluster s j" by (simp add: same_shape_def)
  then have cl: "cluster ?t j = cluster s j" by (simp add: cluster_def mbuf_of_def t)
  show "\<exists>b j ws. fst (swNic_receive mac s) = (if accepts mac f then Some (cluster s j, of_nat (length f - 4)) else None)
      \<and> rx_slots mac ?t 1 b ((f, j) # ws) \<and> cluster ?t j = cluster s j"
    using slots' cl take_frame_slot(1) [OF slot] step unfolding dw r_def [symmetric]
    by (intro exI [of _ "currRx s"] exI [of _ j] exI [of _ "drop (Suc ?c) ws"]) simp
  show "rx_sim mac n ?t (True, q)"
  proof (rule rx_simI)
    have n2: "length (rx0 s2) = n" using b' by (auto simp: nic_typed_def)
    show "currRx ?t = (currRx s + of_bool True) mod n" using b' by (simp add: step s2(1) n2 ring_next_mod)
    show "rx_slots mac ?t (of_bool True) (currRx s) (drop ?c ws)" by (rule slots')
    show "nic_typed n ?t" using b' unfolding nic_typed_eq [OF t(1,7,2,5,6,8)] by auto
    show "q = map fst (drop (of_bool True) (drop ?c ws))"
      using arg_cong [OF q, of tl] by (simp add: drop_Suc map_tl)
  qed (use s2 c in \<open>simp_all add: step\<close>)
qed

section \<open>The transmit ring\<close>

text \<open>
  From \<open>txPktDone\<close> on: \<open>a\<close> descriptors the core has sent, \<open>c\<close> it has still to send, the rest free;
  at least one is always free.
\<close>

definition tx_slots :: "nic_state \<Rightarrow> nat \<Rightarrow> nat \<Rightarrow> bool" where
  "tx_slots s a c \<longleftrightarrow>
     a + c < length (tx0 s) \<and> txPktDone s < length (tx0 s)
     \<and> core_tx s = (txPktDone s + a) mod length (tx0 s) \<and> currTx s = (txPktDone s + (a + c)) mod length (tx0 s)
     \<and> owned_from (tx0 s) (txPktDone s) (\<lambda>k. \<not> (a \<le> k \<and> k < a + c))"

lemma tx_slots_eq:
  assumes "txPkthdrRing t = txPkthdrRing s" "txPktDone t = txPktDone s" "core_tx t = core_tx s" "currTx t = currTx s"
  shows "tx_slots t a c = tx_slots s a c"
  by (simp add: tx_slots_def assms)

lemma tx_slots_ne: "tx_slots s a c \<Longrightarrow> tx0 s \<noteq> []"
  by (auto simp: tx_slots_def)

lemma tx_slots_full: "tx_slots s a c \<Longrightarrow> ring_next (length (tx0 s)) (currTx s) = txPktDone s \<longleftrightarrow> Suc (a + c) = length (tx0 s)"
proof -
  assume s: "tx_slots s a c"
  let ?n = "length (tx0 s)"
  have "ring_next ?n (currTx s) = (txPktDone s + Suc (a + c)) mod ?n"
    using s ring_next_add [of ?n "txPktDone s" "a + c"] tx_slots_ne [OF s] by (simp add: tx_slots_def)
  moreover have "(txPktDone s + Suc (a + c)) mod ?n = (txPktDone s + 0) mod ?n \<longleftrightarrow> Suc (a + c) = ?n"
    using s ring_pos_inj [of "Suc (a + c)" ?n 0 "txPktDone s"] tx_slots_ne [OF s]
    by (cases "Suc (a + c) = ?n") (auto simp: tx_slots_def)
  ultimately show ?thesis using s by (simp add: tx_slots_def)
qed

lemma tx_slots_curr: "tx_slots s a c \<Longrightarrow> risc_owned (tx0 s ! currTx s)"
  using owned_from_at [of "tx0 s" "txPktDone s" _ "a + c"] by (auto simp: tx_slots_def)

lemma tx_slots_core: "tx_slots s a c \<Longrightarrow> risc_owned (tx0 s ! core_tx s) \<longleftrightarrow> c = 0"
  using owned_from_at [of "tx0 s" "txPktDone s" "\<lambda>k. \<not> (a \<le> k \<and> k < a + c)" a] by (auto simp: tx_slots_def)

text \<open>\<open>swNic_send\<close> with the header and mbuf it fills in.\<close>

definition tx_len :: "u8 list \<Rightarrow> u16" where
  "tx_len out = (if (of_nat (length out) :: u32) < 60 then 64 else ucast ((of_nat (length out) :: u32) + 4))"

definition sent_state :: "u8 list \<Rightarrow> nic_state \<Rightarrow> nic_state" where
  "sent_state out s =
     (let d = tx0 s ! currTx s; h = pkthdrs s (desc_addr d); mb = ph_mbuf h; l = tx_len out
      in s\<lparr>nmem := write_bytes (pktbuf_alligned s) out (nmem s),
           pkthdrs := (pkthdrs s)(desc_addr d := h\<lparr>ph_len := l, ph_ptpPkt := False, ph_portlist := ALL_PORT_MASK\<rparr>),
           mbufs := (mbufs s)(mb := (mbufs s mb)\<lparr>m_len := l, m_extsize := l,
             m_data := pktbuf_alligned s, m_extbuf := pktbuf_alligned s\<rparr>),
           txPkthdrRing := (txPkthdrRing s)[0 := (tx0 s)[currTx s := d OR DESC_SWCORE_OWNED]],
           CPUICR := CPUICR s OR TXFD, txPktCounter := txPktCounter s + 1,
           currTx := ring_next (length (tx0 s)) (currTx s)\<rparr>)"

lemma swNic_send_slots:
  assumes "tx_slots s a c"
  shows "swNic_send out s = Some (if Suc (a + c) = length (tx0 s) then (-1, s) else (0, sent_state out s))"
  using tx_slots_full [OF assms] tx_slots_curr [OF assms]
  by (simp add: swNic_send_def sent_state_def set_tx0_def tx_len_def pktbuf_alligned_def Let_def)

lemma sent_shape:
  assumes "nic_typed n s" "currTx s < length (tx0 s)"
  shows "same_shape s (sent_state out s)" "tx0 (sent_state out s) = (tx0 s)[currTx s := tx0 s ! currTx s OR DESC_SWCORE_OWNED]"
proof -
  let ?t = "sent_state out s" let ?a = "desc_addr (tx0 s ! currTx s)"
  have ne: "rxPkthdrRing s \<noteq> []" "txPkthdrRing s \<noteq> []" using assms(1) by (simp_all add: nic_typed_def)
  then show r: "tx0 ?t = (tx0 s)[currTx s := tx0 s ! currTx s OR DESC_SWCORE_OWNED]" by (simp add: sent_state_def Let_def)
  have "?a \<in> addrs (tx0 s)" using assms(2) by (simp add: addrs_def)
  then have mb: "ph_mbuf (pkthdrs s ?a) \<noteq> mbuf_of s j" if "j < n" for j
    using assms(1) that unfolding nic_typed_def by blast
  have "length (rxMbufRing s) = n" using assms(1) by (simp add: nic_typed_def)
  then have "cluster ?t j = cluster s j" if "j < length (rxMbufRing s)" for j
    using mb [of j] that by (simp add: cluster_def mbuf_of_def sent_state_def Let_def)
  moreover have "ph_mbuf (pkthdrs ?t a) = ph_mbuf (pkthdrs s a)" for a by (simp add: sent_state_def Let_def)
  moreover have "same_ring (tx0 s) (tx0 ?t)" unfolding r by simp
  ultimately show "same_shape s ?t" using ne by (simp add: same_shape_def) (simp add: sent_state_def Let_def)
qed

lemma sent_slots:
  assumes "nic_typed n s" "tx_slots s a c" "Suc (a + c) < length (tx0 s)"
  shows "tx_slots (sent_state out s) a (Suc c)"
proof -
  let ?t = "sent_state out s" and ?n = "length (tx0 s)"
  have cur: "currTx s = (txPktDone s + (a + c)) mod ?n" using assms(2) by (simp add: tx_slots_def)
  then have "currTx s < ?n" using tx_slots_ne [OF assms(2)] by simp
  note r = sent_shape(2) [OF assms(1) this, of out]
  have "owned_from (tx0 ?t) (txPktDone s) (\<lambda>k. \<not> (a \<le> k \<and> k < a + Suc c))"
    unfolding r cur using assms(2,3)
    by (intro owned_from_cong [OF owned_from_update [of "tx0 s" "txPktDone s" "\<lambda>k. \<not> (a \<le> k \<and> k < a + c)" "a + c"]])
       (auto simp: tx_slots_def)
  moreover have "currTx ?t = (txPktDone s + (a + Suc c)) mod ?n"
    using ring_next_add [of ?n "txPktDone s" "a + c"] tx_slots_ne [OF assms(2)] cur by (simp add: sent_state_def Let_def)
  moreover have "txPktDone ?t = txPktDone s" "core_tx ?t = core_tx s" by (simp_all add: sent_state_def Let_def)
  ultimately show ?thesis using assms(2,3) r by (simp add: tx_slots_def)
qed

lemma fetch_slots:
  assumes "nic_typed n s" "tx_slots s a (Suc c)"
  shows "same_shape s (core_fetch s)" "tx_slots (core_fetch s) (Suc a) c"
proof -
  let ?t = "core_fetch s" and ?n = "length (tx0 s)"
  have ne: "rxPkthdrRing s \<noteq> []" "txPkthdrRing s \<noteq> []" "ring_ok (tx0 s)" using assms(1) by (simp_all add: nic_typed_def)
  have r: "tx0 ?t = (tx0 s)[core_tx s := tx0 s ! core_tx s AND NOT DESC_OWNED_BIT]"
    using ne by (simp add: core_fetch_def set_tx0_def Let_def)
  have eq: "rxPkthdrRing ?t = rxPkthdrRing s" "rxMbufRing ?t = rxMbufRing s" "pkthdrs ?t = pkthdrs s" "mbufs ?t = mbufs s"
    "pktbuf ?t = pktbuf s" "txPktDone ?t = txPktDone s" "currTx ?t = currTx s" "txPkthdrRing ?t \<noteq> []"
    using ne by (simp_all add: core_fetch_def set_tx0_def Let_def)
  then have "cluster ?t j = cluster s j" for j by (simp add: cluster_def mbuf_of_def)
  then show "same_shape s ?t" using ne eq by (simp add: same_shape_def r)
  have at: "core_tx s = (txPktDone s + a) mod ?n" using assms(2) by (simp add: tx_slots_def)
  then have "core_tx s < ?n" using ring_ok_pos [OF ne(3)] by simp
  then have "core_tx ?t = (txPktDone s + Suc a) mod ?n"
    using core_next_ring [OF ne(3), of "core_tx s"] ring_next_add [of ?n "txPktDone s" a] at tx_slots_ne [OF assms(2)]
    by (simp add: core_fetch_def set_tx0_def Let_def)
  moreover have "owned_from (tx0 ?t) (txPktDone s) (\<lambda>k. \<not> (Suc a \<le> k \<and> k < Suc a + c))"
    unfolding r at using assms(2)
    by (intro owned_from_cong [OF owned_from_update [of "tx0 s" "txPktDone s" "\<lambda>k. \<not> (a \<le> k \<and> k < a + Suc c)" a]])
       (auto simp: tx_slots_def)
  ultimately show "tx_slots ?t (Suc a) c" using assms(2) eq r by (simp add: tx_slots_def)
qed

text \<open>Collecting ends, right behind the last frame the core has sent.\<close>

lemma swNic_txDone_slots:
  "tx_slots s a c \<Longrightarrow> swNic_txDone s = Some (s\<lparr>txPktDone := core_tx s\<rparr>) \<and> tx_slots (s\<lparr>txPktDone := core_tx s\<rparr>) 0 c"
proof (induction a arbitrary: s)
  case 0
  then have at: "core_tx s = txPktDone s" "currTx s = (txPktDone s + c) mod length (tx0 s)" "txPktDone s < length (tx0 s)"
    by (simp_all add: tx_slots_def)
  have "\<not> (txPktDone s \<noteq> currTx s \<and> risc_owned (tx0 s ! txPktDone s))"
    using tx_slots_core [OF 0] at by (cases "c = 0") auto
  then have "swNic_txDone s = Some s" by (subst swNic_txDone.simps) auto
  moreover have "s\<lparr>txPktDone := core_tx s\<rparr> = s" using at(1) by simp
  ultimately show ?case using 0 by simp
next
  case (Suc a)
  let ?n = "length (tx0 s)" let ?t = "s\<lparr>txPktDone := ring_next ?n (txPktDone s)\<rparr>"
  have nx: "ring_next ?n (txPktDone s) = Suc (txPktDone s) mod ?n"
    using Suc.prems by (simp add: tx_slots_def ring_next_mod)
  have own: "risc_owned (tx0 s ! txPktDone s)"
    using owned_from_at [of "tx0 s" "txPktDone s" "\<lambda>k. \<not> (Suc a \<le> k \<and> k < Suc a + c)" 0] Suc.prems tx_slots_ne [OF Suc.prems]
    by (simp add: tx_slots_def)
  have ne: "txPktDone s \<noteq> currTx s"
    using ring_pos_inj [of 0 ?n "Suc a + c" "txPktDone s"] Suc.prems tx_slots_ne [OF Suc.prems]
    by (auto simp: tx_slots_def)
  have "tx_slots ?t a c"
    using Suc.prems owned_from_shift [of "tx0 s" "txPktDone s" "\<lambda>k. \<not> (Suc a \<le> k \<and> k < Suc a + c)"] tx_slots_ne [OF Suc.prems]
    by (auto simp: tx_slots_def nx mod_simps elim!: owned_from_cong)
  from Suc.IH [OF this] show ?case using own ne by (subst swNic_txDone.simps) simp
qed

section \<open>Refinement\<close>

definition nic_sim :: "u8 list \<Rightarrow> nat \<Rightarrow> nic_state \<Rightarrow> frame_queue \<Rightarrow> bool" where
  "nic_sim mac n s a \<longleftrightarrow> rx_sim mac n s a \<and> (\<exists>k c. tx_slots s k c)"

text \<open>Steps of the sender leave the receiver alone.\<close>

lemma sent_rx_slots:
  assumes typed: "nic_typed n s" and "rx_slots mac s c b ws" "tx_slots s k m" "length out \<le> 2048"
  shows "same_shape s (sent_state out s)" "rx_slots mac (sent_state out s) c b ws"
proof -
  let ?t = "sent_state out s"
  have cur: "currTx s < length (tx0 s)" using assms(3) tx_slots_ne [OF assms(3)] by (simp add: tx_slots_def)
  show shape: "same_shape s ?t" by (rule sent_shape(1) [OF typed cur])
  have fields: "rxPkthdrRing ?t = rxPkthdrRing s" "rxMbufRing ?t = rxMbufRing s" "core_rx ?t = core_rx s"
    "nmem ?t = write_bytes (pktbuf_alligned s) out (nmem s)"
    "a \<noteq> desc_addr (tx0 s ! currTx s) \<Longrightarrow> pkthdrs ?t a = pkthdrs s a" for a
    by (simp_all add: sent_state_def Let_def)
  have "desc_addr (tx0 s ! currTx s) \<in> addrs (tx0 s)" using cur by (simp add: addrs_def)
  then have other: "a \<noteq> desc_addr (tx0 s ! currTx s)" if "a \<in> addrs (rx0 s)" for a
    using typed that unfolding nic_typed_def by blast
  have "blocks_apart (pktbuf_alligned s) (cluster s j)" if "j < n" for j
    using typed that by (simp add: nic_typed_def)
  then show "rx_slots mac ?t c b ws"
    using assms(4) other fields read_write_apart by (intro rx_slots_frame [OF assms(2) typed shape]) simp_all
qed

lemma fetched_rx_slots:
  assumes typed: "nic_typed n s" and "rx_slots mac s c b ws" "tx_slots s k (Suc m)"
  shows "same_shape s (core_fetch s)" "rx_slots mac (core_fetch s) c b ws"
proof -
  show shape: "same_shape s (core_fetch s)" by (rule fetch_slots(1) [OF typed assms(3)])
  show "rx_slots mac (core_fetch s) c b ws"
    by (rule rx_slots_frame [OF assms(2) typed shape]) (simp_all add: core_fetch_def set_tx0_def Let_def)
qed

lemma receive_tx_fields:
  "txPkthdrRing (snd (swNic_receive mac s)) = txPkthdrRing s" "txPktDone (snd (swNic_receive mac s)) = txPktDone s"
  "core_tx (snd (swNic_receive mac s)) = core_tx s" "currTx (snd (swNic_receive mac s)) = currTx s"
  by (simp_all add: swNic_receive_def Let_def split: prod.split)

lemma store_tx_fields:
  "txPkthdrRing (core_store f j s) = txPkthdrRing s" "txPktDone (core_store f j s) = txPktDone s"
  "core_tx (core_store f j s) = core_tx s" "currTx (core_store f j s) = currTx s"
  "firstTime (core_store f j s) = firstTime s" "currRx (core_store f j s) = currRx s"
  by (simp_all add: core_store_def set_rx0_def Let_def)

text \<open>Every step that is not a poll leaves the frames in the ring where they are.\<close>

lemma nonpoll_step:
  assumes step: "nic_step mac s ob t" "\<forall>r. ob \<noteq> Polled r" and typed: "nic_typed n s"
    and rx: "rx_slots mac s c b ws" "c \<le> length ws" and tx: "tx_slots s k m"
  shows "\<exists>new. same_shape s t \<and> rx_slots mac t c b (ws @ new) \<and> firstTime t = firstTime s \<and> currRx t = currRx s
    \<and> (\<exists>k m. tx_slots t k m)
    \<and> (case ob of Stored f \<Rightarrow> length ws < n \<and> map fst new = [f] | Missed f \<Rightarrow> length ws = n \<and> new = [] | _ \<Rightarrow> new = [])"
proof -
  have n: "length (rx0 s) = n" using typed by (simp add: nic_typed_def)
  from step(1) show ?thesis
  proof cases
    case (store j f)
    note st = store_slots [OF typed rx(1) store(3-6) rx(2)]
    have "length ws < n" using store(3) core_owns_iff [OF rx(1)] rx(1) n by (auto simp: rx_slots_def)
    moreover have "tx_slots t k m" using tx tx_slots_eq [of t s] by (simp add: store(2) store_tx_fields)
    ultimately show ?thesis
      using st unfolding store(1,2) by (intro exI [of _ "[(f, j)]"]) (auto simp: store_tx_fields)
  next
    case (miss f)
    then show ?thesis
      using core_owns_iff [OF rx(1)] rx n tx same_shape_refl [OF typed] by (intro exI [of _ "[]"]) auto
  next
    case poll
    then show ?thesis using step(2) by simp
  next
    case (send f r)
    have r: "(r, t) = (if Suc (k + m) = length (tx0 s) then (-1, s) else (0, sent_state f s))"
      using send(3) swNic_send_slots [OF tx] by simp
    show ?thesis
    proof (cases "Suc (k + m) = length (tx0 s)")
      case True
      then show ?thesis using r rx tx same_shape_refl [OF typed] send(1) by (intro exI [of _ "[]"]) auto
    next
      case False
      then have t: "t = sent_state f s" "Suc (k + m) < length (tx0 s)" using r tx by (simp_all add: tx_slots_def)
      have "firstTime t = firstTime s" "currRx t = currRx s" by (simp_all add: t(1) sent_state_def Let_def)
      then show ?thesis
        using sent_rx_slots [OF typed rx(1) tx send(2)] sent_slots [OF typed tx t(2)] send(1) t(1)
        by (intro exI [of _ "[]"]) auto
    qed
  next
    case fetch
    obtain m' where m: "m = Suc m'" using fetch(3) tx_slots_core [OF tx] by (cases m) auto
    have "firstTime t = firstTime s" "currRx t = currRx s" by (simp_all add: fetch(2) core_fetch_def set_tx0_def Let_def)
    then show ?thesis
      using fetched_rx_slots [OF typed rx(1) tx [unfolded m]] fetch_slots(2) [OF typed tx [unfolded m]] fetch(1,2)
      by (intro exI [of _ "[]"]) auto
  next
    case collect
    then have t: "t = s\<lparr>txPktDone := core_tx s\<rparr>" "tx_slots t 0 m" using swNic_txDone_slots [OF tx] by simp_all
    have "same_shape s t" using same_shape_refl [OF typed] by (simp add: t(1) same_shape_def cluster_def mbuf_of_def)
    moreover have "rx_slots mac t c b ws" unfolding t(1) using rx(1) rx_slots_eq [of "s\<lparr>txPktDone := core_tx s\<rparr>" s] by simp
    ultimately show ?thesis using t collect(1) by (intro exI [of _ "[]"]) auto
  qed
qed

lemma nic_sim_step:
  assumes sim: "nic_sim mac n s a" and step: "nic_step mac s ob t"
  shows "\<exists>b. queue_step mac n a ob b \<and> nic_sim mac n t b"
proof -
  obtain h q where a: "a = (h, q)" by (cases a)
  obtain k m where rx: "rx_sim mac n s (h, q)" and tx: "tx_slots s k m" using sim by (auto simp: nic_sim_def a)
  show ?thesis
  proof (cases "\<forall>r. ob \<noteq> Polled r")
    case False
    then have poll: "ob = Polled (polled (swNic_receive mac s))" "t = snd (swNic_receive mac s)"
      using step by (auto elim: nic_stepE)
    have "tx_slots t k m" using tx tx_slots_eq [of t s] by (simp add: poll(2) receive_tx_fields)
    moreover have "\<exists>b. queue_step mac n (h, q) ob b \<and> rx_sim mac n t b"
    proof (cases q)
      case Nil
      then have "swNic_receive mac s = (None, s)" using receive_empty rx by simp
      then show ?thesis using rx Nil by (simp add: poll polled_def)
    next
      case (Cons f q')
      then show ?thesis using receive_frame [of mac n s h f q'] rx by (simp add: poll)
    qed
    ultimately show ?thesis by (auto simp: a nic_sim_def)
  next
    case True
    obtain b ws where s: "nic_typed n s" "firstTime s = (\<not> h)" "rx_slots mac s (of_bool h) b ws" "of_bool h \<le> length ws"
      "currRx s = (b + of_bool h) mod n" "q = map fst (drop (of_bool h) ws)"
      by (rule rx_simE [OF rx])
    obtain new where new: "same_shape s t" "rx_slots mac t (of_bool h) b (ws @ new)" "firstTime t = firstTime s"
      "currRx t = currRx s" "\<exists>k m. tx_slots t k m"
      and ob: "case ob of Stored f \<Rightarrow> length ws < n \<and> map fst new = [f] | Missed f \<Rightarrow> length ws = n \<and> new = [] | _ \<Rightarrow> new = []"
      using nonpoll_step [OF step True s(1,3,4) tx] by blast
    have "of_bool h + length q = length ws" using s(4,6) by simp
    then have "queue_step mac n (h, q) ob (h, q @ map fst new)"
      using ob True by (cases ob) (auto intro: queue_step.sending)
    moreover have "rx_sim mac n t (h, q @ map fst new)"
      using new s same_shape_typed [OF s(1) new(1)] by (intro rx_simI [where b = b and ws = "ws @ new"]) simp_all
    ultimately show ?thesis using new(5) by (auto simp: a nic_sim_def)
  qed
qed

interpretation nic: simulation "nic_step mac" "queue_step mac n" "nic_sim mac n"
  by unfold_locales (rule nic_sim_step)

end
