(* ===== verification/Nicinit.thy ===== *)
theory Nicinit
  imports Swnic
begin

text \<open>
  What \<open>swNic_init\<close> of \<^verbatim>\<open>boot/rtl8196x/swNic_poll.c\<close> sets up: the arrays of headers, mbufs
  and buffers, cut from the heap of \<^verbatim>\<open>boot/init/calloc.c\<close>, are linked as \<open>nic_typed\<close> of
  \<open>Swnic\<close> demands, and the empty rings stand for the empty queue. With that the simulation of
  \<open>Swnic\<close> applies to every state the driver reaches, and gives the properties of the driver.
\<close>

section \<open>The state after the set-up\<close>

text \<open>The headers and the mbufs are arrays of items of 24 bytes.\<close>

definition item :: "u32 \<Rightarrow> nat \<Rightarrow> u32" where
  "item p i = p + 24 * of_nat i"

definition items :: "u32 \<Rightarrow> nat \<Rightarrow> u32 set" where
  "items p k = item p ` {..<k}"

lemma item_0 [simp]: "item p 0 = p"
  by (simp add: item_def)

lemma item_add [simp]: "item (item p i) j = item p (i + j)"
  by (simp add: item_def algebra_simps)

lemma item_step: "p + SIZEOF_PKTHDR = item p 1" "p + SIZEOF_MBUF = item p 1"
  "p + SIZEOF_PKTHDR * c = item p (unat c)" "p + SIZEOF_MBUF * c = item p (unat c)"
  by (simp_all add: item_def SIZEOF_PKTHDR_def SIZEOF_MBUF_def)

lemma item_inj: "i < 2 ^ 24 \<Longrightarrow> j < 2 ^ 24 \<Longrightarrow> item p i = item p j \<longleftrightarrow> i = j"
proof
  assume ij: "i < 2 ^ 24" "j < 2 ^ 24" and eq: "item p i = item p j"
  then have "(of_nat (24 * i) :: u32) = of_nat (24 * j)" by (simp add: item_def)
  then have "unat (of_nat (24 * i) :: u32) = unat (of_nat (24 * j) :: u32)" by (simp only:)
  then show "i = j" using ij by (simp add: unat_of_nat del: of_nat_mult)
qed simp

lemma items_Suc: "items p (Suc k) = insert p (items (item p 1) k)"
  by (auto simp: items_def lessThan_Suc_eq_insert_0 image_image)

lemma items_split: "items p (k + l) = items p k \<union> items (item p k) l"
proof -
  have "{..<k + l} = {..<k} \<union> {k..<k + l}" by auto
  moreover have "{k..<k + l} = (\<lambda>i. k + i) ` {..<l}"
    using image_add_atLeastLessThan [of k 0 l] by (simp add: lessThan_atLeast0 add.commute)
  ultimately show ?thesis by (simp add: items_def image_Un image_image)
qed

lemma item_in_items: "i < k \<Longrightarrow> item p i \<in> items p k"
  by (simp add: items_def)

lemma items_apart: "k + l \<le> 2 ^ 24 \<Longrightarrow> items p k \<inter> items (item p k) l = {}"
  using item_inj by (fastforce simp: items_def)

lemma item_not_after: "i < k \<Longrightarrow> k + l \<le> 2 ^ 24 \<Longrightarrow> item p i \<notin> items (item p k) l"
  using items_apart [of k l p] item_in_items [of i k p] by blast

lemma map_upt_shift: "map f [0..<Suc k] = f 0 # map (\<lambda>i. f (Suc i)) [0..<k]"
  by (simp add: upt_conv_Cons map_Suc_upt [symmetric] del: upt_Suc)

lemma fill_tx_words: "fst (fill_tx k p m H M) = map (\<lambda>i. item p i OR DESC_RISC_OWNED) [0..<k]"
  by (induction k arbitrary: p m H M)
     (simp_all add: map_upt_shift item_step Let_def split_def del: upt_Suc)

lemma fill_tx_other:
  "a \<notin> items p k \<Longrightarrow> fst (snd (fill_tx k p m H M)) a = H a"
  "b \<notin> items m k \<Longrightarrow> snd (snd (fill_tx k p m H M)) b = M b"
  by (induction k arbitrary: p m H M) (simp_all add: items_Suc item_step Let_def split_def)

lemma fill_tx_at:
  "k \<le> 2 ^ 20 \<Longrightarrow> i < k \<Longrightarrow> fst (snd (fill_tx k p m H M)) (item p i) = new_hdr (item m i) PKT_OUTGOING"
proof (induction k arbitrary: i p m H M)
  case (Suc k)
  show ?case
  proof (cases i)
    case 0
    have "p \<notin> items (item p 1) k" using item_not_after [of 0 1 k p] Suc.prems(1) by simp
    then show ?thesis using 0 by (simp add: fill_tx_other item_step Let_def split_def)
  next
    case (Suc i')
    then show ?thesis using Suc.IH [of i' "item p 1" "item m 1"] Suc.prems by (simp add: item_step Let_def split_def)
  qed
qed simp

lemma fill_rx_words:
  "fst (fill_rx k p m cl H M) = map (\<lambda>i. item p i OR DESC_SWCORE_OWNED) [0..<k]"
  "fst (snd (fill_rx k p m cl H M)) = map (\<lambda>i. item m i OR DESC_SWCORE_OWNED) [0..<k]"
  by (induction k arbitrary: p m cl H M)
     (simp_all add: map_upt_shift item_step Let_def split_def del: upt_Suc)

lemma fill_rx_other:
  "a \<notin> items p k \<Longrightarrow> fst (snd (snd (fill_rx k p m cl H M))) a = H a"
  "b \<notin> items m k \<Longrightarrow> snd (snd (snd (fill_rx k p m cl H M))) b = M b"
  by (induction k arbitrary: p m cl H M) (simp_all add: items_Suc item_step Let_def split_def)

lemma fill_rx_at:
  "k \<le> 2 ^ 20 \<Longrightarrow> i < k \<Longrightarrow>
     m_data (snd (snd (snd (fill_rx k p m cl H M))) (item m i)) = cl + size_of_cluster * of_nat i + 2"
proof (induction k arbitrary: i p m cl H M)
  case (Suc k)
  show ?case
  proof (cases i)
    case 0
    have "m \<notin> items (item m 1) k" using item_not_after [of 0 1 k m] Suc.prems(1) by simp
    then show ?thesis using 0 by (simp add: fill_rx_other item_step Let_def split_def new_mbuf_def)
  next
    case (Suc i')
    moreover have "cl + size_of_cluster * of_nat (Suc i') + 2 = cl + size_of_cluster + size_of_cluster * of_nat i' + 2"
      by (simp add: algebra_simps)
    ultimately show ?thesis
      using Suc.IH [of i' "item p 1" "item m 1" "cl + size_of_cluster"] Suc.prems
      by (simp add: item_step Let_def split_def)
  qed
qed simp

text \<open>Aligned addresses leave the bits of a descriptor free.\<close>

definition aligned :: "u32 \<Rightarrow> bool" where
  "aligned p \<longleftrightarrow> 8 dvd unat p"

lemma aligned_bits: "aligned p \<Longrightarrow> n < 2 \<Longrightarrow> \<not> bit p n"
proof -
  assume p: "aligned p" "n < 2"
  then obtain k where "unat p = push_bit 3 k" by (auto simp: aligned_def push_bit_eq_mult)
  then have "\<not> bit (unat p) n" using p(2) by (simp add: bit_push_bit_iff_nat)
  then show ?thesis by (simp add: bit_unsigned_iff)
qed

lemma aligned_item: "aligned p \<Longrightarrow> aligned (item p i)"
proof -
  assume p: "aligned p"
  have "unat (item p i) = (unat p + unat (of_nat (24 * i) :: u32)) mod 2 ^ 32" by (simp add: item_def unat_word_ariths)
  also have "\<dots> = (unat p + 24 * i) mod 2 ^ 32" by (simp add: unat_of_nat mod_simps del: of_nat_mult)
  finally show ?thesis using p by (simp add: aligned_def dvd_mod)
qed

lemma aligned_desc:
  assumes "aligned p"
  shows "desc_addr p = p" "desc_addr (p OR DESC_RISC_OWNED) = p" "desc_addr (p OR DESC_SWCORE_OWNED) = p"
    "risc_owned (p OR DESC_RISC_OWNED)" "(p OR DESC_RISC_OWNED) AND DESC_WRAP = 0" "(p OR DESC_SWCORE_OWNED) AND DESC_WRAP = 0"
proof -
  have "p AND NOT (mask 2) = p"
    using aligned_bits [OF assms] by (auto intro!: bit_word_eqI simp: bit_and_iff bit_not_iff bit_mask_iff not_less [symmetric])
  then show "desc_addr p = p" by (simp only: desc_addr_def desc_masks(4))
  then show "desc_addr (p OR DESC_RISC_OWNED) = p" "desc_addr (p OR DESC_SWCORE_OWNED) = p"
    by (simp_all add: DESC_RISC_OWNED_def)
  have b: "\<not> bit p 0" "\<not> bit p 1" by (rule aligned_bits [OF assms], simp)+
  show "risc_owned (p OR DESC_RISC_OWNED)" using b by (simp add: risc_owned_bit DESC_RISC_OWNED_def)
  have "p AND DESC_WRAP = 0"
    unfolding desc_masks(3) using b by (auto intro!: bit_word_eqI simp: bit_simps simp del: mask_1)
  then show "(p OR DESC_RISC_OWNED) AND DESC_WRAP = 0" "(p OR DESC_SWCORE_OWNED) AND DESC_WRAP = 0"
    by (simp_all add: DESC_RISC_OWNED_def)
qed

lemma DESC_WRAP_nonzero [simp]: "DESC_WRAP \<noteq> 0"
  by (simp add: DESC_WRAP_def)

lemma wrap_bits [simp]:
  "desc_addr (w OR DESC_WRAP) = desc_addr w" "(w OR DESC_WRAP) AND DESC_WRAP \<noteq> 0" "risc_owned (w OR DESC_WRAP) = risc_owned w"
proof -
  show "desc_addr (w OR DESC_WRAP) = desc_addr w"
    unfolding desc_addr_def desc_masks(4) unfolding desc_masks(3)
    by (auto intro!: bit_word_eqI simp: bit_simps simp del: mask_1)
  have "bit ((w OR DESC_WRAP) AND DESC_WRAP) 1"
    unfolding desc_masks(3) by (simp add: bit_simps)
  then show "(w OR DESC_WRAP) AND DESC_WRAP \<noteq> 0" by auto
  show "risc_owned (w OR DESC_WRAP) = risc_owned w"
    unfolding risc_owned_bit desc_masks(3) by (simp add: bit_simps)
qed

lemma and_not_mask: "unat (w AND NOT (mask n)) = unat w div 2 ^ n * 2 ^ n" for w :: u32
proof -
  have "w AND NOT (mask n) = push_bit n (drop_bit n w)"
    by (rule bit_word_eqI) (auto simp: bit_simps)
  moreover have "unat w < 2 ^ LENGTH(32)" by (rule unsigned_less)
  moreover have "take_bit 32 (unat w div 2 ^ n * 2 ^ n) = unat w div 2 ^ n * 2 ^ n"
    by (rule take_bit_nat_eq_self, rule le_less_trans [OF div_times_less_eq_dividend]) (use calculation(2) in simp)
  moreover have "take_bit 32 (unat w) = unat w" by (rule take_bit_nat_eq_self) (use calculation(2) in simp)
  ultimately show ?thesis
    by (simp only: unsigned_push_bit_eq unsigned_drop_bit_eq) (simp add: push_bit_nat_def drop_bit_nat_def)
qed

lemma kseg1:
  fixes p :: u32
  assumes "0x80000000 \<le> unat p" "unat p < 0x90000000"
  shows "unat (0xa0000000 OR p) = unat p + 0x20000000"
proof -
  have "unat (drop_bit 28 p) = unat p div 2 ^ 28"
    using unsigned_less [of p] by (simp add: drop_bit_eq_div unat_div_distrib)
  also have dv: "\<dots> = 8" by (rule div_nat_eqI) (use assms in simp_all)
  finally have "drop_bit 28 p = 8" by (simp add: word_unat_eq_iff)
  then have hi: "bit p i = bit (8 :: u32) (i - 28)" if "28 \<le> i" for i
    using that bit_drop_bit_eq [of 28 p] by (metis le_add_diff_inverse comp_apply)
  have ten: "(0xa0000000 :: u32) = push_bit 28 10" by (simp add: push_bit_eq_mult)
  have "bit (8 :: u32) j \<or> bit (10 :: u32) j \<longleftrightarrow> bit (10 :: u32) j" for j unfolding bit_or_iff [symmetric] by simp
  then have eight: "bit (8 :: u32) j \<Longrightarrow> bit (10 :: u32) j" for j by blast
  have "0xa0000000 OR p = push_bit 28 10 OR take_bit 28 p"
  proof (rule bit_word_eqI)
    fix i :: nat assume "i < LENGTH(32)"
    then show "bit (0xa0000000 OR p) i = bit (push_bit 28 10 OR take_bit 28 p) i"
      unfolding ten using hi [of i] eight [of "i - 28"]
      by (cases "i < 28") (auto simp only: bit_or_iff bit_push_bit_iff bit_take_bit_iff not_less possible_bit_word)
  qed
  also have "\<dots> = push_bit 28 10 + take_bit 28 p"
    by (rule disjunctive_add [symmetric]) (auto simp only: bit_push_bit_iff bit_take_bit_iff)
  also have "unat \<dots> = 10 * 2 ^ 28 + unat p mod 2 ^ 28"
  proof -
    have "unat p mod 2 ^ 28 < 2 ^ 28" by simp
    then have "10 * 2 ^ 28 + unat p mod 2 ^ 28 < 2 ^ 32" by simp
    then show ?thesis by (simp add: unat_word_ariths push_bit_eq_mult unsigned_take_bit_eq take_bit_eq_mod)
  qed
  finally show ?thesis using div_mult_mod_eq [of "unat p" "2 ^ 28"] unfolding dv by simp
qed

lemma uncached_bounds:
  assumes "0x80000000 \<le> unat p" "unat p < 0x90000000"
  shows "unat p + 0x20000000 \<le> unat (uncached p)" "unat (uncached p) < unat p + 0x20000020"
    "aligned (uncached p)" "(uncached p + 8 - 1) AND NOT (8 - 1) = uncached p"
proof -
  let ?x = "0xa0000000 OR p"
  have x: "unat ?x = unat p + 0x20000000" by (rule kseg1 [OF assms])
  then have "unat (?x + 31) = unat p + 0x2000001f" using assms by (simp add: unat_word_ariths)
  moreover have "(31 :: u32) = mask 5" by (simp add: mask_eq_exp_minus_1)
  ultimately have u: "unat (uncached p) = (unat p + 0x2000001f) div 32 * 32"
    using and_not_mask [of "?x + 31" 5] by (simp add: uncached_def ptr_align_def)
  then show "unat p + 0x20000000 \<le> unat (uncached p)" "unat (uncached p) < unat p + 0x20000020" by linarith+
  show "aligned (uncached p)" by (simp add: aligned_def u dvd_mult)
  then have "unat (uncached p + 7) div 8 * 8 = unat (uncached p)"
    using u assms by (simp add: unat_word_ariths aligned_def)
  moreover have "(uncached p + 8 - 1) AND NOT (8 - 1) = (uncached p + 7) AND NOT (mask 3)"
    by (simp add: mask_eq_exp_minus_1 add.commute)
  ultimately show "(uncached p + 8 - 1) AND NOT (8 - 1) = uncached p"
    using and_not_mask [of "uncached p + 7" 3] by (simp only: word_unat_eq_iff) simp
qed

text \<open>A ring of aligned headers, the last one with WRAP.\<close>

lemma set_wrap_ring:
  assumes "aligned p" "2 \<le> k" "k \<le> 2 ^ 20" "x \<in> {DESC_RISC_OWNED, DESC_SWCORE_OWNED}"
  defines "r \<equiv> set_wrap (map (\<lambda>i. item p i OR x) [0..<k])"
  shows "length r = k" "map desc_addr r = map (item p) [0..<k]" "ring_ok r"
    "i < k \<Longrightarrow> risc_owned (r ! i) = (x = DESC_RISC_OWNED)"
proof -
  let ?ws = "map (\<lambda>i. item p i OR x) [0..<k]"
  have r: "r = ?ws[k - 1 := ?ws ! (k - 1) OR DESC_WRAP]"
    using assms(2) by (simp add: r_def set_wrap_def)
  then show len: "length r = k" by simp
  have addr: "desc_addr (item p i OR x) = item p i" "(item p i OR x) AND DESC_WRAP = 0"
    "risc_owned (item p i OR x) = (x = DESC_RISC_OWNED)" for i
    using aligned_desc [OF aligned_item [OF assms(1), of i]] assms(4) desc_owned(1) [of "item p i"]
    by (auto simp: DESC_RISC_OWNED_def DESC_SWCORE_OWNED_def)
  show "risc_owned (r ! i) = (x = DESC_RISC_OWNED)" if "i < k" using that addr(3) by (simp add: r nth_list_update)
  show m: "map desc_addr r = map (item p) [0..<k]"
    by (rule nth_equalityI) (simp_all add: len r nth_list_update addr(1))
  have "map (\<lambda>w. w AND DESC_WRAP \<noteq> 0) r = replicate (k - 1) False @ [True]"
    by (rule nth_equalityI) (use assms(2) in \<open>auto simp: len r nth_list_update addr(2) nth_append\<close>)
  moreover have "distinct (map (item p) [0..<k])"
    using item_inj assms(3) by (auto simp: distinct_map inj_on_def)
  ultimately show "ring_ok r" using len assms(2) by (simp add: ring_ok_def m)
qed

text \<open>All transmit rings take their items from the same arrays, the receive ring follows behind them.\<close>

abbreviation "total_of \<equiv> \<lambda>cs :: u32 list. sum_list (map unat cs)"

lemma fill_tx_rings_other:
  "a \<notin> items p (total_of cs) \<Longrightarrow> fst (snd (fill_tx_rings cs p m H M)) a = H a"
  by (induction cs arbitrary: p m H M) (simp_all add: items_split fill_tx_other item_step Let_def split_def)

lemma fill_tx_rings_first:
  assumes "fill_tx_rings (c # cs) p m H M = (rs, H', M')" "total_of (c # cs) \<le> 2 ^ 20"
  shows "rs ! 0 = set_wrap (map (\<lambda>i. item p i OR DESC_RISC_OWNED) [0..<unat c])" "rs \<noteq> []"
    and "i < unat c \<Longrightarrow> ph_mbuf (H' (item p i)) = item m i"
proof -
  have rs: "rs = set_wrap (fst (fill_tx (unat c) p m H M)) # fst (fill_tx_rings cs (item p (unat c)) (item m (unat c))
      (fst (snd (fill_tx (unat c) p m H M))) (snd (snd (fill_tx (unat c) p m H M))))"
    and H': "H' = fst (snd (fill_tx_rings cs (item p (unat c)) (item m (unat c))
      (fst (snd (fill_tx (unat c) p m H M))) (snd (snd (fill_tx (unat c) p m H M)))))"
    using assms(1) by (auto simp: item_step Let_def split_def)
  show "rs ! 0 = set_wrap (map (\<lambda>i. item p i OR DESC_RISC_OWNED) [0..<unat c])" "rs \<noteq> []"
    by (simp_all add: rs fill_tx_words)
  show "ph_mbuf (H' (item p i)) = item m i" if "i < unat c"
    using fill_tx_at [of "unat c" i p m H M] item_not_after [of i "unat c" "total_of cs" p] that assms(2)
    by (simp add: H' fill_tx_rings_other new_hdr_def)
qed

lemma fill_rx_rings_zero:
  "\<forall>z \<in> set cs. z = 0 \<Longrightarrow> fill_rx_rings cs p m cl H M = (map (\<lambda>_. []) cs, [], H, M)"
  by (induction cs arbitrary: p m cl H M) (simp_all add: set_wrap_def Let_def)

lemma cluster_stride:
  assumes "j < 2 ^ 20" "k < 2 ^ 20" "j \<noteq> k"
  shows "blocks_apart (cl + size_of_cluster * of_nat j + 2) (cl + size_of_cluster * of_nat k + 2)"
proof (unfold blocks_apart_def, intro allI notI, elim conjE)
  fix x assume x: "in_block (cl + size_of_cluster * of_nat j + 2) 2048 x" "in_block (cl + size_of_cluster * of_nat k + 2) 2048 x"
  have "unat (x - (cl + 2)) div 2048 = i" if "in_block (cl + size_of_cluster * of_nat i + 2) 2048 x" "i < 2 ^ 20" for i
  proof -
    define r where "r = x - (cl + size_of_cluster * of_nat i + 2)"
    have r: "unat r < 2048" using that(1) by (simp add: in_block_def r_def)
    have "x - (cl + 2) = of_nat (2048 * i) + r" by (simp add: r_def size_of_cluster_def)
    then have "unat (x - (cl + 2)) = (unat (of_nat (2048 * i) :: u32) + unat r) mod 2 ^ 32" by (simp only: unat_word_ariths) simp
    then have "unat (x - (cl + 2)) = 2048 * i + unat r" using r that(2) by (simp add: unat_of_nat del: of_nat_mult)
    then show ?thesis using r by simp
  qed
  from this [OF x(1) assms(1)] this [OF x(2) assms(2)] show False using assms(3) by simp
qed

lemma linked_typed:
  assumes tx: "fill_tx_rings (t # ts) p m H0 M0 = (txr, H1, M1)"
    and rx: "fill_rx_rings (c # cs) (item p T) (item m T) cl H1 M1 = (rxr, ms, H, M)"
    and T: "T = total_of (t # ts)" "T \<le> 2 ^ 19" "2 \<le> unat t" "2 \<le> unat c" "unat c \<le> 2 ^ 19" "\<forall>z \<in> set cs. z = 0"
    and al: "aligned p" "aligned m"
    and s: "rxPkthdrRing s = rxr" "txPkthdrRing s = txr" "rxMbufRing s = set_wrap ms" "pkthdrs s = H" "mbufs s = M"
    and pb: "\<And>j. j < unat c \<Longrightarrow> blocks_apart (pktbuf_alligned s) (cl + size_of_cluster * of_nat j + 2)"
  shows "nic_typed (unat c) s" "\<forall>w \<in> set (rx0 s) \<union> set (rxMbufRing s). \<not> risc_owned w" "\<forall>w \<in> set (tx0 s). risc_owned w"
    "length ms = unat c"
proof -
  let ?n = "unat c" and ?p = "item p T" and ?m = "item m T"
  note f = fill_tx_rings_first [OF tx]
  have r: "rxr = set_wrap (map (\<lambda>i. item ?p i OR DESC_SWCORE_OWNED) [0..<?n]) # map (\<lambda>_. []) cs"
    "ms = map (\<lambda>i. item ?m i OR DESC_SWCORE_OWNED) [0..<?n]"
    "H = fst (snd (snd (fill_rx ?n ?p ?m cl H1 M1)))" "M = snd (snd (snd (fill_rx ?n ?p ?m cl H1 M1)))"
    using rx T(6) fill_rx_words [of ?n ?p ?m cl H1 M1] by (auto simp: Let_def split_def fill_rx_rings_zero)
  then show "length ms = ?n" by simp
  have tot: "total_of (t # ts) \<le> 2 ^ 20" and n: "?n \<le> 2 ^ 20" "unat t \<le> 2 ^ 20" and tT: "unat t \<le> T" using T by simp_all
  have sw: "DESC_SWCORE_OWNED \<in> {DESC_RISC_OWNED, DESC_SWCORE_OWNED}" by simp
  note R = set_wrap_ring [OF aligned_item [OF al(1), of T] T(4) n(1) sw]
  note B = set_wrap_ring [OF aligned_item [OF al(2), of T] T(4) n(1) sw]
  note X = set_wrap_ring [OF al(1) T(3) n(2) insertI1]
  have rings: "rx0 s = set_wrap (map (\<lambda>i. item ?p i OR DESC_SWCORE_OWNED) [0..<?n])"
    "rxMbufRing s = set_wrap (map (\<lambda>i. item ?m i OR DESC_SWCORE_OWNED) [0..<?n])"
    "tx0 s = set_wrap (map (\<lambda>i. item p i OR DESC_RISC_OWNED) [0..<unat t])"
    using f(1) tot by (simp_all add: s r)
  show "\<forall>w \<in> set (rx0 s) \<union> set (rxMbufRing s). \<not> risc_owned w" "\<forall>w \<in> set (tx0 s). risc_owned w"
    unfolding rings using R(1,4) B(1,4) X(1,4) by (auto simp: in_set_conv_nth DESC_RISC_OWNED_def DESC_SWCORE_OWNED_def)
  have mb: "mbuf_of s j = item ?m j" if "j < ?n" for j
  proof -
    have "mbuf_of s j = map desc_addr (rxMbufRing s) ! j" using that B(1) by (simp add: mbuf_of_def rings)
    also have "\<dots> = item ?m j" using that B(2) by (simp add: rings)
    finally show ?thesis .
  qed
  have cl: "cluster s j = cl + size_of_cluster * of_nat j + 2" if "j < ?n" for j
    using fill_rx_at [OF n(1) that, of ?p ?m cl H1 M1] that by (simp add: cluster_def mb s r)
  have ad: "addrs (rx0 s) = items ?p ?n" "addrs (tx0 s) = items p (unat t)"
    unfolding addrs_def rings R(2) X(2) items_def by (simp_all add: atLeast0LessThan)
  have "items p (unat t) \<subseteq> items p T" using tT by (auto simp: items_def)
  moreover have "items p T \<inter> items ?p ?n = {}" using T(2,5) by (intro items_apart) simp
  ultimately have "addrs (rx0 s) \<inter> addrs (tx0 s) = {}" unfolding ad by blast
  moreover have ph: "ph_mbuf (pkthdrs s (item p i)) = item m i" if "i < unat t" for i
  proof -
    have "item p i \<notin> items ?p ?n" using item_not_after [of i T ?n p] that tT T(2,5) by simp
    then show ?thesis using f(3) [OF tot that] by (simp add: s r fill_rx_other)
  qed
  moreover have "ph_mbuf (pkthdrs s a) \<noteq> mbuf_of s j" if "a \<in> addrs (tx0 s)" "j < ?n" for a j
  proof -
    have "a \<in> items p (unat t)" using that(1) ad(2) by simp
    then obtain i where i: "a = item p i" "i < unat t" by (auto simp: items_def)
    then show ?thesis using item_inj [of i "T + j" m] ph [of i] that(2) tT T(2,5) by (simp add: mb)
  qed
  moreover have "inj_on (\<lambda>a. ph_mbuf (pkthdrs s a)) (addrs (tx0 s))"
  proof (rule inj_onI)
    fix a a' assume a: "a \<in> addrs (tx0 s)" "a' \<in> addrs (tx0 s)" "ph_mbuf (pkthdrs s a) = ph_mbuf (pkthdrs s a')"
    then obtain i i' where "a = item p i" "i < unat t" "a' = item p i'" "i' < unat t" unfolding ad by (auto simp: items_def)
    then show "a = a'" using a(3) ph [of i] ph [of i'] item_inj [of i i' m] n(2) by simp
  qed
  moreover have "mbuf_ring_ok (rxMbufRing s)"
  proof -
    have "desc_addr (rxMbufRing s ! 0) = ?m" using mb [of 0] T(4) by (simp add: mbuf_of_def)
    then show ?thesis
      using B(1,2) n(1) by (simp add: mbuf_ring_ok_def rings item_def SIZEOF_MBUF_def cong: map_cong)
  qed
  moreover have "rxPkthdrRing s \<noteq> []" "txPkthdrRing s \<noteq> []" using f(2) [OF tot] by (simp_all add: s r)
  moreover have "ring_ok (rx0 s)" "length (rx0 s) = ?n" "ring_ok (tx0 s)" "length (rxMbufRing s) = ?n"
    by (simp_all only: rings R(1,3) X(3) B(1))
  moreover have "blocks_apart (cluster s j) (cluster s k)" if "j < ?n" "k < ?n" "j \<noteq> k" for j k
    using cluster_stride [of j k cl] that n(1) by (simp add: cl)
  moreover have "blocks_apart (pktbuf_alligned s) (cluster s j)" if "j < ?n" for j using pb that by (simp add: cl)
  ultimately show "nic_typed ?n s" unfolding nic_typed_def by blast
qed

text \<open>
  The heap the boot code starts with is one free block; requests are cut off its front. It lies in
  the cached segment below 0x90000000.
\<close>

definition one_block :: "nat \<Rightarrow> nat \<Rightarrow> heap_state \<Rightarrow> bool" where
  "one_block a N h \<longleftrightarrow> flist h (frhd h) [(a, N)] \<and> 0x80000000 \<le> a \<and> a mod 8 = 0 \<and> a + 8 * N < 0x90000000"

definition units :: "u32 \<Rightarrow> nat" where
  "units nb = unat (nunits_of nb)"

lemma nic_malloc_one:
  assumes "one_block a N h" "units nb < N"
  shows "\<exists>h'. nic_malloc nb h = Some (of_nat a + 8, h') \<and> one_block (a + 8 * units nb) (N - units nb) h'"
proof -
  let ?k = "units nb"
  have a: "flist h (frhd h) [(a, N)]" "0x80000000 \<le> a" "a mod 8 = 0" "a + 8 * N < 0x90000000"
    using assms(1) by (simp_all add: one_block_def)
  then have "chain a [(a, N)] (a + 8 * N)" using assms(2) by simp
  moreover have "first_fit ?k [(a, N)] = Some (a, [(a + 8 * ?k, N - ?k)])" using assms(2) by (simp add: first_fit_def)
  ultimately obtain h' where h': "malloc h nb = Some (of_nat a + 8, h')" "flist h' (frhd h') [(a + 8 * ?k, N - ?k)]"
    using malloc_refines_list [OF a(1), of a "a + 8 * N" nb] nunits_pos(1) [of nb] a(4) by (auto simp: units_def)
  have u: "unat (of_nat a + 8 :: u32) = a + 8"
  proof -
    have "of_nat a + 8 = (of_nat (a + 8) :: u32)" by simp
    then show ?thesis using a(4) assms(2) by (simp add: unat_of_nat del: of_nat_add)
  qed
  have "unat ((of_nat a + 8 :: u32) AND mask 28) = (a + 8) mod 2 ^ 28"
    unfolding take_bit_eq_mask [symmetric] by (subst unsigned_take_bit_eq) (simp only: u take_bit_eq_mod)
  moreover have "(a + 8) mod 2 ^ 28 \<noteq> 0"
  proof
    assume "(a + 8) mod 2 ^ 28 = 0"
    moreover have "(a + 8) div 2 ^ 28 = 8" by (rule div_nat_eqI) (use a assms(2) in simp_all)
    ultimately show False using div_mult_mod_eq [of "a + 8" "2 ^ 28"] a(2) by simp
  qed
  moreover have "(0x0fffffff :: u32) = mask 28" by (simp add: mask_eq_exp_minus_1)
  ultimately have "(of_nat a + 8 :: u32) AND 0x0fffffff \<noteq> 0" by (metis unsigned_0)
  then have "nic_malloc nb h = Some (of_nat a + 8, h')" by (simp add: nic_malloc_def h'(1))
  moreover have "one_block (a + 8 * ?k) (N - ?k) h'"
  proof -
    have "a + 8 * ?k + 8 * (N - ?k) = a + 8 * N" using assms(2) by simp
    moreover have "(a + 8 * ?k) mod 8 = 0" using a(3) by presburger
    ultimately show ?thesis using a h'(2) by (simp add: one_block_def)
  qed
  ultimately show ?thesis by blast
qed

definition ring_units :: "u32 list \<Rightarrow> nat" where
  "ring_units cs = sum_list (map (\<lambda>c. units (c * 4 + 32)) (filter (\<lambda>c. c \<noteq> 0) cs))"

lemma alloc_rings_one:
  assumes "one_block a N h" "ring_units cs < N"
  shows "\<exists>ps h'. alloc_rings cs h = Some (ps, h') \<and> one_block (a + 8 * ring_units cs) (N - ring_units cs) h'"
  using assms
proof (induction cs arbitrary: a N h)
  case (Cons c cs)
  show ?case
  proof (cases "c = 0")
    case True
    then show ?thesis using Cons by (fastforce simp: ring_units_def)
  next
    case False
    let ?k = "units (c * 4 + 32)"
    have sum: "ring_units (c # cs) = ?k + ring_units cs" using False by (simp add: ring_units_def)
    obtain h1 where h1: "nic_malloc (c * 4 + 32) h = Some (of_nat a + 8, h1)" "one_block (a + 8 * ?k) (N - ?k) h1"
      using nic_malloc_one [OF Cons.prems(1), of "c * 4 + 32"] Cons.prems(2) sum by auto
    have "ring_units cs < N - ?k" using Cons.prems(2) sum by linarith
    then obtain ps h' where h': "alloc_rings cs h1 = Some (ps, h')"
      "one_block (a + 8 * ?k + 8 * ring_units cs) (N - ?k - ring_units cs) h'"
      using Cons.IH [OF h1(2)] by blast
    then show ?thesis using h1(1) h' False by (simp add: sum algebra_simps)
  qed
qed (simp add: ring_units_def)

text \<open>The units that all allocations of \<open>swNic_init\<close> take.\<close>

definition init_units :: "u32 list \<Rightarrow> u32 \<Rightarrow> u32 list \<Rightarrow> nat" where
  "init_units rxcnt mbufcnt txcnt =
     ring_units rxcnt + ring_units txcnt + units (mbufcnt * 4 + 32)
     + units ((sum_list rxcnt + sum_list txcnt) * SIZEOF_PKTHDR + 32)
     + units ((mbufcnt + sum_list txcnt) * SIZEOF_MBUF + 32)
     + units (mbufcnt * size_of_cluster + 8 - 1 + 2 * mbufcnt + 32)"

text \<open>Where the driver starts: one big free block behind the transmit buffer, small rings, first call.\<close>

definition init_ok :: "u32 list \<Rightarrow> u32 \<Rightarrow> u32 list \<Rightarrow> heap_state \<Rightarrow> nic_state \<Rightarrow> bool" where
  "init_ok rxcnt mbufcnt txcnt h s \<longleftrightarrow>
     (\<exists>a N. one_block a N h \<and> init_units rxcnt mbufcnt txcnt < N
        \<and> 0x80000000 \<le> unat (pktbuf s) \<and> unat (pktbuf s) + 2048 \<le> a)
     \<and> rxcnt \<noteq> [] \<and> (\<forall>c \<in> set (tl rxcnt). c = 0) \<and> hd rxcnt = mbufcnt \<and> 2 \<le> mbufcnt \<and> mbufcnt \<le> 1024
     \<and> txcnt \<noteq> [] \<and> 2 \<le> hd txcnt \<and> total_of txcnt \<le> 1024 \<and> firstTime s"

lemma unat_sum_list: "total_of cs < 2 ^ 32 \<Longrightarrow> unat (sum_list cs) = total_of cs"
proof (induction cs)
  case (Cons c cs)
  then show ?case by (simp add: unat_word_ariths)
qed simp

lemma pktbuf_alligned_bounds:
  assumes "0x80000000 \<le> unat (pktbuf s)" "unat (pktbuf s) < 0x90000000"
  shows "unat (pktbuf_alligned s) \<le> unat (pktbuf s) + 0x20000000"
proof -
  let ?b = "pktbuf s AND 0xfffffffc"
  have "(0xfffffffc :: u32) = NOT (mask 2)" by (simp add: mask_eq_exp_minus_1)
  then have u: "unat ?b = unat (pktbuf s) div 4 * 4" using and_not_mask [of "pktbuf s" 2] by simp
  have "unat ?b \<le> unat (pktbuf s)" "0x80000000 \<le> unat ?b"
    unfolding u using assms(1) div_le_mono [OF assms(1), of 4] by simp_all
  then have "unat (pktbuf_alligned s) = unat ?b + 0x20000000"
    using kseg1 [of ?b] assms(2) by (simp add: pktbuf_alligned_def or.commute)
  then show ?thesis using \<open>unat ?b \<le> unat (pktbuf s)\<close> by simp
qed

lemma in_block_unat: "in_block b n x \<Longrightarrow> unat b + n \<le> 2 ^ 32 \<Longrightarrow> unat x = unat b + unat (x - b)"
proof -
  assume x: "in_block b n x" "unat b + n \<le> 2 ^ 32"
  have "unat (b + (x - b)) = (unat b + unat (x - b)) mod 2 ^ 32" by (simp only: unat_word_ariths) simp
  moreover have "unat b + unat (x - b) < 2 ^ 32" using x by (simp add: in_block_def)
  ultimately show ?thesis by simp
qed

lemma below_apart:
  assumes "unat b + 2048 \<le> unat d" "unat d + 2048 < 2 ^ 32"
  shows "blocks_apart b d"
proof (unfold blocks_apart_def, intro allI notI, elim conjE)
  fix x assume "in_block b 2048 x" "in_block d 2048 x"
  then have "unat x < unat b + 2048" "unat d \<le> unat x"
    using in_block_unat [of b 2048 x] in_block_unat [of d 2048 x] assms by (simp_all add: in_block_def)
  then show False using assms by simp
qed

lemma init_mallocs:
  assumes "init_ok rxcnt mbufcnt txcnt h s"
  shows "\<exists>rxp h1 txp h2 mr h3 ph h4 pm h5 pc h6.
    alloc_rings rxcnt h = Some (rxp, h1) \<and> alloc_rings txcnt h1 = Some (txp, h2)
    \<and> nic_malloc (mbufcnt * 4 + 32) h2 = Some (mr, h3)
    \<and> nic_malloc ((sum_list rxcnt + sum_list txcnt) * SIZEOF_PKTHDR + 32) h3 = Some (ph, h4)
    \<and> nic_malloc ((mbufcnt + sum_list txcnt) * SIZEOF_MBUF + 32) h4 = Some (pm, h5)
    \<and> nic_malloc (mbufcnt * size_of_cluster + 8 - 1 + 2 * mbufcnt + 32) h5 = Some (pc, h6)
    \<and> 0x80000000 \<le> unat ph \<and> unat ph < 0x90000000 \<and> 0x80000000 \<le> unat pm \<and> unat pm < 0x90000000
    \<and> unat (pktbuf s) + 2048 \<le> unat pc \<and> unat pc < 0x90000000"
proof -
  obtain a N where a: "one_block a N h" "init_units rxcnt mbufcnt txcnt < N"
    "0x80000000 \<le> unat (pktbuf s)" "unat (pktbuf s) + 2048 \<le> a"
    using assms unfolding init_ok_def by blast
  let ?r3 = "mbufcnt * 4 + 32" let ?r4 = "(sum_list rxcnt + sum_list txcnt) * SIZEOF_PKTHDR + 32"
  let ?r5 = "(mbufcnt + sum_list txcnt) * SIZEOF_MBUF + 32"
  let ?r6 = "mbufcnt * size_of_cluster + 8 - 1 + 2 * mbufcnt + 32"
  let ?k1 = "ring_units rxcnt" and ?k2 = "ring_units txcnt" and ?k3 = "units ?r3" and ?k4 = "units ?r4"
    and ?k5 = "units ?r5" and ?k6 = "units ?r6"
  have sum: "?k1 + ?k2 + ?k3 + ?k4 + ?k5 + ?k6 < N" using a(2) unfolding init_units_def .
  have ptr: "unat (of_nat b + 8 :: u32) = b + 8 \<and> 0x80000000 \<le> b + 8 \<and> b + 8 < 0x90000000"
    if "one_block b M h'" "0 < M" for b M h'
  proof -
    have "b + 8 < 0x90000000" "0x80000000 \<le> b" using that by (auto simp: one_block_def)
    moreover have "of_nat b + 8 = (of_nat (b + 8) :: u32)" by simp
    ultimately show ?thesis by (simp add: unat_of_nat del: of_nat_add)
  qed
  have lt: "?k1 < N" "?k2 < N - ?k1" "?k3 < N - ?k1 - ?k2" "?k4 < N - ?k1 - ?k2 - ?k3"
    "?k5 < N - ?k1 - ?k2 - ?k3 - ?k4" "?k6 < N - ?k1 - ?k2 - ?k3 - ?k4 - ?k5"
    using sum by linarith+
  obtain rxp h1 where 1: "alloc_rings rxcnt h = Some (rxp, h1)" "one_block (a + 8 * ?k1) (N - ?k1) h1"
    using alloc_rings_one [OF a(1) lt(1)] by blast
  obtain txp h2 where 2: "alloc_rings txcnt h1 = Some (txp, h2)" "one_block (a + 8 * ?k1 + 8 * ?k2) (N - ?k1 - ?k2) h2"
    using alloc_rings_one [OF 1(2) lt(2)] by blast
  define b where "b = a + 8 * ?k1 + 8 * ?k2"
  obtain h3 where 3: "nic_malloc ?r3 h2 = Some (of_nat b + 8, h3)" "one_block (b + 8 * ?k3) (N - ?k1 - ?k2 - ?k3) h3"
    using nic_malloc_one [OF 2(2) lt(3)] unfolding b_def by blast
  obtain h4 where 4: "nic_malloc ?r4 h3 = Some (of_nat (b + 8 * ?k3) + 8, h4)"
    "one_block (b + 8 * ?k3 + 8 * ?k4) (N - ?k1 - ?k2 - ?k3 - ?k4) h4"
    using nic_malloc_one [OF 3(2) lt(4)] by blast
  obtain h5 where 5: "nic_malloc ?r5 h4 = Some (of_nat (b + 8 * ?k3 + 8 * ?k4) + 8, h5)"
    "one_block (b + 8 * ?k3 + 8 * ?k4 + 8 * ?k5) (N - ?k1 - ?k2 - ?k3 - ?k4 - ?k5) h5"
    using nic_malloc_one [OF 4(2) lt(5)] by blast
  obtain h6 where 6: "nic_malloc ?r6 h5 = Some (of_nat (b + 8 * ?k3 + 8 * ?k4 + 8 * ?k5) + 8, h6)"
    using nic_malloc_one [OF 5(2) lt(6)] by blast
  have pos: "0 < N - ?k1 - ?k2 - ?k3" "0 < N - ?k1 - ?k2 - ?k3 - ?k4" "0 < N - ?k1 - ?k2 - ?k3 - ?k4 - ?k5"
    using lt(4-6) by linarith+
  have "unat (pktbuf s) + 2048 \<le> b + 8 * ?k3 + 8 * ?k4 + 8 * ?k5 + 8" using a(4) unfolding b_def by linarith
  then have "unat (pktbuf s) + 2048 \<le> unat (of_nat (b + 8 * ?k3 + 8 * ?k4 + 8 * ?k5) + 8 :: u32)"
    using ptr [OF 5(2) pos(3)] by (simp only:)
  then show ?thesis
    using 1(1) 2(1) 3(1) 4(1) 5(1) 6 ptr [OF 3(2) pos(1)] ptr [OF 4(2) pos(2)] ptr [OF 5(2) pos(3)] by metis
qed

lemma swNic_init_empty:
  assumes "init_ok rxcnt mbufcnt txcnt h s"
  shows "\<exists>t h'. swNic_init rxcnt mbufcnt txcnt h s = Some (0, t, h') \<and> nic_sim mac (unat mbufcnt) t (False, [])
    \<and> tx_slots t 0 0 \<and> length (tx0 t) = unat (hd txcnt) \<and> wire t = wire s"
proof -
  have cnt: "rxcnt \<noteq> []" "\<forall>c \<in> set (tl rxcnt). c = 0" "hd rxcnt = mbufcnt" "2 \<le> mbufcnt" "mbufcnt \<le> 1024"
    "txcnt \<noteq> []" "2 \<le> hd txcnt" "total_of txcnt \<le> 1024" "firstTime s"
    using assms unfolding init_ok_def by blast+
  obtain cs where rxcnt: "rxcnt = mbufcnt # cs" "\<forall>c \<in> set cs. c = 0" using cnt(1-3) by (cases rxcnt) auto
  obtain t ts where txcnt: "txcnt = t # ts" "2 \<le> t" using cnt(6,7) by (cases txcnt) auto
  have tot: "unat (sum_list txcnt) = total_of txcnt" using cnt(8) by (intro unat_sum_list) simp
  have zero: "sum_list cs = 0" using rxcnt(2) by (induction cs) auto
  have n: "2 \<le> unat mbufcnt" "unat mbufcnt \<le> 1024" "2 \<le> unat t" "mbufcnt \<noteq> 0" "sum_list txcnt \<noteq> 0"
    using cnt(4,5) txcnt tot by (auto simp: word_le_nat_alt)
  obtain rxp h1 txp h2 mr h3 ph h4 pm h5 pc h6 where mem:
    "alloc_rings rxcnt h = Some (rxp, h1)" "alloc_rings txcnt h1 = Some (txp, h2)"
    "nic_malloc (mbufcnt * 4 + 32) h2 = Some (mr, h3)"
    "nic_malloc ((sum_list rxcnt + sum_list txcnt) * SIZEOF_PKTHDR + 32) h3 = Some (ph, h4)"
    "nic_malloc ((mbufcnt + sum_list txcnt) * SIZEOF_MBUF + 32) h4 = Some (pm, h5)"
    "nic_malloc (mbufcnt * size_of_cluster + 8 - 1 + 2 * mbufcnt + 32) h5 = Some (pc, h6)"
    and lo: "0x80000000 \<le> unat ph" "unat ph < 0x90000000" "0x80000000 \<le> unat pm" "unat pm < 0x90000000"
    "unat (pktbuf s) + 2048 \<le> unat pc" "unat pc < 0x90000000"
    using init_mallocs [OF assms] by blast
  have pb: "0x80000000 \<le> unat (pktbuf s)" using assms by (auto simp: init_ok_def)
  let ?cl = "uncached pc" and ?p = "uncached ph" and ?m = "uncached pm" and ?T = "total_of txcnt"
  obtain txr H1 M1 where tx: "fill_tx_rings txcnt ?p ?m (pkthdrs s) (mbufs s) = (txr, H1, M1)"
    by (cases "fill_tx_rings txcnt ?p ?m (pkthdrs s) (mbufs s)") auto
  obtain rxr ms H M where rx: "fill_rx_rings rxcnt (item ?p ?T) (item ?m ?T) ?cl H1 M1 = (rxr, ms, H, M)"
    by (cases "fill_rx_rings rxcnt (item ?p ?T) (item ?m ?T) ?cl H1 M1") auto
  have cl: "unat pc + 0x20000000 \<le> unat ?cl" "unat ?cl < unat pc + 0x20000020" "(?cl + 8 - 1) AND NOT (8 - 1) = ?cl"
    using uncached_bounds [of pc] lo(5,6) pb by simp_all
  define clbytes where "clbytes = mbufcnt * size_of_cluster + 8 - 1 + 2 * mbufcnt + 32"
  define u where "u = s\<lparr>rxPkthdrRing := rxr, txPkthdrRing := txr,
           rxMbufRing := set_wrap (ms @ replicate (unat mbufcnt - length ms) 0), pkthdrs := H, mbufs := M,
           nmem := write_bytes (0xa0000000 OR pc) (replicate (unat clbytes) 0) (nmem s),
           currRx := 0, currRxMbuf := 0, currTx := 0, txPktDone := 0, rxPktCounter := 0, txPktCounter := 0,
           CPUTPDCR := map (\<lambda>p. if p = 0 then 0 else uncached p) txp,
           CPURPDCR := map (\<lambda>p. if p = 0 then 0 else uncached p) rxp, CPURMDCR0 := uncached mr,
           CPUICR := push_bit 31 1 OR push_bit 30 1 OR push_bit 24 4, CPUIIMR := push_bit 3 0x3f OR push_bit 9 3,
           core_rx := 0, core_tx := 0\<rparr>"
  have sums: "(sum_list rxcnt = 0) = False" "(sum_list txcnt = 0 \<or> mbufcnt = 0) = False"
    using n(4,5) zero by (simp_all add: rxcnt(1))
  have init: "swNic_init rxcnt mbufcnt txcnt h s = (if length ms > unat mbufcnt then None else Some (0, u, h6))"
    unfolding swNic_init_def Let_def
    by (simp only: mem Option.bind.simps prod.case sums if_False cl(3) item_step tot tx rx u_def clbytes_def)
  have u: "rxPkthdrRing u = rxr" "txPkthdrRing u = txr" "rxMbufRing u = set_wrap (ms @ replicate (unat mbufcnt - length ms) 0)"
    "pkthdrs u = H" "mbufs u = M" "pktbuf u = pktbuf s" "currRx u = 0" "currTx u = 0" "txPktDone u = 0" "core_rx u = 0"
    "core_tx u = 0" "firstTime u = firstTime s"
    by (simp_all add: u_def)
  have "nic_typed (unat mbufcnt) (u\<lparr>rxMbufRing := set_wrap ms\<rparr>)" and own: "\<forall>w \<in> set (rx0 u) \<union> set (set_wrap ms). \<not> risc_owned w"
    "\<forall>w \<in> set (tx0 u). risc_owned w" and len: "length ms = unat mbufcnt"
  proof -
    let ?u = "u\<lparr>rxMbufRing := set_wrap ms\<rparr>"
    have al: "aligned ?p" "aligned ?m" using uncached_bounds(3) lo pb by simp_all
    have pbuf: "unat (pktbuf_alligned ?u) \<le> unat (pktbuf s) + 0x20000000"
      using pktbuf_alligned_bounds [of u] pb lo(5,6) by (simp add: u pktbuf_alligned_def)
    have apart: "blocks_apart (pktbuf_alligned ?u) (?cl + size_of_cluster * of_nat j + 2)" if "j < unat mbufcnt" for j
    proof -
      have "?cl + size_of_cluster * of_nat j + 2 = ?cl + of_nat (2048 * j + 2)" by (simp add: size_of_cluster_def)
      moreover have "unat (?cl + of_nat (2048 * j + 2)) = unat ?cl + (2048 * j + 2)"
        using that n(2) cl(2) lo(6) by (simp add: unat_word_ariths unat_of_nat del: of_nat_add of_nat_mult)
      ultimately have d: "unat (?cl + size_of_cluster * of_nat j + 2) = unat ?cl + (2048 * j + 2)" by (simp only:)
      have "unat (pktbuf_alligned ?u) + 2048 \<le> unat ?cl + (2048 * j + 2)" using cl(1) lo(5) pbuf by linarith
      moreover have "unat ?cl + (2048 * j + 2) + 2048 < 2 ^ 32" using that n(2) cl(2) lo(6) by simp
      ultimately show ?thesis by (intro below_apart; unfold d)
    qed
    have rx': "fill_rx_rings (mbufcnt # cs) (item ?p ?T) (item ?m ?T) ?cl H1 M1 = (rxr, ms, H, M)"
      and tx': "fill_tx_rings (t # ts) ?p ?m (pkthdrs s) (mbufs s) = (txr, H1, M1)"
      using rx tx rxcnt(1) txcnt(1) by simp_all
    have T: "?T = total_of (t # ts)" "?T \<le> 2 ^ 19" "unat mbufcnt \<le> 2 ^ 19" using txcnt(1) cnt(8) n(2) by simp_all
    have f: "rxPkthdrRing ?u = rxr" "txPkthdrRing ?u = txr" "rxMbufRing ?u = set_wrap ms" "pkthdrs ?u = H" "mbufs ?u = M"
      by (simp_all add: u)
    note linked = linked_typed [OF tx' rx' T(1,2) n(3,1) T(3) rxcnt(2) al f apart]
    show "nic_typed (unat mbufcnt) ?u" "length ms = unat mbufcnt" by (rule linked, assumption)+
    have "rx0 ?u = rx0 u" "tx0 ?u = tx0 u" by simp_all
    then show "\<forall>w \<in> set (rx0 u) \<union> set (set_wrap ms). \<not> risc_owned w" "\<forall>w \<in> set (tx0 u). risc_owned w"
      using linked(2,3) unfolding f(3) by metis+
  qed
  then have typed: "nic_typed (unat mbufcnt) u"
    by (subst nic_typed_eq [symmetric, of "u\<lparr>rxMbufRing := set_wrap ms\<rparr>"]) (simp_all add: u)
  have "rx_slots mac u 0 0 []"
    using typed own(1) len n(1)
    by (auto simp: nic_typed_def rx_slots_def owned_from_def mbufs_of_def u)
  moreover have tx0: "tx_slots u 0 0"
    using typed own(2) by (auto simp: nic_typed_def tx_slots_def owned_from_def u ring_ok_def)
  ultimately have "nic_sim mac (unat mbufcnt) u (False, [])"
    using typed cnt(9) u(7,12) by (auto simp: nic_sim_def intro!: rx_simI [where b = 0 and ws = "[]"])
  moreover have "length (tx0 u) = unat (hd txcnt)"
  proof -
    have "txr ! 0 = set_wrap (map (\<lambda>i. item ?p i OR DESC_RISC_OWNED) [0..<unat t])"
      using fill_tx_rings_first(1) [OF tx [unfolded txcnt(1)]] cnt(8) txcnt(1) by simp
    then show ?thesis using n(3) by (simp add: u txcnt(1) set_wrap_def)
  qed
  moreover have "wire u = wire s" by (simp add: u_def)
  ultimately show ?thesis using init len tx0 by auto
qed

section \<open>Properties\<close>

text \<open>A state the driver and the core reach after \<open>swNic_init\<close>, and what was observed on the way.\<close>

definition nic_reached :: "u8 list \<Rightarrow> nat \<Rightarrow> nic_obs list \<Rightarrow> nic_state \<Rightarrow> bool" where
  "nic_reached mac n obs s \<longleftrightarrow>
     (\<exists>rxcnt mbufcnt txcnt h s0 s1 h'. init_ok rxcnt mbufcnt txcnt h s0 \<and> n = unat mbufcnt
        \<and> swNic_init rxcnt mbufcnt txcnt h s0 = Some (0, s1, h') \<and> steps (nic_step mac) s1 obs s)"

lemma reached_sim:
  assumes "nic_reached mac n obs s"
  shows "\<exists>q. steps (queue_step mac n) (False, []) obs q \<and> nic_sim mac n s q"
proof -
  obtain rxcnt mbufcnt txcnt h s0 s1 h' where r: "init_ok rxcnt mbufcnt txcnt h s0" "n = unat mbufcnt"
    "swNic_init rxcnt mbufcnt txcnt h s0 = Some (0, s1, h')" "steps (nic_step mac) s1 obs s"
    using assms unfolding nic_reached_def by blast
  have "nic_sim mac n s1 (False, [])" using swNic_init_empty [OF r(1), of mac] r(2,3) by auto
  then show ?thesis using nic.sim_steps [OF r(4)] by blast
qed

lemma free_mbuf:
  assumes "mbufs_of r js" "length js < length r"
  shows "\<exists>j < length r. \<not> risc_owned (r ! j)"
proof (rule ccontr)
  assume "\<not> ?thesis"
  then have "{..<length r} \<subseteq> set js" using assms(1) by (auto simp: mbufs_of_def)
  then have "length r \<le> card (set js)" using card_mono [of "set js" "{..<length r}"] by simp
  then show False using assms(2) card_length [of js] by simp
qed

lemma room_progress:
  assumes "nic_sim mac n s (h, q)" "of_bool h + length q < n" "frame_ok f"
  shows "\<exists>t. nic_step mac s (Stored f) t"
proof -
  have "rx_sim mac n s (h, q)" using assms(1) by (simp add: nic_sim_def)
  then obtain b ws where s: "nic_typed n s" "firstTime s = (\<not> h)" "rx_slots mac s (of_bool h) b ws" "of_bool h \<le> length ws"
    "currRx s = (b + of_bool h) mod n" "q = map fst (drop (of_bool h) ws)"
    by (rule rx_simE)
  have ws: "length ws < n" using s(4,6) assms(2) by simp
  then have "\<not> risc_owned (rx0 s ! core_rx s)" using core_owns_iff [OF s(3)] s(1) by (simp add: nic_typed_def)
  moreover obtain j where "j < length (rxMbufRing s)" "\<not> risc_owned (rxMbufRing s ! j)"
    using free_mbuf [of "rxMbufRing s" "map snd ws"] s(1,3) ws by (auto simp: nic_typed_def rx_slots_def)
  ultimately show ?thesis using nic_step.store [OF _ _ _ assms(3)] by blast
qed

lemma held_steps:
  assumes "steps (nic_step mac) s obs t" "\<forall>r. Polled r \<notin> set obs"
    and "nic_typed n s" "rx_slots mac s 1 b (w # ws)" "tx_slots s k m" "snd w < n"
  shows "\<exists>ws'. rx_slots mac t 1 b (w # ws') \<and> nic_typed n t \<and> cluster t (snd w) = cluster s (snd w)"
  using assms
proof (induction arbitrary: ws k m rule: steps.induct)
  case (steps_cons s ob t obs u)
  obtain new where new: "same_shape s t" "rx_slots mac t 1 b ((w # ws) @ new)" "\<exists>k m. tx_slots t k m"
    using nonpoll_step [OF steps_cons.hyps(1) _ steps_cons.prems(2,3) _ steps_cons.prems(4)] steps_cons.prems(1) by auto
  have "nic_typed n t" by (rule same_shape_typed [OF steps_cons.prems(2) new(1)])
  moreover have "cluster t (snd w) = cluster s (snd w)"
    using new(1) steps_cons.prems(2,5) by (simp add: same_shape_def nic_typed_def)
  ultimately show ?case using steps_cons.IH [of "ws @ new"] new(2,3) steps_cons.prems(1,5) by auto
qed auto

text \<open>C36: Starting from a heap that is one big enough free block, \<open>swNic_init\<close> returns 0 and sets up
  well-typed data: both rings end with WRAP, every descriptor points to a header of its own, the
  mbufs follow each other, the buffers overlap neither each other nor the transmit buffer, and the
  core owns all of the receive ring and none of the transmit ring.\<close>

theorem swNic_init_typed:
  assumes "init_ok rxcnt mbufcnt txcnt h s"
  shows "\<exists>t h'. swNic_init rxcnt mbufcnt txcnt h s = Some (0, t, h') \<and> nic_typed (unat mbufcnt) t
    \<and> (\<forall>i < unat mbufcnt. \<not> risc_owned (rx0 t ! i) \<and> \<not> risc_owned (rxMbufRing t ! i))
    \<and> (\<forall>i < length (tx0 t). risc_owned (tx0 t ! i))"
proof -
  obtain t h' where t: "swNic_init rxcnt mbufcnt txcnt h s = Some (0, t, h')" "nic_sim [] (unat mbufcnt) t (False, [])" "tx_slots t 0 0"
    using swNic_init_empty [OF assms, of "[]"] by blast
  have "rx_sim [] (unat mbufcnt) t (False, [])" using t(2) by (simp add: nic_sim_def)
  then obtain b where typed: "nic_typed (unat mbufcnt) t" and rx: "rx_slots [] t 0 b []"
    by (rule rx_simE) simp
  have "\<not> risc_owned (rx0 t ! i)" if "i < length (rx0 t)" for i
    using ring_pos_ex [OF that, of b] rx by (auto simp: rx_slots_def owned_from_def)
  moreover have "risc_owned (tx0 t ! i)" if "i < length (tx0 t)" for i
    using ring_pos_ex [OF that, of "txPktDone t"] t(3) by (auto simp: tx_slots_def owned_from_def)
  ultimately show ?thesis using t(1) typed rx by (auto simp: nic_typed_def rx_slots_def mbufs_of_def)
qed

text \<open>C6: Refinement. However the polls, the arrivals and the sends are interleaved, and whichever mbuf
  the core picks, the receiver behaves as a bounded queue of frames, one place of which is taken by the
  frame handed out last: a poll hands out the oldest pending frame if it is for the board, drops
  it if not, and reports nothing if there is none; the core misses a frame only if the queue is
  full, and as long as it is not full it can store the next one.\<close>

theorem nic_refines_queue:
  assumes "nic_reached mac n obs s"
  shows "\<exists>h q. steps (queue_step mac n) (False, []) obs (h, q)
    \<and> (of_bool h + length q < n \<longrightarrow> frame_ok f \<longrightarrow> (\<exists>t. nic_step mac s (Stored f) t))"
proof -
  obtain h q where "steps (queue_step mac n) (False, []) obs (h, q)" "nic_sim mac n s (h, q)"
    using reached_sim [OF assms] by auto
  then show ?thesis using room_progress by blast
qed

text \<open>C37: The bytes behind the pointer and length that \<open>swNic_receive\<close> returns stay the same until its
  next call, whatever is received or sent in the meantime.\<close>

theorem nic_held_frame_stays:
  assumes "nic_reached mac n obs s" "swNic_receive mac s = (Some (p, len), t)"
    and "steps (nic_step mac) t obs' u" "\<forall>r. Polled r \<notin> set obs'"
  shows "read_bytes (nmem u) p (unat len) = read_bytes (nmem t) p (unat len)"
proof -
  obtain h q where sim: "rx_sim mac n s (h, q)" "\<exists>k m. tx_slots s k m"
    using reached_sim [OF assms(1)] by (auto simp: nic_sim_def)
  obtain f q' where q: "q = f # q'" using receive_empty [of mac n s h] sim(1) assms(2) by (cases q) auto
  have t: "t = snd (swNic_receive mac s)" by (simp add: assms(2))
  note frame = receive_frame [OF sim(1) [unfolded q], folded t]
  obtain b j ws where e: "fst (swNic_receive mac s) = (if accepts mac f then Some (cluster s j, of_nat (length f - 4)) else None)"
    "cluster t j = cluster s j" and r: "rx_slots mac t 1 b ((f, j) # ws)"
    using frame(3) by blast
  then have acc: "accepts mac f" "p = cluster t j" "len = of_nat (length f - 4)"
    using assms(2) by (auto split: if_splits)
  have typed: "nic_typed n t" using frame(2) by (simp add: rx_sim_def)
  have j: "j < n" using r typed by (auto simp: rx_slots_def mbufs_of_def nic_typed_def)
  obtain k m where tx: "tx_slots t k m" using sim(2) tx_slots_eq [of t s] by (auto simp: t receive_tx_fields)
  obtain ws' where u: "rx_slots mac u 1 b ((f, j) # ws')" "cluster u j = cluster t j"
    using held_steps [OF assms(3,4) typed r tx] j by auto
  have held: "frame_ok f \<and> read_bytes (nmem v) (cluster v j) (length f - 4) = delivered f"
    if "rx_slots mac v 1 b ((f, j) # vs)" for v vs
    using that acc(1) by (force simp: rx_slots_def slot_ok_def)
  have "length f - 4 < 2 ^ 32" using held [OF r] by (auto simp: frame_ok_def)
  then have "unat len = length f - 4" unfolding acc(3) by (subst unat_of_nat) simp
  then show ?thesis using held [OF r] held [OF u(1)] u(2) by (simp add: acc(2))
qed

text \<open>C38: In every reachable state both calls of the sender return: the assertion of \<open>swNic_send\<close> holds,
  it reports a full ring exactly if all descriptors but one wait to be sent or collected, and the loop
  of \<open>swNic_txDone\<close> ends behind the last frame the core has sent.\<close>

theorem nic_sender_returns:
  assumes "nic_reached mac n obs s"
  shows "(\<exists>r t. swNic_send f s = Some (r, t)
        \<and> (r = -1) = (Suc (currTx s) mod length (tx0 s) = txPktDone s) \<and> (r \<noteq> -1 \<longrightarrow> r = 0))
    \<and> swNic_txDone s = Some (s\<lparr>txPktDone := core_tx s\<rparr>)"
proof -
  obtain k m where tx: "tx_slots s k m" using reached_sim [OF assms] by (auto simp: nic_sim_def)
  have "currTx s < length (tx0 s)" using tx tx_slots_ne [OF tx] by (simp add: tx_slots_def)
  then show ?thesis
    using swNic_send_slots [OF tx, of f] tx_slots_full [OF tx] swNic_txDone_slots [OF tx]
    by (auto simp: ring_next_mod)
qed

text \<open>What the core puts on the wire, and the mbuf a send has filled in.\<close>

definition tx_mbuf :: "nic_state \<Rightarrow> nat \<Rightarrow> mBuf" where
  "tx_mbuf s i = mbufs s (ph_mbuf (pkthdrs s (desc_addr (tx0 s ! i))))"

definition on_wire :: "nic_state \<Rightarrow> nat \<Rightarrow> u8 list" where
  "on_wire s i = read_bytes (nmem s) (m_data (tx_mbuf s i)) (unat (m_len (tx_mbuf s i)) - 4)"

lemma fetch_wire: "wire (core_fetch s) = wire s @ [on_wire s (core_tx s)]"
  by (simp add: core_fetch_def set_tx0_def Let_def on_wire_def tx_mbuf_def)

lemma fetch_on_wire: "i < length (tx0 s) \<Longrightarrow> txPkthdrRing s \<noteq> [] \<Longrightarrow> on_wire (core_fetch s) i = on_wire s i"
  using same_ring_nth [OF same_ring_update(2), of i "tx0 s" "core_tx s"]
  by (simp add: core_fetch_def set_tx0_def Let_def on_wire_def tx_mbuf_def)

lemma unat_tx_len: "length f \<le> 2048 \<Longrightarrow> unat (tx_len f) - 4 = max (length f) 60"
  by (auto simp: tx_len_def word_less_nat_alt unat_of_nat unsigned_ucast_eq unat_word_ariths take_bit_nat_eq_self)

lemma sent_on_wire:
  assumes typed: "nic_typed n s" and tx: "tx_slots s k m" and i: "i < length (tx0 s)" "length f \<le> 2048"
  shows "on_wire (sent_state f s) i =
      read_bytes (write_bytes (pktbuf_alligned s) f (nmem s)) (if i = currTx s then pktbuf_alligned s else m_data (tx_mbuf s i))
        (if i = currTx s then max (length f) 60 else unat (m_len (tx_mbuf s i)) - 4)"
    and "i = currTx s \<Longrightarrow> m_data (tx_mbuf (sent_state f s) i) = pktbuf_alligned s"
    and "i = currTx s \<Longrightarrow> m_len (tx_mbuf (sent_state f s) i) = tx_len f"
proof -
  let ?t = "sent_state f s" and ?a = "\<lambda>i. desc_addr (tx0 s ! i)"
  have c: "currTx s < length (tx0 s)" using tx tx_slots_ne [OF tx] by (simp add: tx_slots_def)
  have tx0: "desc_addr (tx0 ?t ! i) = ?a i"
    using sent_shape(2) [OF typed c, of f] same_ring_nth [OF same_ring_update(1) i(1), of "currTx s"] by simp
  have ph: "ph_mbuf (pkthdrs ?t a) = ph_mbuf (pkthdrs s a)" for a by (simp add: sent_state_def Let_def)
  have "ph_mbuf (pkthdrs s (?a i)) \<noteq> ph_mbuf (pkthdrs s (?a (currTx s)))" if "i \<noteq> currTx s"
  proof -
    have "distinct (map desc_addr (tx0 s))" using typed by (simp add: nic_typed_def ring_ok_def)
    then have "?a i \<noteq> ?a (currTx s)" using nth_eq_iff_index_eq [of "map desc_addr (tx0 s)" i "currTx s"] that i(1) c by simp
    moreover have "?a i \<in> addrs (tx0 s)" "?a (currTx s) \<in> addrs (tx0 s)" using i(1) c by (simp_all add: addrs_def)
    moreover have "inj_on (\<lambda>a. ph_mbuf (pkthdrs s a)) (addrs (tx0 s))" using typed by (simp add: nic_typed_def)
    ultimately show ?thesis by (auto simp: inj_on_def)
  qed
  then have mb: "tx_mbuf ?t i = (if i = currTx s then (tx_mbuf s i)\<lparr>m_len := tx_len f, m_extsize := tx_len f,
      m_data := pktbuf_alligned s, m_extbuf := pktbuf_alligned s\<rparr> else tx_mbuf s i)"
    unfolding tx_mbuf_def tx0 ph by (auto simp: sent_state_def Let_def)
  then show "i = currTx s \<Longrightarrow> m_data (tx_mbuf ?t i) = pktbuf_alligned s" "i = currTx s \<Longrightarrow> m_len (tx_mbuf ?t i) = tx_len f"
    by simp_all
  have "nmem ?t = write_bytes (pktbuf_alligned s) f (nmem s)" by (simp add: sent_state_def Let_def)
  then show "on_wire ?t i = read_bytes (write_bytes (pktbuf_alligned s) f (nmem s))
      (if i = currTx s then pktbuf_alligned s else m_data (tx_mbuf s i))
        (if i = currTx s then max (length f) 60 else unat (m_len (tx_mbuf s i)) - 4)"
    using unat_tx_len [OF i(2)] by (simp add: on_wire_def mb)
qed

text \<open>The sender with nothing to send or to collect.\<close>

definition tx_idle :: "nic_state \<Rightarrow> bool" where
  "tx_idle s \<longleftrightarrow> currTx s = txPktDone s"

lemma tx_idle_slots: "tx_slots s k m \<Longrightarrow> tx_idle s \<Longrightarrow> k = 0 \<and> m = 0"
  using ring_pos_inj [of 0 "length (tx0 s)" "k + m" "txPktDone s"] tx_slots_ne [of s k m]
  by (auto simp: tx_slots_def tx_idle_def)

lemma reached_idle:
  assumes "nic_reached mac n obs s" "tx_idle s"
  shows "nic_typed n s" "tx_slots s 0 0" "core_tx s = currTx s" "2 \<le> length (tx0 s)"
proof -
  obtain h q k m where "rx_sim mac n s (h, q)" and tx: "tx_slots s k m"
    using reached_sim [OF assms(1)] by (auto simp: nic_sim_def)
  then show typed: "nic_typed n s" by (simp add: rx_sim_def)
  show slots: "tx_slots s 0 0" using tx tx_idle_slots [OF tx assms(2)] by simp
  then show "core_tx s = currTx s" by (simp add: tx_slots_def)
  show "2 \<le> length (tx0 s)" using typed by (simp add: nic_typed_def ring_ok_def)
qed

text \<open>C39: A frame that is sent while the transmitter is idle, and fetched before the next one, goes out as it
  is, padded to 60 bytes with whatever the transmit buffer held behind it.\<close>

theorem nic_send_transmits:
  assumes "nic_reached mac n obs s" "tx_idle s" "length f \<le> 2044"
  shows "\<exists>t. swNic_send f s = Some (0, t)
    \<and> wire (core_fetch t) = wire s @ [f @ read_bytes (nmem s) (pktbuf_alligned s + of_nat (length f)) (60 - length f)]"
proof -
  note s = reached_idle [OF assms(1,2)]
  have send: "swNic_send f s = Some (0, sent_state f s)" using swNic_send_slots [OF s(2), of f] s(4) by simp
  have c: "currTx s < length (tx0 s)" using s(2) tx_slots_ne [OF s(2)] by (simp add: tx_slots_def)
  let ?m = "write_bytes (pktbuf_alligned s) f (nmem s)"
  have "read_bytes ?m (pktbuf_alligned s) (length f + (60 - length f))
      = f @ read_bytes (nmem s) (pktbuf_alligned s + of_nat (length f)) (60 - length f)"
  proof -
    have "read_bytes ?m (pktbuf_alligned s + of_nat (length f)) (60 - length f)
        = read_bytes (nmem s) (pktbuf_alligned s + of_nat (length f)) (60 - length f)"
      by (rule read_bytes_cong, rule write_bytes_outside)
         (use assms(3) in \<open>simp add: add.assoc in_block_after flip: of_nat_add\<close>)
    then show ?thesis using assms(3) by (simp add: read_bytes_append)
  qed
  moreover have "core_tx (sent_state f s) = currTx s" "wire (sent_state f s) = wire s"
    using s(3) by (simp_all add: sent_state_def Let_def)
  moreover have "length f + (60 - length f) = max (length f) 60" by simp
  ultimately show ?thesis
    using send sent_on_wire(1) [OF s(1,2) c, of f] assms(3) by (simp add: fetch_wire)
qed

text \<open>C40: All frames share one transmit buffer, and \<open>swNic_send\<close> does not wait: of two frames that are sent
  before the core fetches the first, the first goes out with the bytes of the second.\<close>

theorem nic_send_overwrites:
  assumes "nic_reached mac n obs s" "tx_idle s" "3 \<le> length (tx0 s)"
    and "60 \<le> length f" "length f \<le> length g" "length g \<le> 2044"
  shows "\<exists>s1 s2. swNic_send f s = Some (0, s1) \<and> swNic_send g s1 = Some (0, s2)
    \<and> wire (core_fetch (core_fetch s2)) = wire s @ [take (length f) g, g]"
proof -
  note s = reached_idle [OF assms(1,2)]
  let ?s1 = "sent_state f s" let ?s2 = "sent_state g ?s1" let ?b = "pktbuf_alligned s"
  have c: "currTx s < length (tx0 s)" using s(2) tx_slots_ne [OF s(2)] by (simp add: tx_slots_def)
  note shape1 = sent_shape [OF s(1) c, of f]
  have typed1: "nic_typed n ?s1" by (rule same_shape_typed [OF s(1) shape1(1)])
  have tx1: "tx_slots ?s1 0 1" using sent_slots [OF s(1,2), of f] s(4) by simp
  have len1: "length (tx0 ?s1) = length (tx0 s)" using shape1(2) by simp
  have c1: "currTx ?s1 = ring_next (length (tx0 s)) (currTx s)" "currTx ?s1 < length (tx0 ?s1)"
    using tx1 tx_slots_ne [OF tx1] by (simp_all add: sent_state_def Let_def tx_slots_def)
  have ne: "currTx s \<noteq> currTx ?s1" unfolding c1(1) using s(4) c by (auto simp: ring_next_def)
  have send: "swNic_send f s = Some (0, ?s1)" "swNic_send g ?s1 = Some (0, ?s2)"
    using swNic_send_slots [OF s(2), of f] swNic_send_slots [OF tx1, of g] assms(3) len1 by simp_all
  have b1: "pktbuf_alligned ?s1 = ?b" by (simp add: pktbuf_alligned_def sent_state_def Let_def)
  let ?m = "write_bytes ?b g (nmem ?s1)"
  have all: "read_bytes ?m ?b (length g) = g" using assms(6) by simp
  have "on_wire ?s2 (currTx s) = read_bytes ?m ?b (length f)"
    using sent_on_wire(1) [OF typed1 tx1, of "currTx s" g] sent_on_wire(2,3) [OF s(1,2) c, of f] c len1 ne assms(4-6)
      unat_tx_len [of f] by (simp add: b1)
  then have w0: "on_wire ?s2 (currTx s) = take (length f) g"
    using all take_read_bytes [OF assms(5), of ?m ?b] by simp
  have w1: "on_wire ?s2 (currTx ?s1) = g"
    using sent_on_wire(1) [OF typed1 tx1 c1(2), of g] assms(4-6) all by (simp add: b1)
  have typed2: "nic_typed n ?s2"
    by (rule same_shape_typed [OF typed1 sent_shape(1) [OF typed1 c1(2)]])
  have len2: "length (tx0 ?s2) = length (tx0 s)" using sent_shape(2) [OF typed1 c1(2), of g] len1 by simp
  have core: "core_tx ?s2 = currTx s" "wire ?s2 = wire s" using s(3) by (simp_all add: sent_state_def Let_def)
  have "core_tx (core_fetch ?s2) = core_next (tx0 ?s2) (currTx s)"
    by (simp add: core_fetch_def set_tx0_def Let_def core(1))
  also have "\<dots> = currTx ?s1"
    using core_next_ring [of "tx0 ?s2" "currTx s"] typed2 c len2 by (simp add: nic_typed_def c1(1))
  finally have core1: "core_tx (core_fetch ?s2) = currTx ?s1" .
  have "on_wire (core_fetch ?s2) (currTx ?s1) = g"
    using fetch_on_wire [of "currTx ?s1" ?s2] w1 c1(2) len1 len2 typed2 by (simp add: nic_typed_def)
  then have "wire (core_fetch (core_fetch ?s2)) = wire s @ [take (length f) g, g]"
    using core core1 w0 by (simp add: fetch_wire)
  then show ?thesis using send by blast
qed

section \<open>Witnesses\<close>

definition sample_nic :: nic_state where
  "sample_nic = \<lparr>rxPkthdrRing = [], txPkthdrRing = [], rxMbufRing = [], pkthdrs = (\<lambda>_. new_hdr 0 0),
     mbufs = (\<lambda>_. new_mbuf 0 0 0), nmem = (\<lambda>_. 0), currRx = 0, currRxMbuf = 0, currTx = 0, txPktDone = 0, firstTime = True,
     rxPktCounter = 0, txPktCounter = 0, pktbuf = 0x80400000, CPUIISR = 0, CPUIIMR = 0, CPUICR = 0, CPURPDCR = [],
     CPUTPDCR = [], CPURMDCR0 = 0, core_rx = 0, core_tx = 0, wire = []\<rparr>"

definition sample_nic_heap :: heap_state where
  "sample_nic_heap = i_alloc 0x80500000 0x80600000 \<lparr>frhd = 0, memleft = 0, hdr = \<lambda>_. \<lparr>hdr_ptr = 0, hdr_size = 0\<rparr>\<rparr>"

definition broadcast :: "u8 list" where "broadcast = replicate 64 0xFF"

lemma broadcast_ok: "frame_ok broadcast" "accepts mac broadcast" "delivered broadcast = replicate 60 0xFF"
proof -
  show "frame_ok broadcast" by (simp add: frame_ok_def broadcast_def)
  show "accepts mac broadcast" by (simp add: accepts_def broadcast_def)
  have "le16 (broadcast ! 12) (broadcast ! 13) = 0xFFFF" by (simp add: broadcast_def le16_def push_bit_eq_mult)
  then show "delivered broadcast = replicate 60 0xFF" by (simp add: delivered_def broadcast_def)
qed

lemma sample_init_ok: "init_ok [4, 0, 0, 0, 0, 0] 4 [4, 2, 2, 2] sample_nic_heap sample_nic"
proof -
  have "one_block 0x80500000 0x20000 sample_nic_heap"
    using i_alloc_list(1) [of "0x80500000" "0x80600000"] by (simp add: one_block_def sample_nic_heap_def del: flist.simps)
  moreover have "init_units [4, 0, 0, 0, 0, 0] 4 [4, 2, 2, 2] < 0x20000"
    by (simp add: init_units_def ring_units_def units_def nunits_of_def SIZEOF_HEADER_def SIZEOF_PKTHDR_def SIZEOF_MBUF_def
        size_of_cluster_def)
  moreover have "0x80000000 \<le> unat (pktbuf sample_nic)" "unat (pktbuf sample_nic) + 2048 \<le> 0x80500000" "firstTime sample_nic"
    by (simp_all add: sample_nic_def)
  ultimately show ?thesis unfolding init_ok_def by (intro conjI) (blast | simp)+
qed

lemma sample_reached:
  "\<exists>s. nic_reached mac 4 [] s \<and> nic_sim mac 4 s (False, []) \<and> tx_idle s \<and> length (tx0 s) = 4 \<and> wire s = []"
proof -
  obtain s h' where s: "swNic_init [4, 0, 0, 0, 0, 0] 4 [4, 2, 2, 2] sample_nic_heap sample_nic = Some (0, s, h')"
    "nic_sim mac 4 s (False, [])" "tx_slots s 0 0" "length (tx0 s) = 4" "wire s = wire sample_nic"
    using swNic_init_empty [OF sample_init_ok, of mac] by auto
  have "nic_reached mac 4 [] s"
    unfolding nic_reached_def by (intro exI conjI, rule sample_init_ok, simp, rule s(1), rule steps_nil)
  moreover have "tx_idle s" using s(3) by (simp add: tx_idle_def tx_slots_def)
  moreover have "wire s = []" using s(5) by (simp add: sample_nic_def)
  ultimately show ?thesis using s(2,4) by blast
qed

lemma reached_step: "nic_reached mac n obs s \<Longrightarrow> nic_step mac s ob t \<Longrightarrow> nic_reached mac n (obs @ [ob]) t"
  unfolding nic_reached_def using steps_append [of "nic_step mac"] by fastforce

lemma sample_stored:
  "\<exists>s. nic_reached mac 4 [Stored broadcast] s \<and> nic_sim mac 4 s (False, [broadcast])"
proof -
  obtain s where s: "nic_reached mac 4 [] s" "nic_sim mac 4 s (False, [])" using sample_reached by blast
  then obtain t where t: "nic_step mac s (Stored broadcast) t"
    using room_progress [of mac 4 s False "[]" broadcast] broadcast_ok(1) by auto
  then have "nic_sim mac 4 t (False, [broadcast])" using nic_sim_step [OF s(2) t] by auto
  then show ?thesis using reached_step [OF s(1) t] by auto
qed

lemma swNic_init_typed_witness:
  "\<exists>t h'. swNic_init [4, 0, 0, 0, 0, 0] 4 [4, 2, 2, 2] sample_nic_heap sample_nic = Some (0, t, h') \<and> nic_typed 4 t"
  using swNic_init_typed [OF sample_init_ok] by auto

lemma nic_refines_queue_witness:
  "\<exists>s h q. nic_reached [] 4 [Stored broadcast, Polled (Some (replicate 60 0xFF))] s
     \<and> steps (queue_step [] 4) (False, []) [Stored broadcast, Polled (Some (replicate 60 0xFF))] (h, q)"
proof -
  obtain s where s: "nic_reached [] 4 [Stored broadcast] s" "nic_sim [] 4 s (False, [broadcast])" using sample_stored by blast
  have "rx_sim [] 4 s (False, [broadcast])" using s(2) by (simp add: nic_sim_def)
  then have "polled (swNic_receive [] s) = Some (replicate 60 0xFF)"
    using receive_frame(1) [of "[]" 4 s False broadcast "[]"] broadcast_ok by simp
  then have "nic_reached [] 4 [Stored broadcast, Polled (Some (replicate 60 0xFF))] (snd (swNic_receive [] s))"
    using reached_step [OF s(1) nic_step.poll] by simp
  then show ?thesis using nic_refines_queue by blast
qed

lemma nic_held_frame_stays_witness:
  "\<exists>s p t u. nic_reached [] 4 [Stored broadcast] s \<and> swNic_receive [] s = (Some (p, 60), t)
     \<and> steps (nic_step []) t [Stored broadcast] u \<and> read_bytes (nmem u) p 60 = read_bytes (nmem t) p 60"
proof -
  obtain s where s: "nic_reached [] 4 [Stored broadcast] s" "nic_sim [] 4 s (False, [broadcast])" using sample_stored by blast
  have rx: "rx_sim [] 4 s (False, [broadcast])" using s(2) by (simp add: nic_sim_def)
  obtain p where "fst (swNic_receive [] s) = Some (p, 60)"
    using receive_frame(3) [OF rx] broadcast_ok(2) by (auto simp: broadcast_def)
  then obtain t where t: "swNic_receive [] s = (Some (p, 60), t)" by (metis prod.collapse)
  obtain b where "queue_step [] 4 (False, [broadcast]) (Polled (polled (swNic_receive [] s))) b" "nic_sim [] 4 t b"
    using nic_sim_step [OF s(2) nic_step.poll] t by auto
  then have "nic_sim [] 4 t (True, [])" by simp
  then obtain u where u: "nic_step [] t (Stored broadcast) u"
    using room_progress [of "[]" 4 t True "[]" broadcast] broadcast_ok(1) by auto
  then show ?thesis
    using nic_held_frame_stays [OF s(1) t, of "[Stored broadcast]" u] s(1) t by auto
qed

lemma nic_sender_returns_witness:
  "\<exists>s. nic_reached [] 4 [] s \<and> swNic_txDone s = Some (s\<lparr>txPktDone := core_tx s\<rparr>)"
  using sample_reached [of "[]"] nic_sender_returns by blast

lemma nic_send_transmits_witness:
  "\<exists>s t. swNic_send (replicate 42 7) s = Some (0, t)
     \<and> wire (core_fetch t) = [replicate 42 7 @ read_bytes (nmem s) (pktbuf_alligned s + 42) 18]"
proof -
  obtain s where "nic_reached [] 4 [] s" "tx_idle s" "wire s = []" using sample_reached [of "[]"] by blast
  then show ?thesis using nic_send_transmits [of "[]" 4 "[]" s "replicate 42 7"] by (auto simp del: read_bytes_Suc_numeral)
qed

lemma nic_send_overwrites_witness:
  "\<exists>s s1 s2. swNic_send (replicate 60 1) s = Some (0, s1) \<and> swNic_send (replicate 60 2) s1 = Some (0, s2)
     \<and> wire (core_fetch (core_fetch s2)) = [replicate 60 2, replicate 60 2]"
proof -
  obtain s where s: "nic_reached [] 4 [] s" "tx_idle s" "wire s = []" "length (tx0 s) = 4" using sample_reached [of "[]"] by blast
  have "take 60 (replicate 60 (2::u8)) = replicate 60 2" by simp
  then show ?thesis
    using nic_send_overwrites [OF s(1,2), of "replicate 60 1" "replicate 60 2"] s(3,4) by auto
qed

end
