(* ===== verification/Ethint.thy ===== *)
theory Ethint
  imports Nicinit Netinv
begin

text \<open>
  The interrupt handler of the Ethernet interface, \<open>eth_interrupt\<close> of
  \<^verbatim>\<open>boot/init/ethInt_865x.c\<close>: it polls the driver and gives each frame to \<open>kick_tftpd\<close>; what the
  servers send goes through \<open>swNic_send\<close>. The theory composes the driver (\<open>Swnic\<close>) with
  the servers (\<open>Netboot\<close>). Interrupts are off in the handler, so \<open>jiffies\<close> stands still.
\<close>

text \<open>The frames that \<open>prepare_txpkt\<close> hands to the driver; its result is not looked at.\<close>

primrec send_all :: "u8 list list \<Rightarrow> nic_state \<Rightarrow> nic_state option" where
  "send_all [] s = Some s"
| "send_all (f # fs) s = (case swNic_send f s of None \<Rightarrow> None | Some (_, s) \<Rightarrow> send_all fs s)"

text \<open>A frame at a pointer into the memory of the driver, as the handlers see it.\<close>

definition frame_at :: "nic_state \<Rightarrow> u32 \<Rightarrow> buffer" where
  "frame_at nic p = (\<lambda>k. nmem nic (p + of_nat k))"

text \<open>The loop; after a jump to an image or a reset (\<open>run\<close>) the handler does not go on.\<close>

partial_function (option) eth_loop ::
    "u8 list \<Rightarrow> nic_state \<Rightarrow> 'a http_state_scheme \<Rightarrow> (nic_state \<times> 'a http_state_scheme) option" where
  "eth_loop mac nic net =
     (case swNic_receive mac nic of
        (None, nic) \<Rightarrow> Some (nic, net)
      | (Some (p, n), nic) \<Rightarrow>
          (case swNic_txDone nic of
             None \<Rightarrow> None
           | Some nic \<Rightarrow>
               (case kick_tftpd (net\<lparr>packet := frame_at nic p, packetlen := unat n\<rparr>) of
                  None \<Rightarrow> None
                | Some net' \<Rightarrow>
                    (case send_all (drop (length (txlog net)) (txlog net')) nic of
                       None \<Rightarrow> None
                     | Some nic \<Rightarrow>
                         (if run net' \<noteq> Running then Some (nic, net')
                          else eth_loop mac nic (net'\<lparr>packetlen := 0\<rparr>))))))"

definition eth_interrupt ::
    "u8 list \<Rightarrow> nic_state \<Rightarrow> 'a http_state_scheme \<Rightarrow> (nic_state \<times> 'a http_state_scheme) option" where
  "eth_interrupt mac nic net =
     (case eth_loop mac (nic\<lparr>CPUIISR := 0\<rparr>) (net\<lparr>packetlen := 0\<rparr>) of
        None \<Rightarrow> None
      | Some (nic, net) \<Rightarrow>
          (if run net \<noteq> Running then Some (nic, net)
           else (case swNic_txDone nic of None \<Rightarrow> None | Some nic \<Rightarrow> Some (nic, net))))"

section \<open>The driver under the handler\<close>

lemma send_all_sim:
  assumes "nic_sim mac n s a" "\<forall>f \<in> set fs. length f \<le> 2048"
  shows "\<exists>t. send_all fs s = Some t \<and> nic_sim mac n t a"
  using assms
proof (induction fs arbitrary: s)
  case (Cons f fs)
  obtain k m where tx: "tx_slots s k m" using Cons.prems(1) by (auto simp: nic_sim_def)
  obtain r t where t: "swNic_send f s = Some (r, t)" using swNic_send_slots [OF tx, of f] by (metis surj_pair)
  have "nic_step mac s (Sent f r) t" using Cons.prems(2) t by (intro nic_step.send) auto
  from nic_sim_step [OF Cons.prems(1) this] have "nic_sim mac n t a" by (auto elim: queue_step.cases)
  then show ?case using Cons.IH [of t] Cons.prems(2) t by auto
qed simp

lemma txDone_sim:
  assumes "nic_sim mac n s a"
  shows "\<exists>t. swNic_txDone s = Some t \<and> nic_sim mac n t a \<and> nmem t = nmem s"
proof -
  obtain k m where tx: "tx_slots s k m" using assms by (auto simp: nic_sim_def)
  have t: "swNic_txDone s = Some (s\<lparr>txPktDone := core_tx s\<rparr>)" using swNic_txDone_slots [OF tx] by simp
  from nic_sim_step [OF assms nic_step.collect [OF t]]
  have "nic_sim mac n (s\<lparr>txPktDone := core_tx s\<rparr>) a" by (auto elim: queue_step.cases)
  then show ?thesis using t by simp
qed

lemma get_bytes_frame_at: "get_bytes (frame_at nic p) 0 n = read_bytes (nmem nic) p n"
  by (rule nth_equalityI) (simp_all add: frame_at_def read_bytes_nth)

lemma receive_sim:
  assumes "nic_sim mac n s (h, f # q)"
  shows "nic_sim mac n (snd (swNic_receive mac s)) (True, q)"
    and "\<not> accepts mac f \<Longrightarrow> fst (swNic_receive mac s) = None"
    and "accepts mac f \<Longrightarrow> \<exists>p. fst (swNic_receive mac s) = Some (p, of_nat (length f - 4))
      \<and> get_bytes (frame_at (snd (swNic_receive mac s)) p) 0 (length f - 4) = delivered f"
proof -
  have rx: "rx_sim mac n s (h, f # q)" using assms by (simp add: nic_sim_def)
  note r = receive_frame [OF rx]
  let ?t = "snd (swNic_receive mac s)"
  show "nic_sim mac n ?t (True, q)"
    using nic_sim_step [OF assms nic_step.poll] by auto
  obtain b j ws where e: "fst (swNic_receive mac s) = (if accepts mac f then Some (cluster s j, of_nat (length f - 4)) else None)"
    and slots: "rx_slots mac ?t 1 b ((f, j) # ws)"
    using r(3) by blast
  show "\<not> accepts mac f \<Longrightarrow> fst (swNic_receive mac s) = None" by (simp add: e)
  have "frame_ok f" using slots by (force simp: rx_slots_def slot_ok_def)
  then have len: "unat (of_nat (length f - 4) :: u32) = length f - 4"
    by (subst unat_of_nat) (auto simp: frame_ok_def intro!: mod_less)
  show "\<exists>p. fst (swNic_receive mac s) = Some (p, of_nat (length f - 4))
      \<and> get_bytes (frame_at ?t p) 0 (length f - 4) = delivered f" if "accepts mac f"
    using r(1) that len by (simp add: e polled_def get_bytes_frame_at)
qed

section \<open>What one interrupt does\<close>

text \<open>The frames that make up the log fit the transmit buffer, at every point of the run.\<close>

definition sends_ok :: "'a http_state_scheme option \<Rightarrow> bool" where
  "sends_ok r \<longleftrightarrow> (case r of None \<Rightarrow> True | Some t \<Rightarrow> \<forall>f \<in> set (txlog t). length f \<le> 2048)"

primrec sends_fit :: "'a http_state_scheme option \<Rightarrow> frame list \<Rightarrow> bool" where
  "sends_fit r [] = sends_ok r"
| "sends_fit r (e # es) = (sends_ok r \<and> sends_fit (net_step r e) es)"

text \<open>The event that stands for a frame taken out of the ring.\<close>

definition frame_event :: "frame \<Rightarrow> u8 list \<Rightarrow> bool" where
  "frame_event e f = (case e of (p, k, t) \<Rightarrow> k = length f - 4 \<and> get_bytes p 0 k = delivered f)"

lemma sends_fit_ok: "sends_fit r es \<Longrightarrow> sends_ok r"
  by (cases es) simp_all

lemma run_events_stopped: "run s \<noteq> Running \<Longrightarrow> run_events net_step (Some s) es = Some s"
  by (induction es) (simp_all add: net_step_def)

lemma net_step_packetlen: "run s = Running \<Longrightarrow> net_step (Some (s\<lparr>packetlen := k\<rparr>)) e = net_step (Some s) e"
  by (simp add: net_step_def split: prod.split)

lemma sends_fit_packetlen:
  "run s = Running \<Longrightarrow> sends_fit (Some (s\<lparr>packetlen := k\<rparr>)) es = sends_fit (Some s) es"
  by (cases es) (simp_all add: net_step_packetlen sends_ok_def)

lemma run_events_packetlen:
  "run s = Running \<Longrightarrow> map_option (packetlen_update (\<lambda>_. 0)) (run_events net_step (Some (s\<lparr>packetlen := k\<rparr>)) es)
     = map_option (packetlen_update (\<lambda>_. 0)) (run_events net_step (Some s) es)"
  by (cases es) (simp_all add: net_step_packetlen)

lemma delivered_length: "frame_ok f \<Longrightarrow> length (delivered f) = length f - 4"
  by (auto simp: delivered_def frame_ok_def Let_def min_def)

lemma events_exist: "\<forall>f \<in> set fs. frame_ok f \<Longrightarrow> \<exists>es. list_all2 frame_event es fs"
proof (induction fs)
  case (Cons f fs)
  have "frame_event (\<lambda>k. delivered f ! k, length f - 4, 0) f"
    using delivered_length [of f] Cons.prems by (simp add: frame_event_def get_bytes_def map_nth flip: delivered_length)
  then show ?case using Cons by (auto simp: list_all2_Cons2)
qed simp

lemma queue_frames_ok: "rx_sim mac n s (h, q) \<Longrightarrow> \<forall>f \<in> set q. frame_ok f"
proof -
  assume "rx_sim mac n s (h, q)"
  then obtain b ws where s: "nic_typed n s" "firstTime s = (\<not> h)" "rx_slots mac s (of_bool h) b ws" "of_bool h \<le> length ws"
    "currRx s = (b + of_bool h) mod n" "q = map fst (drop (of_bool h) ws)"
    by (rule rx_simE)
  have "frame_ok (fst w)" if "w \<in> set ws" for w
  proof -
    from that obtain k where "k < length ws" "ws ! k = w" by (auto simp: in_set_conv_nth)
    then have "slot_ok mac s (k < of_bool h) (slot_addr s b k) w" using s(3) unfolding rx_slots_def by blast
    then show ?thesis by (cases w) (simp add: slot_ok_def)
  qed
  then show ?thesis using s(6) by (auto dest: in_set_dropD)
qed

lemma eth_loop_serves:
  assumes "nic_sim mac n nic (h, q)" "run net = Running" "packetlen net = 0"
  shows "\<exists>es. list_all2 frame_event es (takeWhile (accepts mac) q)
    \<and> (sends_fit (Some net) es \<longrightarrow>
        (case run_events net_step (Some net) es of
           None \<Rightarrow> eth_loop mac nic net = None
         | Some net' \<Rightarrow> run net' = Running \<longrightarrow>
             (\<exists>nic' h'. eth_loop mac nic net = Some (nic', net'\<lparr>packetlen := 0\<rparr>)
                \<and> nic_sim mac n nic' (h', drop (Suc (length es)) q))))"
  using assms
proof (induction q arbitrary: nic h net)
  case Nil
  have "rx_sim mac n nic (h, [])" using Nil.prems(1) by (simp add: nic_sim_def)
  then have "eth_loop mac nic net = Some (nic, net)" using receive_empty by (subst eth_loop.simps) simp
  then show ?case using Nil.prems by (intro exI [of _ "[]"]) (auto intro!: exI [of _ nic] exI [of _ h])
next
  case (Cons f q)
  note r = receive_sim [OF Cons.prems(1)]
  show ?case
  proof (cases "accepts mac f")
    case False
    then have "eth_loop mac nic net = Some (snd (swNic_receive mac nic), net)"
      using r(2) by (subst eth_loop.simps) (cases "swNic_receive mac nic", simp)
    then show ?thesis using r(1) False Cons.prems(3) by (intro exI [of _ "[]"]) auto
  next
    case True
    obtain p where p: "fst (swNic_receive mac nic) = Some (p, of_nat (length f - 4))"
      "get_bytes (frame_at (snd (swNic_receive mac nic)) p) 0 (length f - 4) = delivered f"
      using r(3) True by blast
    obtain nic2 where nic2: "swNic_txDone (snd (swNic_receive mac nic)) = Some nic2" "nic_sim mac n nic2 (True, q)"
      "nmem nic2 = nmem (snd (swNic_receive mac nic))"
      using txDone_sim [OF r(1)] by blast
    have frames: "\<forall>g \<in> set (f # q). frame_ok g"
      using queue_frames_ok [of mac n nic h "f # q"] Cons.prems(1) by (simp add: nic_sim_def)
    then have len: "unat (of_nat (length f - 4) :: u32) = length f - 4"
      by (subst unat_of_nat) (auto simp: frame_ok_def intro!: mod_less)
    let ?p = "frame_at nic2 p"
    define e where "e = (?p, length f - 4, jiffies net)"
    have at: "frame_at nic2 p = frame_at (snd (swNic_receive mac nic)) p" by (simp add: frame_at_def nic2(3))
    have ev: "frame_event e f" using p(2) by (simp add: e_def frame_event_def at)
    have step: "net_step (Some net) e = kick_tftpd (net\<lparr>packet := ?p, packetlen := length f - 4\<rparr>)"
      using Cons.prems(2) by (simp add: net_step_def e_def)
    have loop: "eth_loop mac nic net = (case net_step (Some net) e of None \<Rightarrow> None
      | Some net' \<Rightarrow> (case send_all (drop (length (txlog net)) (txlog net')) nic2 of None \<Rightarrow> None
          | Some nic \<Rightarrow> if run net' \<noteq> Running then Some (nic, net') else eth_loop mac nic (net'\<lparr>packetlen := 0\<rparr>)))"
      using p(1) nic2(1) by (subst eth_loop.simps) (cases "swNic_receive mac nic", simp add: step len)
    obtain rest where rest: "list_all2 frame_event rest (takeWhile (accepts mac) q)"
      using events_exist [of "takeWhile (accepts mac) q"] frames set_takeWhileD by fastforce
    show ?thesis
    proof (cases "net_step (Some net) e")
      case None
      then show ?thesis
        using True ev rest loop by (intro exI [of _ "e # rest"]) (simp add: run_events_None)
    next
      case (Some net1)
      show ?thesis
      proof (cases "run net1 = Running")
        case False
        then show ?thesis
          using True ev rest Some by (intro exI [of _ "e # rest"]) (simp add: run_events_stopped)
      next
        case running: True
        show ?thesis
        proof (cases "sends_ok (Some net1)")
          case False
          then have "\<not> sends_fit (Some net) (e # rest)" using Some sends_fit_ok by auto
          then show ?thesis using True ev rest by (intro exI [of _ "e # rest"]) (simp del: sends_fit.simps)
        next
          case ok: True
          then have "\<forall>g \<in> set (drop (length (txlog net)) (txlog net1)). length g \<le> 2048"
            by (auto simp: sends_ok_def dest: in_set_dropD)
          then obtain nic3 where nic3: "send_all (drop (length (txlog net)) (txlog net1)) nic2 = Some nic3"
            "nic_sim mac n nic3 (True, q)"
            using send_all_sim [OF nic2(2)] by blast
          then have next1: "eth_loop mac nic net = eth_loop mac nic3 (net1\<lparr>packetlen := 0\<rparr>)"
            using loop Some running by simp
          obtain es where es: "list_all2 frame_event es (takeWhile (accepts mac) q)"
            "sends_fit (Some net1) es \<longrightarrow>
              (case run_events net_step (Some (net1\<lparr>packetlen := 0\<rparr>)) es of
                 None \<Rightarrow> eth_loop mac nic3 (net1\<lparr>packetlen := 0\<rparr>) = None
               | Some net' \<Rightarrow> run net' = Running \<longrightarrow>
                   (\<exists>nic' h'. eth_loop mac nic3 (net1\<lparr>packetlen := 0\<rparr>) = Some (nic', net'\<lparr>packetlen := 0\<rparr>)
                      \<and> nic_sim mac n nic' (h', drop (Suc (length es)) q)))"
            using Cons.IH [OF nic3(2), of "net1\<lparr>packetlen := 0\<rparr>"] running sends_fit_packetlen [OF running] by auto
          have same: "map_option (packetlen_update (\<lambda>_. 0)) (run_events net_step (Some (net1\<lparr>packetlen := 0\<rparr>)) es)
              = map_option (packetlen_update (\<lambda>_. 0)) (run_events net_step (Some net1) es)"
            by (rule run_events_packetlen [OF running])
          show ?thesis
          proof (intro exI [of _ "e # es"] conjI impI)
            show "list_all2 frame_event (e # es) (takeWhile (accepts mac) (f # q))" using True ev es(1) by simp
            assume "sends_fit (Some net) (e # es)"
            then have fit: "sends_fit (Some net1) es" using Some by simp
            show "case run_events net_step (Some net) (e # es) of None \<Rightarrow> eth_loop mac nic net = None
              | Some net' \<Rightarrow> run net' = Running \<longrightarrow> (\<exists>nic' h'. eth_loop mac nic net = Some (nic', net'\<lparr>packetlen := 0\<rparr>)
                  \<and> nic_sim mac n nic' (h', drop (Suc (length (e # es))) (f # q)))"
            proof (cases "run_events net_step (Some net1) es")
              case None
              then have "run_events net_step (Some (net1\<lparr>packetlen := 0\<rparr>)) es = None" using same by simp
              then show ?thesis using None Some es(2) fit next1 by simp
            next
              case (Some net')
              then obtain net2 where net2: "run_events net_step (Some (net1\<lparr>packetlen := 0\<rparr>)) es = Some net2"
                "net2\<lparr>packetlen := 0\<rparr> = net'\<lparr>packetlen := 0\<rparr>"
                using same by auto
              have "run net2 = run (net2\<lparr>packetlen := 0\<rparr>)" by simp
              also have "\<dots> = run net'" unfolding net2(2) by simp
              finally have "run net2 = run net'" .
              then show ?thesis
                using Some \<open>net_step (Some net) e = Some net1\<close> es(2) fit next1 net2 by simp
            qed
          qed
        qed
      qed
    qed
  qed
qed

section \<open>Properties\<close>

lemma nic_sim_CPUIISR: "nic_sim mac n (s\<lparr>CPUIISR := x\<rparr>) a = nic_sim mac n s a"
proof -
  let ?t = "s\<lparr>CPUIISR := x\<rparr>"
  have "rx_slots mac ?t c b ws = rx_slots mac s c b ws" for c b ws by (rule rx_slots_eq) simp_all
  moreover have "nic_typed n ?t = nic_typed n s" by (rule nic_typed_eq) simp_all
  moreover have "tx_slots ?t k m = tx_slots s k m" for k m by (rule tx_slots_eq) simp_all
  ultimately show ?thesis by (simp add: nic_sim_def rx_sim_def)
qed

text \<open>C9: One interrupt gives the servers the pending frames in the order of their arrival, up to the first
  that is not for the board: the handler ends in the state that these frames lead to one by one
  (\<open>net_step\<close>), or never returns if one of them makes a server hang. Frames behind a foreign one stay
  in the ring. (What the servers send has to fit the transmit buffer.)\<close>

theorem eth_interrupt_serves:
  assumes "nic_sim mac n nic (h, q)" "run net = Running"
  shows "\<exists>es. list_all2 frame_event es (takeWhile (accepts mac) q)
    \<and> (sends_fit (Some net) es \<longrightarrow>
        (case run_events net_step (Some net) es of
           None \<Rightarrow> eth_interrupt mac nic net = None
         | Some net' \<Rightarrow> run net' = Running \<longrightarrow>
             (\<exists>nic' h'. eth_interrupt mac nic net = Some (nic', net'\<lparr>packetlen := 0\<rparr>)
                \<and> nic_sim mac n nic' (h', drop (Suc (length es)) q))))"
proof -
  let ?nic = "nic\<lparr>CPUIISR := 0\<rparr>" and ?net = "net\<lparr>packetlen := 0\<rparr>"
  obtain es where es: "list_all2 frame_event es (takeWhile (accepts mac) q)"
    "sends_fit (Some ?net) es \<longrightarrow>
        (case run_events net_step (Some ?net) es of
           None \<Rightarrow> eth_loop mac ?nic ?net = None
         | Some net' \<Rightarrow> run net' = Running \<longrightarrow>
             (\<exists>nic' h'. eth_loop mac ?nic ?net = Some (nic', net'\<lparr>packetlen := 0\<rparr>)
                \<and> nic_sim mac n nic' (h', drop (Suc (length es)) q)))"
    using eth_loop_serves [of mac n ?nic h q ?net] assms by (auto simp: nic_sim_CPUIISR)
  have same: "map_option (packetlen_update (\<lambda>_. 0)) (run_events net_step (Some ?net) es)
      = map_option (packetlen_update (\<lambda>_. 0)) (run_events net_step (Some net) es)"
    by (rule run_events_packetlen [OF assms(2)])
  show ?thesis
  proof (intro exI [of _ es] conjI impI)
    assume "sends_fit (Some net) es"
    then have fit: "sends_fit (Some ?net) es" by (simp add: sends_fit_packetlen assms(2))
    show "case run_events net_step (Some net) es of None \<Rightarrow> eth_interrupt mac nic net = None
      | Some net' \<Rightarrow> run net' = Running \<longrightarrow> (\<exists>nic' h'. eth_interrupt mac nic net = Some (nic', net'\<lparr>packetlen := 0\<rparr>)
          \<and> nic_sim mac n nic' (h', drop (Suc (length es)) q))"
    proof (cases "run_events net_step (Some net) es")
      case None
      then show ?thesis using same es(2) fit by (simp add: eth_interrupt_def)
    next
      case (Some net')
      then obtain net2 where net2: "run_events net_step (Some ?net) es = Some net2" "net2\<lparr>packetlen := 0\<rparr> = net'\<lparr>packetlen := 0\<rparr>"
        using same by auto
      have "run net2 = run (net2\<lparr>packetlen := 0\<rparr>)" by simp
      also have "\<dots> = run net'" unfolding net2(2) by simp
      finally have running: "run net2 = run net'" .
      have "\<exists>nic' h'. eth_interrupt mac nic net = Some (nic', net'\<lparr>packetlen := 0\<rparr>)
          \<and> nic_sim mac n nic' (h', drop (Suc (length es)) q)" if r: "run net' = Running"
      proof -
        obtain nic1 h' where nic1: "eth_loop mac ?nic ?net = Some (nic1, net'\<lparr>packetlen := 0\<rparr>)"
          "nic_sim mac n nic1 (h', drop (Suc (length es)) q)"
          using es(2) fit net2 running r by auto
        obtain nic2 where "swNic_txDone nic1 = Some nic2" "nic_sim mac n nic2 (h', drop (Suc (length es)) q)"
          using txDone_sim [OF nic1(2)] by blast
        then show ?thesis using nic1(1) r by (auto simp: eth_interrupt_def)
      qed
      then show ?thesis using Some by simp
    qed
  qed (rule es(1))
qed

lemma eth_interrupt_serves_witness:
  "\<exists>s t p j. nic_sim [] 4 s (False, [broadcast])
     \<and> eth_interrupt [] s sample_net = Some (t, sample_net\<lparr>packet := p, packetlen := 0, jiffies := j\<rparr>)"
proof -
  obtain s where s: "nic_sim [] 4 s (False, [broadcast])" using sample_stored by blast
  have run: "run sample_net = Running" by (rule sample_net_fields)
  obtain es where es: "list_all2 frame_event es (takeWhile (accepts []) [broadcast])"
    "sends_fit (Some sample_net) es \<longrightarrow>
        (case run_events net_step (Some sample_net) es of
           None \<Rightarrow> eth_interrupt [] s sample_net = None
         | Some net' \<Rightarrow> run net' = Running \<longrightarrow>
             (\<exists>nic' h'. eth_interrupt [] s sample_net = Some (nic', net'\<lparr>packetlen := 0\<rparr>)
                \<and> nic_sim [] 4 nic' (h', drop (Suc (length es)) [broadcast])))"
    using eth_interrupt_serves [OF s run] by blast
  have "list_all2 frame_event es [broadcast]" using es(1) broadcast_ok(2) by simp
  then obtain e where "es = [e]" "frame_event e broadcast" by (auto simp: list_all2_Cons2)
  moreover have "length broadcast = 64" by (simp add: broadcast_def)
  ultimately obtain p t where e: "es = [(p, 60, t)]" "get_bytes p 0 60 = replicate 60 0xFF"
    using broadcast_ok(3) by (cases e) (simp add: frame_event_def)
  have "get_bytes p 0 60 ! 12 = 0xFF" "get_bytes p 0 60 ! 13 = 0xFF" unfolding e(2) by simp_all
  then have "get16 p 12 = 0xFFFF" by (simp add: get16_def le16_def push_bit_eq_mult)
  then have "net_step (Some sample_net) (p, 60, t) = Some (sample_net\<lparr>packet := p, packetlen := 60, jiffies := t\<rparr>)"
    using run by (simp add: net_step_def kick_tftpd_def net_consts swab16_def)
  then obtain u where "eth_interrupt [] s sample_net = Some (u, sample_net\<lparr>packet := p, packetlen := 0, jiffies := t\<rparr>)"
    using es(2) run by (auto simp: e(1) sends_ok_def sample_net_fields(7))
  then show ?thesis using s by blast
qed

end
