(* ===== verification/Console.thy ===== *)
theory Console
  imports Utcp "HOL-Library.Monad_Syntax" "HOL-Library.Signed_Division"
begin

text \<open>
  The serial console: \<^verbatim>\<open>boot/io/init.c\<close> (the UART), \<^verbatim>\<open>boot/io/ctool.c\<close> (line input, splitting
  of a line into words, hexadecimal numbers) and \<open>vsprintf\<close> of \<^verbatim>\<open>boot/io/misc.c\<close>.

  What the polls of the UART find is the field \<open>uart\<close> of the machine; what is transmitted is
  \<open>console_out\<close>. A line is a buffer, a word of it an offset; \<open>None\<close> means that the call
  has not returned: the input has run out, a scan never ends, or a pointer that is read is null.
\<close>

section \<open>State\<close>

text \<open>
  \<open>line_buf\<close> is the \<open>buffer\<close> of \<open>monitor\<close> with the bytes of the stack behind it, \<open>answer_buf\<close> the
  \<open>iChar\<close> of \<open>YesOrNo\<close>, which nothing sets before it is read.
\<close>

record console_state = http_state +
  console_out :: "u8 list"
  line_buf :: buffer
  answer_buf :: buffer

fun serial_inc :: "u8 option list \<Rightarrow> (u8 \<times> u8 option list) option" where
  "serial_inc [] = None"
| "serial_inc (Some c # ps) = Some (c, ps)"
| "serial_inc (None # ps) = serial_inc ps"

text \<open>What goes out for one byte: a carriage return follows each line feed.\<close>

definition serial_outc :: "u8 \<Rightarrow> u8 list" where
  "serial_outc c = (if c = 0x0a then [c, 0x0d] else [c])"

definition put_bytes :: "u8 list \<Rightarrow> 'a console_state_scheme \<Rightarrow> 'a console_state_scheme" where
  "put_bytes bs s = s\<lparr>console_out := console_out s @ concat (map serial_outc bs)\<rparr>"

section \<open>Line input\<close>

definition KEYCODE_BS :: u8 where "KEYCODE_BS = 0x08"
definition KEYCODE_TAB :: u8 where "KEYCODE_TAB = 0x09"
definition KEYCODE_CR :: u8 where "KEYCODE_CR = 0x0D"
definition KEYCODE_LF :: u8 where "KEYCODE_LF = 0x0A"
definition KEYCODE_CTRL_BS :: u8 where "KEYCODE_CTRL_BS = 0x7F"
definition TAB :: nat where "TAB = 8"

lemmas keycodes = KEYCODE_BS_def KEYCODE_TAB_def KEYCODE_CR_def KEYCODE_LF_def KEYCODE_CTRL_BS_def TAB_def

text \<open>The locals of \<open>GetLine\<close>: the buffer, \<open>p\<close> as an offset into it, \<open>n\<close>, and the bytes echoed.\<close>

record getline =
  g_buf :: buffer
  g_p :: nat
  g_n :: u32
  g_echo :: "u8 list"

definition gl_put :: "bool \<Rightarrow> u8 \<Rightarrow> getline \<Rightarrow> getline" where
  "gl_put EchoFlag ch g =
     g\<lparr>g_buf := (g_buf g)(g_p g := ch), g_p := g_p g + 1, g_n := g_n g + 1,
       g_echo := g_echo g @ (if EchoFlag then [ch] else [])\<rparr>"

text \<open>One character: whether the loop ends (\<open>break\<close>), and the new locals.\<close>

definition gl_char :: "bool \<Rightarrow> u8 \<Rightarrow> getline \<Rightarrow> bool \<times> getline" where
  "gl_char EchoFlag ch g =
     (if ch = KEYCODE_LF then (True, g)
      else if ch = KEYCODE_CR then (True, g\<lparr>g_buf := (g_buf g)(g_p g := 0), g_n := g_n g - 1\<rparr>)
      else if ch = KEYCODE_BS \<or> ch = KEYCODE_CTRL_BS then
        (False,
         if g_p g \<noteq> 0
         then g\<lparr>g_p := g_p g - 1, g_n := g_n g - 1,
                g_echo := g_echo g @ (if EchoFlag then [KEYCODE_BS, 32, KEYCODE_BS] else [])\<rparr>
         else g)
      else if ch = KEYCODE_TAB then (False, (gl_put EchoFlag 32 ^^ TAB) g)
      else (False, gl_put EchoFlag ch g))"

lemma serial_inc_shorter: "serial_inc ps = Some (c, qs) \<Longrightarrow> length qs < length ps"
  by (induction ps rule: serial_inc.induct) auto

text \<open>The byte 0xFF is -1 as a \<open>char\<close> and skipped.\<close>

function gl_loop :: "u32 \<Rightarrow> bool \<Rightarrow> u8 option list \<Rightarrow> getline \<Rightarrow> (getline \<times> u8 option list) option" where
  "gl_loop n EchoFlag ps g =
     (if g_n g < n then
        (case serial_inc ps of None \<Rightarrow> None
         | Some (c, qs) \<Rightarrow>
             (if c = 0xFF then gl_loop n EchoFlag qs g
              else (case gl_char EchoFlag c g of
                      (True, g) \<Rightarrow> Some (g, qs)
                    | (False, g) \<Rightarrow> gl_loop n EchoFlag qs g)))
      else Some (g, ps))"
  by pat_completeness auto
termination
  by (relation "measure (\<lambda>(n, e, ps, g). length ps)") (auto dest: serial_inc_shorter)

declare gl_loop.simps [simp del]

definition GetLine :: "buffer \<Rightarrow> u32 \<Rightarrow> bool \<Rightarrow> 'a console_state_scheme \<Rightarrow> (buffer \<times> 'a console_state_scheme) option" where
  "GetLine b n EchoFlag s = do {
     (g, ps) \<leftarrow> gl_loop n EchoFlag (uart s) \<lparr>g_buf = b, g_p = 0, g_n = 0, g_echo = []\<rparr>;
     Some (g_buf g, put_bytes (g_echo g) (s\<lparr>uart := ps\<rparr>))
   }"

section \<open>Words of a line\<close>

definition MAX_ARGV :: nat where "MAX_ARGV = 20"

partial_function (option) StrUpr :: "buffer \<Rightarrow> nat \<Rightarrow> buffer option" where
  "StrUpr b p =
     (if b p \<noteq> 0 then StrUpr (if 97 \<le> b p \<and> b p \<le> 122 then b(p := b p - 32) else b) (p + 1)
      else Some b)"

partial_function (option) skip_word :: "buffer \<Rightarrow> nat \<Rightarrow> nat option" where
  "skip_word b p = (if b p \<noteq> 32 \<and> b p \<noteq> 0 then skip_word b (p + 1) else Some p)"

partial_function (option) skip_blanks :: "buffer \<Rightarrow> nat \<Rightarrow> nat option" where
  "skip_blanks b p = (if b p = 32 then skip_blanks b (p + 1) else Some p)"

partial_function (option) argc_loop :: "buffer \<Rightarrow> nat \<Rightarrow> nat \<Rightarrow> nat option" where
  "argc_loop b p argc =
     (if b p \<noteq> 0 then
        (if b p \<noteq> 32 then (case skip_word b p of None \<Rightarrow> None | Some p \<Rightarrow> argc_loop b p (argc + 1))
         else argc_loop b (p + 1) argc)
      else Some argc)"

definition GetArgc :: "buffer \<Rightarrow> nat option" where
  "GetArgc b = map_option (\<lambda>argc. if argc \<ge> MAX_ARGV then MAX_ARGV - 1 else argc) (argc_loop b 0 0)"

text \<open>\<open>ArgvArray\<close> is a list of \<open>MAX_ARGV\<close> pointers; \<open>None\<close> is the null pointer.\<close>

type_synonym argv = "nat option list"

partial_function (option) argv_loop :: "buffer \<Rightarrow> nat \<Rightarrow> nat \<Rightarrow> argv \<Rightarrow> (buffer \<times> argv) option" where
  "argv_loop b p n av =
     (if b p \<noteq> 0 then
        (case skip_word b p of None \<Rightarrow> None
         | Some e \<Rightarrow>
             (case skip_blanks (b(e := 0)) (e + 1) of None \<Rightarrow> None
              | Some q \<Rightarrow>
                  (if n + 1 = MAX_ARGV then Some (b(e := 0), av[n := Some p])
                   else argv_loop (b(e := 0)) q (n + 1) (av[n := Some p]))))
      else Some (b, av))"

definition GetArgv :: "buffer \<Rightarrow> (buffer \<times> argv) option" where
  "GetArgv b = argv_loop b 0 0 (replicate MAX_ARGV None)"

text \<open>\<open>Hex2Val\<close>: \<open>Some None\<close> is \<open>FALSE\<close>.\<close>

definition hex_value :: "u8 \<Rightarrow> u8 option" where
  "hex_value c =
     (if 48 \<le> c \<and> c \<le> 57 then Some (c - 48)
      else if 97 \<le> c \<and> c \<le> 102 then Some (c - 97 + 10)
      else if 65 \<le> c \<and> c \<le> 70 then Some (c - 65 + 10) else None)"

partial_function (option) hex_loop :: "buffer \<Rightarrow> nat \<Rightarrow> u32 \<Rightarrow> u32 option option" where
  "hex_loop b p csum =
     (if b p \<noteq> 0 then
        (case hex_value (b p) of None \<Rightarrow> Some None
         | Some v \<Rightarrow> (if csum * 16 + ucast v < csum then Some None else hex_loop b (p + 1) (csum * 16 + ucast v)))
      else Some (Some csum))"

definition Hex2Val :: "buffer \<Rightarrow> nat \<Rightarrow> u32 option option" where
  "Hex2Val b p = hex_loop b p 0"

section \<open>Formatted output\<close>

text \<open>The variable arguments: numbers, and pointers to strings (by the bytes they point to).\<close>

datatype va = Val u32 | Str "u8 list"

definition is_digit :: "u8 \<Rightarrow> bool" where "is_digit c \<longleftrightarrow> 48 \<le> c \<and> c \<le> 57"

text \<open>The width in front of a conversion, \<^verbatim>\<open>%08X\<close>: its value and what follows.\<close>

fun fmt_width :: "int \<Rightarrow> u8 list \<Rightarrow> int \<times> u8 list" where
  "fmt_width w [] = (w, [])"
| "fmt_width w (c # fmt) = (if is_digit c then fmt_width (w * 10 + (uint c - 48)) fmt else (w, c # fmt))"

text \<open>\<^verbatim>\<open>%x\<close>: a digit for each \<open>shift\<close> down to 0; \<open>ncase\<close> is the lower-case bit.\<close>

definition hex_digit :: "u8 \<Rightarrow> u32 \<Rightarrow> u8" where
  "hex_digit ncase v = (ascii ''0123456789ABCDEF'' ! unat (v AND 0xF)) OR ncase"

primrec hex_item :: "nat \<Rightarrow> u32 \<Rightarrow> u8 \<Rightarrow> u8 list" where
  "hex_item 0 h ncase = []"
| "hex_item (Suc k) h ncase = hex_digit ncase (drop_bit (4 * k) h) # hex_item k h ncase"

text \<open>\<^verbatim>\<open>%d\<close>: the digits as they come out, last one first; \<open>/\<close> and \<open>%\<close> of C round to 0.\<close>

function dec_loop :: "int \<Rightarrow> u8 list" where
  "dec_loop i = (48 + of_int (i smod 10)) # (if i sdiv 10 \<noteq> 0 then dec_loop (i sdiv 10) else [])"
  by pat_completeness auto
termination
  by (relation "measure (\<lambda>i. nat \<bar>i\<bar>)") (auto simp: signed_divide_int_def abs_mult sgn_if zdiv_mono1)

declare dec_loop.simps [simp del]

definition dec_item :: "u32 \<Rightarrow> u8 list" where
  "dec_item w = (if sint w < 0 then 45 # rev (dec_loop (sint (- w))) else rev (dec_loop (sint w)))"

text \<open>
  One conversion: its bytes (at most 11, so \<open>tmp\<close> holds them) and the arguments left. A shift by 32 or more has no defined
  value.
\<close>

definition convert :: "u8 \<Rightarrow> int \<Rightarrow> va list \<Rightarrow> (u8 list \<times> va list) option" where
  "convert c shift dp =
     (if c = 120 \<or> c = 88 then
        (case dp of Val h # dp \<Rightarrow> (if shift \<ge> 32 then None else Some (hex_item (nat ((shift + 4) div 4)) h (c AND 0x20), dp))
         | _ \<Rightarrow> None)
      else if c = 100 then (case dp of Val i # dp \<Rightarrow> Some (dec_item i, dp) | _ \<Rightarrow> None)
      else if c = 99 then (case dp of Val i # dp \<Rightarrow> Some ([ucast i], dp) | _ \<Rightarrow> None)
      else Some ([c], dp))"

lemma fmt_width_shorter: "(v, rest) = fmt_width w fmt \<Longrightarrow> length rest \<le> length fmt"
  by (induction w fmt arbitrary: v rest rule: fmt_width.induct) (auto split: if_splits intro: le_SucI)

function vsprintf :: "u8 list \<Rightarrow> va list \<Rightarrow> u8 list option" where
  "vsprintf fmt dp =
     (case fmt of [] \<Rightarrow> Some []
      | c # fmt \<Rightarrow>
         (if c \<noteq> 37 then map_option (\<lambda>out. c # out) (vsprintf fmt dp)
          else (case fmt of [] \<Rightarrow> None
                | c # rest \<Rightarrow>
                   (if c = 115 then
                      (case dp of Str p # dp \<Rightarrow> map_option (\<lambda>out. p @ out) (vsprintf rest dp) | _ \<Rightarrow> None)
                    else
                      (case (if is_digit c then fmt_width 0 fmt else (8, fmt)) of
                         (width, []) \<Rightarrow> None
                       | (width, c # rest) \<Rightarrow>
                          (case convert c ((width - 1) * 4) dp of None \<Rightarrow> None
                           | Some (q, dp) \<Rightarrow> map_option (\<lambda>out. q @ out) (vsprintf rest dp)))))))"
  by pat_completeness auto
termination
  by (relation "measure (\<lambda>(fmt, dp). length fmt)") (auto split: if_splits dest!: fmt_width_shorter)

declare vsprintf.simps [simp del]

definition dprintf :: "u8 list \<Rightarrow> va list \<Rightarrow> 'a console_state_scheme \<Rightarrow> 'a console_state_scheme option" where
  "dprintf fmt dp s = map_option (\<lambda>bs. put_bytes bs s) (vsprintf fmt dp)"

section \<open>What is printed\<close>

lemma vsprintf_Nil [simp]: "vsprintf [] dp = Some []"
  by (simp add: vsprintf.simps)

lemma vsprintf_plain [simp]: "c \<noteq> 37 \<Longrightarrow> vsprintf (c # fmt) dp = map_option (\<lambda>out. c # out) (vsprintf fmt dp)"
  by (subst vsprintf.simps) simp

lemma vsprintf_text: "37 \<notin> set bs \<Longrightarrow> vsprintf (bs @ fmt) dp = map_option (\<lambda>out. bs @ out) (vsprintf fmt dp)"
proof (induction bs)
  case Nil
  show ?case by (cases "vsprintf fmt dp") auto
next
  case (Cons b bs)
  then show ?case by (cases "vsprintf fmt dp") auto
qed

lemma vsprintf_string [simp]: "vsprintf (37 # 115 # fmt) (Str p # dp) = map_option (\<lambda>out. p @ out) (vsprintf fmt dp)"
  by (subst vsprintf.simps) simp

lemma vsprintf_decimal [simp]:
  "vsprintf (37 # 100 # fmt) (Val i # dp) = map_option (\<lambda>out. dec_item i @ out) (vsprintf fmt dp)"
  by (subst vsprintf.simps) (simp add: is_digit_def convert_def)

lemma vsprintf_hex [simp]:
  "vsprintf (37 # 88 # fmt) (Val h # dp) = map_option (\<lambda>out. hex_item 8 h 0 @ out) (vsprintf fmt dp)"
  "vsprintf (37 # 120 # fmt) (Val h # dp) = map_option (\<lambda>out. hex_item 8 h 0x20 @ out) (vsprintf fmt dp)"
  "vsprintf (37 # 48 # 56 # 88 # fmt) (Val h # dp) = map_option (\<lambda>out. hex_item 8 h 0 @ out) (vsprintf fmt dp)"
  by (subst vsprintf.simps; simp add: is_digit_def convert_def word_le_nat_alt)+

lemma ascii_simps [simp]:
  "ascii [] = []" "ascii (c # cs) = of_char c # ascii cs"
  by (simp_all add: ascii_def)

text \<open>Hexadecimal digits and their values.\<close>

lemma hex_digit_table:
  "list_all (\<lambda>k. list_all (\<lambda>nc. let c = (ascii ''0123456789ABCDEF'' ! k) OR nc
     in digit_of c = of_nat k \<and> c \<noteq> 120 \<and> c \<noteq> 88 \<and> c \<noteq> 43 \<and> 33 \<le> c \<and> c < 127) [0, 0x20 :: u8]) [0..<16]"
  by code_simp

lemma hex_digit_cases:
  assumes "nc = 0 \<or> nc = 0x20"
  shows "digit_of (hex_digit nc v) = of_nat (unat v mod 16)"
    and "hex_digit nc v \<noteq> 120 \<and> hex_digit nc v \<noteq> 88 \<and> hex_digit nc v \<noteq> 43"
    and "33 \<le> hex_digit nc v \<and> hex_digit nc v < 127"
proof -
  have k: "unat (v AND 0xF) = unat v mod 16"
  proof -
    have "v AND 0xF = take_bit 4 v" by (simp add: take_bit_eq_mask mask_eq_exp_minus_1)
    then show ?thesis by (simp add: take_bit_eq_mod unat_mod_distrib)
  qed
  have "unat v mod 16 \<in> set [0..<16]" by simp
  then have "let c = (ascii ''0123456789ABCDEF'' ! (unat v mod 16)) OR nc
     in digit_of c = of_nat (unat v mod 16) \<and> c \<noteq> 120 \<and> c \<noteq> 88 \<and> c \<noteq> 43 \<and> 33 \<le> c \<and> c < 127"
    using hex_digit_table assms unfolding list_all_iff by fastforce
  then show "digit_of (hex_digit nc v) = of_nat (unat v mod 16)"
    and "hex_digit nc v \<noteq> 120 \<and> hex_digit nc v \<noteq> 88 \<and> hex_digit nc v \<noteq> 43"
    and "33 \<le> hex_digit nc v \<and> hex_digit nc v < 127"
    unfolding hex_digit_def k Let_def by blast+
qed

primrec nibbles :: "nat \<Rightarrow> u32 \<Rightarrow> nat list" where
  "nibbles 0 v = []"
| "nibbles (Suc k) v = unat (drop_bit (4 * k) v) mod 16 # nibbles k v"

lemma length_hex_item [simp]: "length (hex_item k v nc) = k" "length (nibbles k v) = k"
  by (induction k) simp_all

lemma unat_u32_bound [simp]: "unat (v :: u32) < 4294967296"
proof -
  have "unat v < 2 ^ LENGTH(32)" by (rule unsigned_less)
  then show ?thesis by simp
qed

lemma nibbles_value: "num_value 16 a (nibbles k v) = a * 16 ^ k + unat v mod 16 ^ k"
proof (induction k arbitrary: a)
  case (Suc k)
  have "unat (drop_bit (4 * k) v) = unat v div 16 ^ k"
    unfolding unsigned_drop_bit_eq by (simp add: take_bit_eq_mod drop_bit_eq_div power_mult)
  moreover have "unat v mod (16 ^ k * 16) = 16 ^ k * (unat v div 16 ^ k mod 16) + unat v mod 16 ^ k"
    by (rule mod_mult2_eq)
  ultimately show ?case by (simp add: Suc.IH algebra_simps)
qed simp

lemma hex_item_numeral:
  assumes "nc = 0 \<or> nc = 0x20"
  shows "is_cstr b p (hex_item k v nc) \<Longrightarrow> numeral_at b p 16 (nibbles k v)"
proof (induction k arbitrary: p)
  case (Suc k)
  then show ?case using hex_digit_cases(1) [OF assms, of "drop_bit (4 * k) v"]
    by (simp add: word_less_nat_alt unat_of_nat)
qed simp

lemma strtoul_hex:
  assumes "nc = 0 \<or> nc = 0x20" "is_cstr b p (hex_item 8 v nc)"
  shows "strtoul b p 16 = Some (v, Some (p + 8))"
proof -
  obtain d ds where ds: "nibbles 8 v = d # ds" "length ds = 7"
    using length_hex_item(2) [of 8 v] by (cases "nibbles 8 v") auto
  have v: "num_value 16 0 (d # ds) = unat v"
    unfolding ds(1) [symmetric] nibbles_value by simp
  have "b (p + 1) = hex_item 8 v nc ! 1" using is_cstr_nth [OF assms(2), of 1] by simp
  moreover have "hex_item (Suc (Suc 6)) v nc ! Suc 0 = hex_digit nc (drop_bit (4 * 6) v)"
    by (simp only: hex_item.simps nth_Cons_Suc nth_Cons_0)
  ultimately have x: "b (p + 1) \<noteq> 120 \<and> b (p + 1) \<noteq> 88"
    using hex_digit_cases(2) [OF assms(1)] by simp
  have "num_value 16 0 (d # ds) < 2 ^ 32" unfolding v by simp
  then show ?thesis
    using strtoul_numeral [OF hex_item_numeral [OF assms, unfolded ds(1)]] v x ds(2) by (simp del: num_value_simps)
qed

text \<open>Decimal numbers.\<close>

lemma sint_u32: "sint (w :: u32) = (if uint w < 2147483648 then uint w else uint w - 4294967296)"
proof -
  have u: "0 \<le> uint w" "uint w < 4294967296" using uint_lt2p [of w] by simp_all
  have "sint w = take_bit 32 (uint w) - 2 ^ 32 * of_bool (bit (uint w) 31)"
    by (simp add: sint_uint signed_take_bit_eq_take_bit_minus)
  moreover have "bit (uint w) 31 \<longleftrightarrow> uint w \<ge> 2147483648"
  proof -
    have "uint w div 2147483648 = (if uint w < 2147483648 then 0 else 1)"
      using u by (auto simp: div_pos_pos_trivial intro!: int_div_pos_eq [where r = "uint w - 2147483648"])
    then show ?thesis by (simp add: bit_iff_odd)
  qed
  ultimately show ?thesis using u by (simp add: take_bit_int_eq_self)
qed

lemma sint_uminus_u32: "w \<noteq> 0x80000000 \<Longrightarrow> sint (- w) = - sint (w :: u32)"
proof -
  assume w: "w \<noteq> 0x80000000"
  have "uint w \<noteq> 2147483648" using w word_uint_eq_iff [of w "0x80000000"] by simp
  moreover have "uint (- w) = (if w = 0 then 0 else 4294967296 - uint w)"
    using uint_lt2p [of w] by (simp add: uint_word_ariths zmod_zminus1_eq_if word_uint_eq_iff)
  ultimately show ?thesis using uint_lt2p [of w] by (auto simp: sint_u32)
qed

lemma dec_loop_decimal: "rev (dec_loop (int n)) = decimal n"
proof (induction n rule: less_induct)
  case (less n)
  have "int n sdiv 10 = int (n div 10)" "int n smod 10 = int (n mod 10)"
    by (simp_all add: signed_divide_int_def signed_modulo_int_def zdiv_int zmod_int sgn_if)
  then have "int n sdiv 10 = int (n div 10)" "(of_int (int n smod 10) :: u8) = of_nat (n mod 10)"
    by (metis of_int_of_nat_eq)+
  then show ?case using less [of "n div 10"]
    by (subst dec_loop.simps, subst decimal.simps) (simp add: div_eq_0_iff)
qed

lemma dec_item_decimal:
  assumes "w \<noteq> 0x80000000"
  shows "dec_item w = (if sint w < 0 then 45 # decimal (nat (- sint w)) else decimal (nat (sint w)))"
  using dec_loop_decimal [of "nat (- sint w)"] dec_loop_decimal [of "nat (sint w)"]
  by (simp add: dec_item_def sint_uminus_u32 [OF assms] split: if_splits)

text \<open>\<^verbatim>\<open>%d\<close> prints every \<open>int\<close> in decimal notation, without leading zeros and with a minus sign in
  front of a negative number, except the smallest one, whose negation overflows.\<close>

theorem vsprintf_int:
  "vsprintf (ascii ''%d'') [Val w] =
     Some (if w = 0x80000000 then ascii ''-./,),(-*,(''
           else if sint w < 0 then 45 # decimal (nat (- sint w)) else decimal (nat (sint w)))"
proof (cases "w = 0x80000000")
  case True
  have "dec_item 0x80000000 = ascii ''-./,),(-*,(''" by code_simp
  then show ?thesis by (simp add: True)
qed (simp add: dec_item_decimal)

section \<open>Lines that are typed\<close>

text \<open>The polls deliver the bytes, with any pauses, and go on with the rest.\<close>

primrec typed :: "u8 list \<Rightarrow> u8 option list \<Rightarrow> u8 option list \<Rightarrow> bool" where
  "typed [] ps qs \<longleftrightarrow> ps = qs"
| "typed (c # cs) ps qs \<longleftrightarrow> (\<exists>rs. serial_inc ps = Some (c, rs) \<and> typed cs rs qs)"

lemma typed_append: "typed (xs @ ys) ps qs \<longleftrightarrow> (\<exists>rs. typed xs ps rs \<and> typed ys rs qs)"
  by (induction xs arbitrary: ps) auto

lemma typed_now: "typed cs (map Some cs @ qs) qs"
  by (induction cs) simp_all

text \<open>Characters that do not end the line: all but CR, LF and the byte 0xFF, which is skipped.\<close>

definition editing :: "u8 \<Rightarrow> bool" where
  "editing c \<longleftrightarrow> c \<noteq> KEYCODE_CR \<and> c \<noteq> KEYCODE_LF \<and> c \<noteq> 0xFF"

definition gl_fold :: "bool \<Rightarrow> u8 list \<Rightarrow> getline \<Rightarrow> getline" where
  "gl_fold e cs g = fold (\<lambda>c g. snd (gl_char e c g)) cs g"

lemma gl_fold_simps [simp]:
  "gl_fold e [] g = g" "gl_fold e (c # cs) g = gl_fold e cs (snd (gl_char e c g))"
  "gl_fold e (cs @ ds) g = gl_fold e ds (gl_fold e cs g)"
  by (simp_all add: gl_fold_def)

lemma gl_char_editing: "editing c \<Longrightarrow> \<not> fst (gl_char e c g)"
  by (simp add: gl_char_def editing_def keycodes)

text \<open>Every character is treated as long as the count stays below the size; CR ends the line.\<close>

lemma gl_loop_prefix:
  assumes "typed cs ps qs" "list_all editing cs" "\<forall>i < length cs. g_n (gl_fold e (take i cs) g) < n"
  shows "gl_loop n e ps g = gl_loop n e qs (gl_fold e cs g)"
  using assms
proof (induction cs arbitrary: ps g)
  case (Cons c cs)
  obtain rs where rs: "serial_inc ps = Some (c, rs)" "typed cs rs qs" using Cons.prems(1) by auto
  obtain h where h: "gl_char e c g = (False, h)"
    using Cons.prems(2) gl_char_editing [of c e g] by (cases "gl_char e c g") auto
  have "g_n g < n" using Cons.prems(3) [rule_format, of 0] by simp
  moreover have "\<forall>i < length cs. g_n (gl_fold e (take i cs) h) < n"
  proof (intro allI impI)
    fix i assume "i < length cs"
    then show "g_n (gl_fold e (take i cs) h) < n" using Cons.prems(3) [rule_format, of "Suc i"] h by simp
  qed
  moreover have "c \<noteq> 0xFF" using Cons.prems(2) by (simp add: editing_def)
  ultimately show ?case using Cons.IH [OF rs(2), of h] Cons.prems(2) rs(1) h
    by (simp add: gl_loop.simps [of n e ps g])
qed simp

lemma gl_loop_typed:
  assumes "typed (cs @ [KEYCODE_CR]) ps qs" "list_all editing cs"
    and "\<forall>i \<le> length cs. g_n (gl_fold e (take i cs) g) < n"
  shows "gl_loop n e ps g = Some (snd (gl_char e KEYCODE_CR (gl_fold e cs g)), qs)"
proof -
  obtain rs where rs: "typed cs ps rs" "serial_inc rs = Some (KEYCODE_CR, qs)"
    using assms(1) by (auto simp: typed_append)
  have "gl_loop n e ps g = gl_loop n e rs (gl_fold e cs g)"
    using gl_loop_prefix [OF rs(1) assms(2)] assms(3) by simp
  moreover have "g_n (gl_fold e cs g) < n" using assms(3) by auto
  ultimately show ?thesis using rs(2) by (simp add: gl_loop.simps [of n e rs] gl_char_def keycodes)
qed

text \<open>What the keys do to the line, on lists.\<close>

definition edit :: "u8 list \<Rightarrow> u8 \<Rightarrow> u8 list" where
  "edit l c =
     (if c = KEYCODE_BS \<or> c = KEYCODE_CTRL_BS then butlast l
      else if c = KEYCODE_TAB then l @ replicate TAB 32 else l @ [c])"

definition gl_line :: "u8 list \<Rightarrow> getline \<Rightarrow> bool" where
  "gl_line l g \<longleftrightarrow> g_p g = length l \<and> g_n g = of_nat (length l) \<and> (\<forall>k < length l. g_buf g k = l ! k)"

lemma gl_put_line: "gl_line l g \<Longrightarrow> gl_line (l @ [c]) (gl_put e c g)"
  by (auto simp: gl_line_def gl_put_def nth_append)

lemma gl_puts_line: "gl_line l g \<Longrightarrow> gl_line (l @ replicate k c) ((gl_put e c ^^ k) g)"
proof (induction k)
  case (Suc k)
  then have "gl_line ((l @ replicate k c) @ [c]) (gl_put e c ((gl_put e c ^^ k) g))" by (intro gl_put_line) simp
  then show ?case by (simp add: replicate_append_same)
qed simp

lemma gl_char_line:
  assumes "gl_line l g" "editing c"
  shows "gl_line (edit l c) (snd (gl_char e c g))"
proof -
  consider "c = KEYCODE_BS \<or> c = KEYCODE_CTRL_BS" "l = []" | "c = KEYCODE_BS \<or> c = KEYCODE_CTRL_BS" "l \<noteq> []"
    | "c = KEYCODE_TAB" | "c \<noteq> KEYCODE_BS" "c \<noteq> KEYCODE_CTRL_BS" "c \<noteq> KEYCODE_TAB" by blast
  then show ?thesis
  proof cases
    case 2
    then obtain m d where l: "l = m @ [d]" by (cases l rule: rev_cases) auto
    show ?thesis using assms 2(1) by (auto simp: l edit_def gl_char_def gl_line_def keycodes nth_append)
  next
    case 3
    then show ?thesis using assms gl_puts_line [of l g 8 32 e] by (simp add: edit_def gl_char_def keycodes)
  next
    case 4
    then show ?thesis using assms gl_put_line [of l g c e] by (simp add: edit_def gl_char_def editing_def)
  qed (use assms in \<open>auto simp: edit_def gl_char_def gl_line_def keycodes\<close>)
qed

lemma gl_fold_line: "gl_line l g \<Longrightarrow> list_all editing cs \<Longrightarrow> gl_line (foldl edit l cs) (gl_fold e cs g)"
  by (induction cs arbitrary: l g) (simp_all add: gl_char_line)

lemma gl_start_line: "gl_line [] \<lparr>g_buf = b, g_p = 0, g_n = 0, g_echo = []\<rparr>"
  by (simp add: gl_line_def)

lemma is_cstrI: "(\<And>k. k < length l \<Longrightarrow> b (p + k) = l ! k \<and> l ! k \<noteq> 0) \<Longrightarrow> b (p + length l) = 0 \<Longrightarrow> is_cstr b p l"
proof (induction l arbitrary: p)
  case (Cons c l)
  have "b (Suc p + k) = l ! k \<and> l ! k \<noteq> 0" if "k < length l" for k
    using Cons.prems(1) [of "Suc k"] that by simp
  then have "is_cstr b (Suc p) l" using Cons.IH [of "Suc p"] Cons.prems(2) by simp
  then show ?case using Cons.prems(1) [of 0] by simp
qed simp

lemma edit_nonzero: "0 \<notin> set l \<Longrightarrow> 0 \<notin> set cs \<Longrightarrow> 0 \<notin> set (foldl edit l cs)"
proof (induction cs arbitrary: l)
  case (Cons c cs)
  then have "0 \<notin> set (edit l c)" by (auto simp: edit_def dest: in_set_butlastD)
  then show ?case using Cons by simp
qed simp

text \<open>The prefixes of what is typed fit into \<open>n\<close> characters.\<close>

definition fits :: "nat \<Rightarrow> u8 list \<Rightarrow> bool" where
  "fits n cs \<longleftrightarrow> list_all editing cs \<and> (\<forall>i \<le> length cs. length (foldl edit [] (take i cs)) < n)"

lemma fits_code: "fits n cs = (list_all editing cs \<and>
    list_all (\<lambda>i. length (foldl edit [] (take i cs)) < n) [0..<Suc (length cs)])"
  by (auto simp: fits_def list_all_iff less_Suc_eq_le)

lemma fits_count:
  assumes "fits (unat n) cs" "gl_line [] g"
  shows "\<forall>i \<le> length cs. g_n (gl_fold e (take i cs) g) < n"
proof (intro allI impI)
  fix i assume "i \<le> length cs"
  then have len: "length (foldl edit [] (take i cs)) < unat n" and ed: "list_all editing (take i cs)"
    using assms(1) by (auto simp: fits_def list_all_iff dest: in_set_takeD)
  have "g_n (gl_fold e (take i cs) g) = of_nat (length (foldl edit [] (take i cs)))"
    using gl_fold_line [OF assms(2) ed] by (simp add: gl_line_def)
  then show "g_n (gl_fold e (take i cs) g) < n" using len by (simp add: word_less_nat_alt unat_of_nat)
qed

lemma GetLine_typed:
  assumes "typed (cs @ [KEYCODE_CR]) (uart s) qs" "fits (unat n) cs"
    and "h = gl_fold e cs \<lparr>g_buf = b, g_p = 0, g_n = 0, g_echo = []\<rparr>"
  shows "GetLine b n e s = Some ((g_buf h)(g_p h := 0), put_bytes (g_echo h) (s\<lparr>uart := qs\<rparr>))"
  using gl_loop_typed [OF assms(1)] fits_count [OF assms(2) gl_start_line] assms(2,3)
  by (simp add: GetLine_def fits_def gl_char_def keycodes)

text \<open>C30: Line input. Whatever is typed before CR, as long as it fits, leaves the edited line in the buffer as
  a string, where a backspace (or DEL) removes the last character if there is one and a TAB stands
  for eight spaces; exactly these bytes are taken from the UART.\<close>

theorem GetLine_edits:
  assumes "typed (cs @ [KEYCODE_CR]) (uart s) qs" "fits (unat n) cs" "0 \<notin> set cs"
  shows "\<exists>b' echo. GetLine b n e s = Some (b', s\<lparr>uart := qs, console_out := console_out s @ echo\<rparr>)
    \<and> is_cstr b' 0 (foldl edit [] cs)"
proof -
  let ?g = "\<lparr>g_buf = b, g_p = 0, g_n = 0, g_echo = []\<rparr>" let ?h = "gl_fold e cs ?g"
  have line: "gl_line (foldl edit [] cs) ?h"
    using gl_fold_line [OF gl_start_line] assms(2) by (simp add: fits_def)
  have "0 \<notin> set (foldl edit [] cs)" using assms(3) by (intro edit_nonzero) simp_all
  then have "is_cstr ((g_buf ?h)(length (foldl edit [] cs) := 0)) 0 (foldl edit [] cs)"
    using line by (intro is_cstrI) (auto simp: gl_line_def dest: nth_mem)
  moreover have "GetLine b n e s = Some ((g_buf ?h)(length (foldl edit [] cs) := 0),
      s\<lparr>uart := qs, console_out := console_out s @ concat (map serial_outc (g_echo ?h))\<rparr>)"
    using GetLine_typed [OF assms(1,2) refl] line by (simp add: put_bytes_def gl_line_def)
  ultimately show ?thesis by blast
qed

text \<open>A console with nothing printed, and what its polls will find.\<close>

definition sample_console :: "u8 option list \<Rightarrow> console_state" where
  "sample_console ps = http_state.extend ((sample_http no_session (\<lambda>_. 0))\<lparr>uart := ps\<rparr>)
     \<lparr>console_out = [], line_buf = \<lambda>_. 0, answer_buf = \<lambda>_. 0\<rparr>"

lemma sample_console_simps [simp]:
  "uart (sample_console ps) = ps" "console_out (sample_console ps) = []" "run (sample_console ps) = Running"
  "line_buf (sample_console ps) = (\<lambda>_. 0)" "answer_buf (sample_console ps) = (\<lambda>_. 0)"
  "flash (sample_console ps) = sample_flash" "mem (sample_console ps) = (\<lambda>_. 0)"
  "uart_update (\<lambda>_. qs) (sample_console ps) = sample_console qs"
  by (simp_all add: sample_console_def sample_http_def sample_dhcp_def http_state.extend_def dhcp_state.extend_def)

text \<open>Three characters, of which the last is taken back and replaced.\<close>

lemma GetLine_edits_witness:
  "\<exists>b' echo. GetLine (\<lambda>_. 0) 128 True (sample_console [Some 68, None, Some 66, Some 67, Some 8, Some 87, Some 13])
      = Some (b', sample_console []\<lparr>console_out := echo\<rparr>) \<and> is_cstr b' 0 (ascii ''DBW'')"
proof -
  have "fits 128 [68, 66, 67, 8, 87]" unfolding fits_code by code_simp
  then have "fits (unat (128 :: u32)) [68, 66, 67, 8, 87]" by simp
  from GetLine_edits [OF _ this, of "sample_console [Some 68, None, Some 66, Some 67, Some 8, Some 87, Some 13]" "[]" "\<lambda>_. 0" True]
  show ?thesis by (simp add: edit_def keycodes)
qed

text \<open>What one character may write and how far it moves.\<close>

definition gl_ok :: "getline \<Rightarrow> bool" where "gl_ok g \<longleftrightarrow> unat (g_n g) = g_p g"

definition key_width :: "u8 \<Rightarrow> nat" where "key_width c = (if c = KEYCODE_TAB then TAB else 1)"

lemma gl_puts_bounds:
  assumes "gl_ok g" "g_p g + j < 2 ^ 32"
  shows "gl_ok ((gl_put e c ^^ j) g) \<and> g_p ((gl_put e c ^^ j) g) = g_p g + j
    \<and> (\<forall>k. k < g_p g \<or> g_p g + j \<le> k \<longrightarrow> g_buf ((gl_put e c ^^ j) g) k = g_buf g k)"
  using assms(2)
proof (induction j)
  case 0
  then show ?case using assms(1) by simp
next
  case (Suc j)
  define h where "h = (gl_put e c ^^ j) g"
  have IH: "gl_ok h" "g_p h = g_p g + j" "\<forall>k. k < g_p g \<or> g_p g + j \<le> k \<longrightarrow> g_buf h k = g_buf g k"
    using Suc by (simp_all add: h_def)
  have "unat (g_n h + 1) = unat (g_n h) + 1"
    using IH(1,2) Suc.prems by (simp add: gl_ok_def unat_word_ariths)
  moreover have "(gl_put e c ^^ Suc j) g = gl_put e c h" by (simp add: h_def)
  ultimately show ?case using IH by (simp only:) (simp add: gl_put_def gl_ok_def)
qed

lemma gl_char_bounds:
  assumes "gl_char e c g = (stop, h)" "gl_ok g" "g_p g + 8 < 2 ^ 32"
  shows "\<not> stop \<longrightarrow> gl_ok h" "g_p h \<le> g_p g + key_width c"
    "\<forall>k. k \<ge> g_p g + key_width c \<longrightarrow> g_buf h k = g_buf g k"
proof -
  consider "c = KEYCODE_TAB" | "c = KEYCODE_CR \<or> c = KEYCODE_LF" | "c = KEYCODE_BS \<or> c = KEYCODE_CTRL_BS"
    | "c \<noteq> KEYCODE_TAB" "c \<noteq> KEYCODE_CR" "c \<noteq> KEYCODE_LF" "c \<noteq> KEYCODE_BS" "c \<noteq> KEYCODE_CTRL_BS" by blast
  then have "(\<not> stop \<longrightarrow> gl_ok h) \<and> g_p h \<le> g_p g + key_width c \<and> (\<forall>k. k \<ge> g_p g + key_width c \<longrightarrow> g_buf h k = g_buf g k)"
  proof cases
    case 1
    then have "h = (gl_put e 32 ^^ 8) g" using assms(1) by (simp add: gl_char_def keycodes)
    then show ?thesis using gl_puts_bounds [of g 8 e 32] assms(2,3) by (simp add: 1 key_width_def TAB_def)
  next
    case 3
    have "unat (g_n g - 1) = g_p g - 1" if "g_p g \<noteq> 0"
    proof -
      have "g_n g \<noteq> 0" using that assms(2) by (auto simp: gl_ok_def)
      then show ?thesis using assms(2) unat_minus_one [of "g_n g"] by (simp add: gl_ok_def)
    qed
    then show ?thesis using 3 assms(1,2) by (auto simp: gl_char_def keycodes key_width_def gl_ok_def split: if_splits)
  next
    case 4
    then have "h = (gl_put e c ^^ 1) g" using assms(1) by (simp add: gl_char_def)
    then show ?thesis using gl_puts_bounds [of g 1 e c] assms(2,3) 4 by (simp add: key_width_def)
  qed (use assms in \<open>auto simp: gl_char_def keycodes key_width_def\<close>)
  then show "\<not> stop \<longrightarrow> gl_ok h" "g_p h \<le> g_p g + key_width c"
    "\<forall>k. k \<ge> g_p g + key_width c \<longrightarrow> g_buf h k = g_buf g k" by blast+
qed

lemma serial_inc_set: "serial_inc ps = Some (c, rs) \<Longrightarrow> Some c \<in> set ps \<and> set rs \<subseteq> set ps"
  by (induction ps rule: serial_inc.induct) auto

lemma gl_loop_bounds:
  assumes "gl_loop n e ps g = Some (h, qs)" "unat n + 15 < 2 ^ 32" "gl_ok g" "g_p g < unat n + 8"
  shows "\<forall>k \<ge> unat n + (if Some KEYCODE_TAB \<in> set ps then 7 else 0). g_buf h k = g_buf g k"
  using assms
proof (induction n e ps g rule: gl_loop.induct)
  case (1 n e ps g)
  show ?case
  proof (cases "g_n g < n")
    case True
    have p: "g_p g < unat n" using True 1(5) by (simp add: gl_ok_def word_less_nat_alt)
    obtain c rs where c: "serial_inc ps = Some (c, rs)"
      using 1(3) True by (cases "serial_inc ps") (auto simp: gl_loop.simps [of n e ps g])
    note cs = serial_inc_set [OF c]
    have sub: "unat n + (if Some KEYCODE_TAB \<in> set rs then 7 else 0) \<le> unat n + (if Some KEYCODE_TAB \<in> set ps then 7 else 0)"
      using cs by auto
    show ?thesis
    proof (cases "c = 0xFF")
      case True
      have "gl_loop n e rs g = Some (h, qs)" using 1(3) \<open>g_n g < n\<close> c True by (subst (asm) gl_loop.simps) simp
      from 1(1) [OF \<open>g_n g < n\<close> c refl True this 1(4) 1(5) 1(6)] show ?thesis using sub le_trans by blast
    next
      case False
      obtain stop g' where g': "gl_char e c g = (stop, g')" by (cases "gl_char e c g")
      note ch = gl_char_bounds [OF g' 1(5)]
      have here: "g_buf g' k = g_buf g k" if "k \<ge> unat n + (if Some KEYCODE_TAB \<in> set ps then 7 else 0)" for k
        using ch(3) that p cs 1(4) by (auto simp: key_width_def TAB_def split: if_splits)
      show ?thesis
      proof (cases stop)
        case True
        then have "h = g'" using 1(3) \<open>g_n g < n\<close> c False g' by (subst (asm) gl_loop.simps) simp
        then show ?thesis using here by simp
      next
        case go: False
        have "gl_loop n e rs g' = Some (h, qs)" using 1(3) \<open>g_n g < n\<close> c False g' go by (subst (asm) gl_loop.simps) simp
        from 1(2) [OF \<open>g_n g < n\<close> c refl False _ _ this 1(4)] have "\<forall>k \<ge> unat n + (if Some KEYCODE_TAB \<in> set rs then 7 else 0). g_buf h k = g_buf g' k"
          using g' go ch(1,2) p 1(4) by (auto simp: key_width_def TAB_def split: if_splits)
        then have "g_buf h k = g_buf g' k" if "k \<ge> unat n + (if Some KEYCODE_TAB \<in> set ps then 7 else 0)" for k
          using that sub by (meson le_trans)
        then show ?thesis using here by simp
      qed
    qed
  next
    case False
    then show ?thesis using 1(3) by (subst (asm) gl_loop.simps) simp
  qed
qed

text \<open>C31: The bounds of line input. Whatever arrives, \<open>GetLine\<close> writes only to the first \<open>n\<close> bytes of the
  buffer as long as no TAB is typed, and to at most seven bytes behind them otherwise; all seven are
  written when a TAB is typed where one more character fits. The buffer of the monitor has \<open>n + 1\<close>
  bytes, so its stack frame is overwritten then.\<close>

theorem GetLine_bounds:
  assumes "unat n + 15 < 2 ^ 32"
  shows "(GetLine b n e s = Some (b', t) \<longrightarrow>
      (\<forall>k \<ge> unat n + 7. b' k = b k) \<and> (Some KEYCODE_TAB \<notin> set (uart s) \<longrightarrow> (\<forall>k \<ge> unat n. b' k = b k)))
    \<and> (typed (cs @ [KEYCODE_TAB]) (uart s) qs \<and> fits (unat n) cs \<and> length (foldl edit [] cs) + 1 = unat n \<longrightarrow>
      (\<exists>b' t. GetLine b n e s = Some (b', t) \<and> (\<forall>k < 7. b' (unat n + k) = 32)))"
proof
  let ?g = "\<lparr>g_buf = b, g_p = 0, g_n = 0, g_echo = []\<rparr>"
  show "GetLine b n e s = Some (b', t) \<longrightarrow>
      (\<forall>k \<ge> unat n + 7. b' k = b k) \<and> (Some KEYCODE_TAB \<notin> set (uart s) \<longrightarrow> (\<forall>k \<ge> unat n. b' k = b k))"
  proof
    assume "GetLine b n e s = Some (b', t)"
    then obtain h ps where h: "gl_loop n e (uart s) ?g = Some (h, ps)" "b' = g_buf h"
      by (auto simp: GetLine_def split: Option.bind_splits)
    have "\<forall>k \<ge> unat n + (if Some KEYCODE_TAB \<in> set (uart s) then 7 else 0). b' k = b k"
      using gl_loop_bounds [OF h(1) assms] by (simp add: gl_ok_def h(2))
    then show "(\<forall>k \<ge> unat n + 7. b' k = b k) \<and> (Some KEYCODE_TAB \<notin> set (uart s) \<longrightarrow> (\<forall>k \<ge> unat n. b' k = b k))"
      by (auto split: if_splits)
  qed
  show "typed (cs @ [KEYCODE_TAB]) (uart s) qs \<and> fits (unat n) cs \<and> length (foldl edit [] cs) + 1 = unat n \<longrightarrow>
      (\<exists>b' t. GetLine b n e s = Some (b', t) \<and> (\<forall>k < 7. b' (unat n + k) = 32))"
  proof
    assume typed: "typed (cs @ [KEYCODE_TAB]) (uart s) qs \<and> fits (unat n) cs \<and> length (foldl edit [] cs) + 1 = unat n"
    let ?h = "gl_fold e (cs @ [KEYCODE_TAB]) ?g" and ?l = "foldl edit [] (cs @ [KEYCODE_TAB])"
    have ed: "list_all editing (cs @ [KEYCODE_TAB])" using typed by (simp add: fits_def editing_def keycodes)
    have "\<forall>i < length (cs @ [KEYCODE_TAB]). g_n (gl_fold e (take i (cs @ [KEYCODE_TAB])) ?g) < n"
      using fits_count [OF _ gl_start_line, of n cs] typed by (auto simp: less_Suc_eq_le)
    then have loop: "gl_loop n e (uart s) ?g = gl_loop n e qs ?h"
      using gl_loop_prefix [OF _ ed] typed by blast
    have line: "gl_line ?l ?h" by (rule gl_fold_line [OF gl_start_line ed])
    have len: "length ?l = unat n + 7" using typed by (simp add: edit_def keycodes)
    have "g_n ?h = of_nat (unat n + 7)" using line unfolding gl_line_def len by blast
    then have "unat (g_n ?h) = unat n + 7" using assms by (simp only: unat_of_nat) simp
    then have "\<not> g_n ?h < n" by (simp add: word_less_nat_alt)
    then have stop: "gl_loop n e (uart s) ?g = Some (?h, qs)" unfolding loop by (subst gl_loop.simps) simp
    have "g_buf ?h (unat n + k) = 32" if "k < 7" for k
    proof -
      have "g_buf ?h (unat n + k) = ?l ! (unat n + k)" using line len that by (simp add: gl_line_def)
      also have "\<dots> = 32" using typed that by (auto simp: edit_def keycodes nth_append)
      finally show ?thesis .
    qed
    then show "\<exists>b' t. GetLine b n e s = Some (b', t) \<and> (\<forall>k < 7. b' (unat n + k) = 32)"
      using stop by (simp add: GetLine_def)
  qed
qed

text \<open>The two bytes for an answer, and a TAB behind its first letter.\<close>

lemma GetLine_bounds_witness:
  "\<exists>b' t. GetLine (\<lambda>_. 0) 2 True (sample_console [Some 89, Some 9]) = Some (b', t) \<and> (\<forall>k < 7. b' (2 + k) = 32)"
proof -
  have "fits 2 [89]" unfolding fits_code by code_simp
  then have "fits (unat (2 :: u32)) [89]" by simp
  then show ?thesis
    using GetLine_bounds [of 2 "\<lambda>_. 0" True "sample_console [Some 89, Some 9]" _ _ "[89]" "[]"]
    by (simp add: edit_def keycodes)
qed

section \<open>Words of a line\<close>

text \<open>The words of a line on lists: maximal pieces without a blank.\<close>

function words :: "u8 list \<Rightarrow> u8 list list" where
  "words l =
     (let l = dropWhile (\<lambda>c. c = 32) l
      in if l = [] then [] else takeWhile (\<lambda>c. c \<noteq> 32) l # words (dropWhile (\<lambda>c. c \<noteq> 32) l))"
  by pat_completeness auto
termination
proof (relation "measure length", simp, goal_cases)
  case (1 l x)
  obtain c cs where x: "x = c # cs" using 1(2) by (cases x) auto
  then have "dropWhile (\<lambda>c. c = 32) l = c # cs" using 1(1) by simp
  then have "c \<noteq> 32" using hd_dropWhile [of "\<lambda>c. c = 32" l] by simp
  then have "length (dropWhile (\<lambda>c. c \<noteq> 32) x) < length x"
    using length_dropWhile_le [of "\<lambda>c. c \<noteq> 32" cs] by (simp add: x)
  moreover have "length x \<le> length l" using 1 by (simp add: length_dropWhile_le)
  ultimately show ?case by simp
qed

declare words.simps [simp del]

lemma words_Nil [simp]: "words [] = []"
  by (simp add: words.simps)

lemma words_blank [simp]: "words (32 # l) = words l"
  by (subst (1 2) words.simps) simp

lemma words_word: "c \<noteq> 32 \<Longrightarrow> words (c # l) = takeWhile (\<lambda>c. c \<noteq> 32) (c # l) # words (dropWhile (\<lambda>c. c \<noteq> 32) (c # l))"
  by (subst words.simps) simp

text \<open>The scans over a string.\<close>

lemma skip_word_cstr: "is_cstr b p l \<Longrightarrow> skip_word b p = Some (p + length (takeWhile (\<lambda>c. c \<noteq> 32) l))"
  by (induction l arbitrary: p) (simp_all add: skip_word.simps)

lemma is_cstr_dropWhile: "is_cstr b p l \<Longrightarrow> is_cstr b (p + length (takeWhile P l)) (dropWhile P l)"
  using is_cstr_drop [of b p l "length (takeWhile P l)"] by (simp add: dropWhile_eq_drop length_takeWhile_le)

lemma argc_loop_words: "is_cstr b p l \<Longrightarrow> argc_loop b p n = Some (n + length (words l))"
proof (induction l arbitrary: p n rule: length_induct)
  case (1 l)
  show ?case
  proof (cases l)
    case Nil
    then show ?thesis using 1(2) by (simp add: argc_loop.simps)
  next
    case (Cons c r)
    then have c: "c \<noteq> 0" "b p = c" "is_cstr b (Suc p) r" using 1(2) by auto
    show ?thesis
    proof (cases "c = 32")
      case True
      then show ?thesis using 1(1) [rule_format, of r "Suc p" n] c Cons by (simp add: argc_loop.simps [of b p])
    next
      case False
      let ?e = "p + length (takeWhile (\<lambda>c. c \<noteq> 32) l)"
      have "length (dropWhile (\<lambda>c. c \<noteq> 32) l) < length l"
        using False Cons length_dropWhile_le [of "\<lambda>c. c \<noteq> 32" r] by simp
      then have "argc_loop b ?e (Suc n) = Some (Suc n + length (words (dropWhile (\<lambda>c. c \<noteq> 32) l)))"
        using 1(1) is_cstr_dropWhile [OF 1(2)] by blast
      then show ?thesis using skip_word_cstr [OF 1(2)] c False words_word [OF False, of r] Cons
        by (simp add: argc_loop.simps [of b p])
    qed
  qed
qed

lemma GetArgc_words: "is_cstr b 0 l \<Longrightarrow> GetArgc b = Some (min (MAX_ARGV - 1) (length (words l)))"
  by (auto simp: GetArgc_def argc_loop_words)

lemma is_cstr_cong: "is_cstr b p l \<Longrightarrow> (\<And>k. p \<le> k \<Longrightarrow> k \<le> p + length l \<Longrightarrow> b' k = b k) \<Longrightarrow> is_cstr b' p l"
  by (induction l arbitrary: p) auto

lemma skip_blanks_cstr: "is_cstr b p l \<Longrightarrow> skip_blanks b p = Some (p + length (takeWhile (\<lambda>c. c = 32) l))"
  by (induction l arbitrary: p) (auto simp: skip_blanks.simps)

lemma words_dropWhile: "words (dropWhile (\<lambda>c. c = 32) l) = words l"
  by (induction l) auto

text \<open>
  The words of \<open>l\<close> stand in the buffer as strings of their own, and the entries from \<open>n\<close> on point
  to them; nothing else changes.
\<close>

definition split_at :: "nat \<Rightarrow> nat \<Rightarrow> u8 list \<Rightarrow> buffer \<Rightarrow> argv \<Rightarrow> buffer \<Rightarrow> argv \<Rightarrow> bool" where
  "split_at p n l b av b' av' \<longleftrightarrow>
     length av' = length av \<and> (\<forall>k. k < p \<or> p + length l \<le> k \<longrightarrow> b' k = b k)
     \<and> (\<forall>i < length (words l). \<exists>q \<ge> p. av' ! (n + i) = Some q \<and> is_cstr b' q (words l ! i)
          \<and> (if i = 0 then q = p else p + length (words l ! 0) < q) \<and> q + length (words l ! i) \<le> p + length l)
     \<and> (\<forall>i. i < n \<or> n + length (words l) \<le> i \<longrightarrow> av' ! i = av ! i)"

lemma split_atD:
  "split_at p n l b av b' av' \<Longrightarrow> i < length (words l) \<Longrightarrow>
     \<exists>q \<ge> p. av' ! (n + i) = Some q \<and> is_cstr b' q (words l ! i) \<and> (if i = 0 then q = p else p + length (words l ! 0) < q)
       \<and> q + length (words l ! i) \<le> p + length l"
  by (simp add: split_at_def)

lemma argv_loop_one:
  assumes "is_cstr b p l" "l \<noteq> []" "hd l \<noteq> 32" "n + 1 < MAX_ARGV"
    and "skip_blanks (b(p + length (takeWhile (\<lambda>c. c \<noteq> 32) l) := 0)) (p + length (takeWhile (\<lambda>c. c \<noteq> 32) l) + 1) = Some q"
  shows "argv_loop b p n av = argv_loop (b(p + length (takeWhile (\<lambda>c. c \<noteq> 32) l) := 0)) q (n + 1) (av[n := Some p])"
proof -
  have "b p \<noteq> 0" using assms(1,2) by (cases l) auto
  then show ?thesis
    using assms(4,5) skip_word_cstr [OF assms(1)] by (simp add: argv_loop.simps [of b p])
qed

text \<open>
  After the last word the scan goes on behind the NUL of the line, unless the line ends with a blank.
\<close>

lemma argv_loop_words:
  assumes "is_cstr b p l" "l \<noteq> [] \<longrightarrow> hd l \<noteq> 32" "b (p + length l + 1) \<noteq> 32"
    and "n + length (words l) < MAX_ARGV" "length av = MAX_ARGV"
  shows "\<exists>b' av'. argv_loop b p n av
      = argv_loop b' (p + length l + (if l \<noteq> [] \<and> last l \<noteq> 32 then 1 else 0)) (n + length (words l)) av'
    \<and> split_at p n l b av b' av'"
  using assms
proof (induction l arbitrary: b p n av rule: length_induct)
  case (1 l)
  note cstr = 1(2) and first = 1(3) and stop = 1(4) and room = 1(5) and av = 1(6)
  show ?case
  proof (cases "l = []")
    case True
    then show ?thesis by (intro exI [of _ b] exI [of _ av]) (simp add: split_at_def)
  next
    case False
    let ?w = "takeWhile (\<lambda>c. c \<noteq> 32) l" and ?r = "dropWhile (\<lambda>c. c \<noteq> 32) l"
    let ?e = "p + length ?w" let ?b = "b(?e := 0)" and ?av = "av[n := Some p]"
    have l: "l = ?w @ ?r" by simp
    have words: "words l = ?w # words ?r" using words_word first False by (cases l) auto
    have len: "length l = length ?w + length ?r" using l length_append [of ?w ?r] by simp
    have w: "is_cstr b' p ?w" if "\<And>k. k < ?e \<Longrightarrow> b' k = b k" "b' ?e = 0" for b'
    proof (rule is_cstrI)
      fix k assume "k < length ?w"
      then have "k < length l" "?w ! k = l ! k" "b' (p + k) = b (p + k)"
        using length_takeWhile_le [of "\<lambda>c. c \<noteq> 32" l] that(1) [of "p + k"] by (simp_all add: takeWhile_nth)
      then show "b' (p + k) = ?w ! k \<and> ?w ! k \<noteq> 0" using is_cstr_nth [OF cstr, of k] by simp
    qed (simp add: that(2))
    show ?thesis
    proof (cases "?r = []")
      case True
      then have wl: "?w = l" using l by (metis append_Nil2)
      have e0: "b ?e = 0" using is_cstr_end [OF cstr] unfolding wl .
      then have b: "?b = b" by auto
      have "skip_blanks b (?e + 1) = Some (?e + 1)" using stop unfolding wl by (simp add: skip_blanks.simps)
      then have skip: "skip_blanks ?b (?e + 1) = Some (?e + 1)" unfolding b .
      have hd: "hd l \<noteq> 32" using first False by blast
      have n1: "n + 1 < MAX_ARGV" using room unfolding words True by simp
      have "argv_loop b p n av = argv_loop b (?e + 1) (n + 1) ?av"
        using argv_loop_one [OF cstr False hd n1 skip] unfolding b .
      moreover have "last l \<noteq> 32"
      proof -
        have "\<forall>c \<in> set l. c \<noteq> 32" using True unfolding dropWhile_eq_Nil_conv .
        then show ?thesis using last_in_set [OF False] by (rule bspec)
      qed
      moreover have "split_at p n l b av b ?av"
        unfolding split_at_def words True using room words av w [of b] e0 length_takeWhile_le [of _ l] by auto
      ultimately show ?thesis using False unfolding wl words True by (intro exI [of _ b] exI [of _ ?av]) simp
    next
      case rest: False
      obtain r where r: "?r = 32 # r"
        using rest hd_dropWhile [of "\<lambda>c. c \<noteq> 32" l] by (cases ?r) auto
      let ?r' = "dropWhile (\<lambda>c. c = 32) r" and ?q = "?e + 1 + length (takeWhile (\<lambda>c. c = 32) r)"
      have cstr_r: "is_cstr b (?e + 1) r" using is_cstr_dropWhile [OF cstr, of "\<lambda>c. c \<noteq> 32"] r by simp
      then have "is_cstr ?b (?e + 1) r" by (rule is_cstr_cong) simp
      then have skip: "skip_blanks ?b (?e + 1) = Some ?q" using skip_blanks_cstr by fastforce
      have cstr': "is_cstr ?b ?q ?r'" using is_cstr_dropWhile [OF cstr_r] by (rule is_cstr_cong) simp
      have words': "words ?r' = words ?r" by (simp add: r words_dropWhile)
      have len_r: "length r = length (takeWhile (\<lambda>c. c = 32) r) + length ?r'"
        using length_append [of "takeWhile (\<lambda>c. c = 32) r" ?r'] by simp
      have len': "?q + length ?r' = p + length l" using len len_r r by simp
      have "n + 1 < MAX_ARGV \<or> words ?r = []" using room words by (cases "words ?r") auto
      have "n + 1 < MAX_ARGV" using room words by simp
      then have one: "argv_loop b p n av = argv_loop ?b ?q (n + 1) ?av"
        using argv_loop_one [OF cstr False] first False skip by simp
      have "length ?r' < length l" using len len_r r by simp
      moreover have "?r' \<noteq> [] \<longrightarrow> hd ?r' \<noteq> 32" using hd_dropWhile [of "\<lambda>c. c = 32" r] by auto
      moreover have "?b (?q + length ?r' + 1) \<noteq> 32" using stop unfolding len' [symmetric] by simp
      moreover have "(n + 1) + length (words ?r') < MAX_ARGV" using room words words' by simp
      moreover have "length ?av = MAX_ARGV" using av by simp
      ultimately obtain b' av' where IH: "argv_loop ?b ?q (n + 1) ?av
          = argv_loop b' (?q + length ?r' + (if ?r' \<noteq> [] \<and> last ?r' \<noteq> 32 then 1 else 0)) (n + 1 + length (words ?r')) av'"
        "split_at ?q (n + 1) ?r' ?b ?av b' av'"
        using 1(1) [rule_format, OF _ cstr'] by blast
      have "l = ?w @ 32 # r" using l r by simp
      then have "last l = last (32 # r)" by (metis last_appendR list.distinct(1))
      moreover have "last (32 # r) = (if ?r' = [] then 32 else last ?r')"
        using last_in_set [of r] last_appendR [of ?r' "takeWhile (\<lambda>c. c = 32) r"] by auto
      ultimately have last: "(?r' \<noteq> [] \<and> last ?r' \<noteq> 32) = (l \<noteq> [] \<and> last l \<noteq> 32)" using False by simp
      have loop: "argv_loop b p n av
          = argv_loop b' (p + length l + (if l \<noteq> [] \<and> last l \<noteq> 32 then 1 else 0)) (n + length (words l)) av'"
        unfolding one IH(1) last len' words words' by simp
      have outside: "b' k = ?b k" if "k < ?q \<or> p + length l \<le> k" for k
        using IH(2) that unfolding split_at_def len' by blast
      have cnt: "n + length (words l) = n + 1 + length (words ?r')" by (simp add: words words')
      have entry: "av' ! i = ?av ! i" if "i < n + 1 \<or> n + length (words l) \<le> i" for i
        using IH(2) that unfolding split_at_def cnt by blast
      have "is_cstr b' p ?w" using outside by (intro w) simp_all
      moreover have "av' ! n = Some p" using entry [of n] room av by simp
      moreover have later: "\<exists>q \<ge> p. av' ! (n + Suc i) = Some q \<and> is_cstr b' q (words ?r ! i) \<and> ?e < q
          \<and> q + length (words ?r ! i) \<le> p + length l" if "i < length (words ?r)" for i
      proof -
        have "i < length (words ?r')" using that words' by simp
        from split_atD [OF IH(2) this] obtain q
          where "?q \<le> q" "av' ! (n + 1 + i) = Some q" "is_cstr b' q (words ?r' ! i)"
            "q + length (words ?r' ! i) \<le> ?q + length ?r'" by (elim exE conjE)
        then show ?thesis unfolding words' len' by (intro exI [of _ q]) simp
      qed
      ultimately have "\<exists>q \<ge> p. av' ! (n + i) = Some q \<and> is_cstr b' q (words l ! i)
          \<and> (if i = 0 then q = p else p + length (words l ! 0) < q) \<and> q + length (words l ! i) \<le> p + length l"
        if "i < length (words l)" for i
      proof (cases i)
        case 0
        then show ?thesis using \<open>is_cstr b' p ?w\<close> \<open>av' ! n = Some p\<close> words len by simp
      next
        case (Suc j)
        then have "j < length (words ?r)" using that words by simp
        then obtain q where q: "q \<ge> p" "av' ! (n + Suc j) = Some q" "is_cstr b' q (words ?r ! j)" "?e < q"
            "q + length (words ?r ! j) \<le> p + length l"
          using later by blast
        have "words l ! i = words ?r ! j" "words l ! 0 = ?w" "i \<noteq> 0" by (simp_all add: words Suc)
        then show ?thesis using q unfolding Suc by (intro exI [of _ q]) simp
      qed
      moreover have "length av' = length av" using IH(2) by (simp add: split_at_def)
      moreover have "b' k = b k" if "k < p \<or> p + length l \<le> k" for k using outside [of k] that len len_r r by auto
      moreover have "av' ! i = av ! i" if "i < n \<or> n + length (words l) \<le> i" for i
        using entry [of i] that words by auto
      ultimately have "split_at p n l b av b' av'" unfolding split_at_def by blast
      then show ?thesis using loop by blast
    qed
  qed
qed

lemma GetArgv_split:
  assumes "is_cstr b 0 l" "l \<noteq> [] \<longrightarrow> hd l \<noteq> 32" "b (length l + 1) = 0" "length (words l) < MAX_ARGV"
  shows "\<exists>b' av. GetArgv b = Some (b', av) \<and> split_at 0 0 l b (replicate MAX_ARGV None) b' av"
proof -
  let ?av = "replicate MAX_ARGV None"
  obtain b' av q where av: "GetArgv b = argv_loop b' q (length (words l)) av" "split_at 0 0 l b ?av b' av"
      "q = length l \<or> q = length l + 1"
    using argv_loop_words [OF assms(1,2), of 0 ?av] assms(3,4) unfolding GetArgv_def by (auto split: if_splits)
  have "b q = 0" using av(3) assms(3) is_cstr_end [OF assms(1)] by auto
  then have "b' q = 0" using av(2,3) by (auto simp: split_at_def)
  then have "GetArgv b = Some (b', av)" by (simp add: av(1) argv_loop.simps)
  then show ?thesis using av(2) by blast
qed

text \<open>C32: Splitting a line. For a line that does not begin with a blank, has fewer than 20 words and a
  second NUL behind its end (nothing deleted is left there), \<open>GetArgc\<close> is the number of its words, and the entries of \<open>GetArgv\<close> are its words in their order, each
  a string of its own, followed by null pointers.\<close>

theorem GetArgv_words:
  assumes "is_cstr b 0 l" "l \<noteq> [] \<longrightarrow> hd l \<noteq> 32" "b (length l + 1) = 0" "length (words l) < MAX_ARGV"
  shows "GetArgc b = Some (length (words l)) \<and>
    (\<exists>b' av. GetArgv b = Some (b', av) \<and> length av = MAX_ARGV
      \<and> (\<forall>i < length (words l). \<exists>q. av ! i = Some q \<and> is_cstr b' q (words l ! i))
      \<and> (\<forall>i. length (words l) \<le> i \<and> i < MAX_ARGV \<longrightarrow> av ! i = None))"
proof -
  obtain b' av where av: "GetArgv b = Some (b', av)" "split_at 0 0 l b (replicate MAX_ARGV None) b' av"
    using GetArgv_split [OF assms] by blast
  moreover have "GetArgc b = Some (length (words l))" using GetArgc_words [OF assms(1)] assms(4) by simp
  moreover have "\<exists>q. av ! i = Some q \<and> is_cstr b' q (words l ! i)" if "i < length (words l)" for i
    using split_atD [OF av(2) that] by auto
  moreover have "length av = MAX_ARGV" "\<forall>i. length (words l) \<le> i \<and> i < MAX_ARGV \<longrightarrow> av ! i = None"
    using av(2) by (simp_all add: split_at_def)
  ultimately show ?thesis by (intro conjI exI [of _ b'] exI [of _ av] allI impI) auto
qed

lemma GetArgv_words_witness:
  "GetArgc (buf_of (ascii ''EW 80 1'')) = Some 3 \<and>
    (\<exists>b' av. GetArgv (buf_of (ascii ''EW 80 1'')) = Some (b', av) \<and> length av = MAX_ARGV
      \<and> (\<forall>i < 3. \<exists>q. av ! i = Some q \<and> is_cstr b' q ([ascii ''EW'', ascii ''80'', ascii ''1''] ! i))
      \<and> (\<forall>i. 3 \<le> i \<and> i < MAX_ARGV \<longrightarrow> av ! i = None))"
proof -
  have w: "words (ascii ''EW 80 1'') = [ascii ''EW'', ascii ''80'', ascii ''1'']"
    by (simp add: words.simps)
  have n: "length (words (ascii ''EW 80 1'')) = 3" unfolding w by simp
  have "is_cstr (buf_of (ascii ''EW 80 1'')) 0 (ascii ''EW 80 1'')" by (simp add: buf_of_def nth_default_def)
  moreover have "buf_of (ascii ''EW 80 1'') (length (ascii ''EW 80 1'') + 1) = 0" by (simp add: buf_of_def nth_default_def)
  ultimately show ?thesis
    using GetArgv_words [of "buf_of (ascii ''EW 80 1'')" "ascii ''EW 80 1''"] unfolding n unfolding w
    by (simp add: MAX_ARGV_def)
qed

section \<open>Plain lines\<close>

definition plain :: "u8 \<Rightarrow> bool" where
  "plain c \<longleftrightarrow> 32 \<le> c \<and> c < 127"

definition overlay :: "nat \<Rightarrow> u8 list \<Rightarrow> buffer \<Rightarrow> buffer" where
  "overlay p l b = (\<lambda>k. if p \<le> k \<and> k < p + length l then l ! (k - p) else b k)"

lemma plain_key:
  assumes "plain c"
  shows "editing c" "c \<noteq> 0" "c \<noteq> KEYCODE_BS" "c \<noteq> KEYCODE_CTRL_BS" "c \<noteq> KEYCODE_TAB" "c \<noteq> KEYCODE_LF"
  using assms by (auto simp: plain_def editing_def keycodes)

lemma overlay_Nil: "overlay p [] b = b"
  by (auto simp: overlay_def fun_eq_iff)

lemma gl_fold_plain:
  "list_all plain cs \<Longrightarrow> gl_fold e cs g = g\<lparr>g_buf := overlay (g_p g) cs (g_buf g), g_p := g_p g + length cs,
     g_n := g_n g + of_nat (length cs), g_echo := g_echo g @ (if e then cs else [])\<rparr>"
proof (induction cs arbitrary: g)
  case Nil
  then show ?case by (simp add: overlay_Nil)
next
  case (Cons c cs)
  have "gl_char e c g = (False, gl_put e c g)"
    using Cons.prems plain_key [of c] by (auto simp: gl_char_def editing_def)
  moreover have "overlay (Suc (g_p g)) cs ((g_buf g)(g_p g := c)) = overlay (g_p g) (c # cs) (g_buf g)"
    by (auto simp: overlay_def fun_eq_iff nth_Cons' Suc_diff_le not_less_eq_eq le_Suc_eq)
  ultimately show ?case using Cons by (simp add: gl_put_def add.assoc)
qed

lemma gl_fold_backspaces:
  "k \<le> g_p g \<Longrightarrow> gl_fold e (replicate k KEYCODE_BS) g = g\<lparr>g_p := g_p g - k, g_n := g_n g - of_nat k,
     g_echo := g_echo g @ concat (replicate k (if e then [KEYCODE_BS, 32, KEYCODE_BS] else []))\<rparr>"
proof (induction k arbitrary: g)
  case (Suc k)
  have "gl_char e KEYCODE_BS g = (False, g\<lparr>g_p := g_p g - 1, g_n := g_n g - 1,
      g_echo := g_echo g @ (if e then [KEYCODE_BS, 32, KEYCODE_BS] else [])\<rparr>)"
    using Suc.prems by (simp add: gl_char_def keycodes)
  then show ?case using Suc by (simp add: algebra_simps)
qed simp

lemma edit_length:
  "KEYCODE_TAB \<notin> set cs \<Longrightarrow>
     length (foldl edit l cs) \<le> length l + length (filter (\<lambda>c. c \<noteq> KEYCODE_BS \<and> c \<noteq> KEYCODE_CTRL_BS) cs)"
proof (induction cs arbitrary: l)
  case (Cons c cs)
  have "length (edit l c) \<le> length l + (if c \<noteq> KEYCODE_BS \<and> c \<noteq> KEYCODE_CTRL_BS then 1 else 0)"
    using Cons.prems by (auto simp: edit_def)
  then show ?case using Cons.IH [of "edit l c"] Cons.prems by auto
qed simp

lemma fits_no_tab:
  assumes "list_all editing cs" "KEYCODE_TAB \<notin> set cs"
    and "length (filter (\<lambda>c. c \<noteq> KEYCODE_BS \<and> c \<noteq> KEYCODE_CTRL_BS) cs) < n"
  shows "fits n cs"
  unfolding fits_def
proof (intro conjI allI impI assms(1))
  fix i assume "i \<le> length cs"
  have "KEYCODE_TAB \<notin> set (take i cs)" using assms(2) by (auto dest: in_set_takeD)
  from edit_length [OF this, of "[]"]
  have "length (foldl edit [] (take i cs)) \<le> length (filter (\<lambda>c. c \<noteq> KEYCODE_BS \<and> c \<noteq> KEYCODE_CTRL_BS) (take i cs))" by simp
  also have "\<dots> \<le> length (filter (\<lambda>c. c \<noteq> KEYCODE_BS \<and> c \<noteq> KEYCODE_CTRL_BS) (take i cs @ drop i cs))"
    unfolding filter_append length_append by simp
  finally show "length (foldl edit [] (take i cs)) < n" using assms(3) by simp
qed

lemma fits_plain:
  assumes "list_all plain cs" "length cs < n"
  shows "fits n cs"
proof (rule fits_no_tab)
  show "list_all editing cs" using assms(1) plain_key(1) by (simp add: list_all_iff)
  show "KEYCODE_TAB \<notin> set cs"
    using assms(1) plain_key(5) by (metis list_all_iff)
  show "length (filter (\<lambda>c. c \<noteq> KEYCODE_BS \<and> c \<noteq> KEYCODE_CTRL_BS) cs) < n"
    using length_filter_le assms(2) by (rule le_less_trans)
qed

lemma overlay_cstr:
  assumes "list_all plain l" "b (p + length l) = 0"
  shows "is_cstr (overlay p l b) p l"
proof (rule is_cstrI)
  fix k assume k: "k < length l"
  then have "plain (l ! k)" using assms(1) by (simp add: list_all_length)
  then show "overlay p l b (p + k) = l ! k \<and> l ! k \<noteq> 0" using k plain_key(2) by (simp add: overlay_def)
next
  show "overlay p l b (p + length l) = 0" using assms(2) by (simp add: overlay_def)
qed

lemma serial_plain: "list_all plain l \<Longrightarrow> concat (map serial_outc l) = l"
  by (induction l) (auto simp: serial_outc_def plain_def)

lemma put_plain: "list_all plain l \<Longrightarrow> put_bytes l s = s\<lparr>console_out := console_out s @ l\<rparr>"
  by (simp add: put_bytes_def serial_plain)

text \<open>A line without corrections, echoed as it is.\<close>

lemma GetLine_plain:
  assumes "typed (l @ [KEYCODE_CR]) (uart s) qs" "list_all plain l" "length l < unat n"
  shows "GetLine b n True s = Some ((overlay 0 l b)(length l := 0), s\<lparr>uart := qs, console_out := console_out s @ l\<rparr>)"
proof -
  let ?g = "\<lparr>g_buf = b, g_p = 0, g_n = 0, g_echo = []\<rparr>"
  have "GetLine b n True s = Some ((g_buf (gl_fold True l ?g))(g_p (gl_fold True l ?g) := 0),
      put_bytes (g_echo (gl_fold True l ?g)) (s\<lparr>uart := qs\<rparr>))"
    by (rule GetLine_typed [OF assms(1) fits_plain [OF assms(2,3)] refl])
  then show ?thesis using put_plain [OF assms(2), of "s\<lparr>uart := qs\<rparr>"]
    by (simp add: gl_fold_plain [OF assms(2)])
qed

end
