(* ===== verification/Monitor.thy ===== *)
theory Monitor
  imports Console Netinv Xmodem Bootimage
begin

text \<open>
  The monitor, \<^verbatim>\<open>boot/monitor/monitor.c\<close>: the loop that reads a line, splits it into words and
  calls a command, the command table, and the commands on memory, flash, addresses and the serial
  receiver. A command gets \<open>argc\<close>, the line and the pointers to its words behind the name.

  \<open>None\<close> means that a command has not come back: it waits for input, reads through a null pointer,
  uses a variable nothing has set, or never ends. Commands that only touch switch and clock
  registers are the parameter \<open>other\<close> (by the name of the C function). The line buffer is not
  part of the memory the commands write.
\<close>

section \<open>Arguments\<close>

definition arg_ptr :: "argv \<Rightarrow> nat \<Rightarrow> nat option" where
  "arg_ptr av i = (if i < length av then av ! i else None)"

text \<open>\<open>strtoul(argv[i], NULL, base)\<close>.\<close>

definition num_arg :: "buffer \<Rightarrow> argv \<Rightarrow> nat \<Rightarrow> u8 \<Rightarrow> u32 option" where
  "num_arg b av i base = do { p \<leftarrow> arg_ptr av i; (v, _) \<leftarrow> strtoul b p base; Some v }"

definition nl :: "u8 list" where "nl = [10]"
definition crlf :: "u8 list" where "crlf = [13, 10]"

partial_function (option) align_word :: "u32 \<Rightarrow> u32 option" where
  "align_word src = (if src AND 0x03 \<noteq> 0 then align_word (src + 1) else Some src)"

section \<open>Memory\<close>

definition store32 :: "u32 \<Rightarrow> u32 \<Rightarrow> memory \<Rightarrow> memory" where
  "store32 a v m = write_bytes a (bytes32 v) m"

definition DW_FORMAT :: "u8 list" where
  "DW_FORMAT = ascii ''%08X:'' @ [9] @ ascii ''%08X'' @ [9] @ ascii ''%08X'' @ [9] @ ascii ''%08X'' @ [9] @ ascii ''%08X'' @ nl"

partial_function (option) dw_loop :: "u32 \<Rightarrow> u32 \<Rightarrow> u32 \<Rightarrow> 'a console_state_scheme \<Rightarrow> 'a console_state_scheme option" where
  "dw_loop len i src s =
     (if i < len then
        (case dprintf DW_FORMAT [Val src, Val (load32 (mem s) src), Val (load32 (mem s) (src + 4)),
                Val (load32 (mem s) (src + 8)), Val (load32 (mem s) (src + 12))] s of
           None \<Rightarrow> None
         | Some s \<Rightarrow> dw_loop len (i + 4) (src + 16) s)
      else Some s)"

definition CmdDumpWord :: "int \<Rightarrow> buffer \<Rightarrow> argv \<Rightarrow> 'a console_state_scheme \<Rightarrow> 'a console_state_scheme option" where
  "CmdDumpWord argc b av s =
     (if argc < 1 \<or> arg_ptr av 0 = None then dprintf (ascii ''Wrong argument number!'' @ crlf) [] s
      else do {
        src \<leftarrow> num_arg b av 0 16;
        let src = (if src < 0x80000000 then src OR 0x80000000 else src);
        len \<leftarrow> if arg_ptr av 1 = None then Some 1 else num_arg b av 1 10;
        src \<leftarrow> align_word src;
        dw_loop len 0 src s
      })"

text \<open>\<open>ddump\<close> of \<^verbatim>\<open>boot/io/misc.c\<close>: a \<open>for\<close> loop over the numbers of a list.\<close>

primrec for_each :: "(nat \<Rightarrow> 's \<Rightarrow> 's option) \<Rightarrow> nat list \<Rightarrow> 's \<Rightarrow> 's option" where
  "for_each f [] s = Some s"
| "for_each f (k # ks) s = (case f k s of None \<Rightarrow> None | Some s \<Rightarrow> for_each f ks s)"

definition ddump_row :: "u32 \<Rightarrow> nat \<Rightarrow> 'a console_state_scheme \<Rightarrow> 'a console_state_scheme option" where
  "ddump_row a offset s = do {
     s \<leftarrow> dprintf (ascii ''%08X: '') [Val a] s;
     s \<leftarrow> for_each (\<lambda>j s. dprintf (ascii ''%02x '') [Val (ucast (mem s (a + of_nat j)))] s) [0..<offset] s;
     s \<leftarrow> for_each (\<lambda>j. dprintf (ascii ''   '') []) [0..<16 - offset] s;
     s \<leftarrow> dprintf (ascii ''    '') [] s;
     s \<leftarrow> for_each (\<lambda>j s. let c = mem s (a + of_nat j) in
            if 32 \<le> c \<and> c \<le> 126 then dprintf (ascii ''%c'') [Val (ucast c)] s else dprintf (ascii ''.'') [] s) [0..<offset] s;
     dprintf [10, 13] [] s
   }"

partial_function (option) ddump_loop :: "u32 \<Rightarrow> u32 \<Rightarrow> u32 \<Rightarrow> 'a console_state_scheme \<Rightarrow> 'a console_state_scheme option" where
  "ddump_loop sbuf len i s =
     (if sint i < sint len then
        (case ddump_row (sbuf + i) (nat (if sint (i + 16) < sint len then 16 else sint (len - i))) s of
           None \<Rightarrow> None
         | Some s \<Rightarrow> ddump_loop sbuf len (i + 16) s)
      else Some s)"

definition ddump :: "u32 \<Rightarrow> u32 \<Rightarrow> 'a console_state_scheme \<Rightarrow> 'a console_state_scheme option" where
  "ddump pData len s = do {
     s \<leftarrow> dprintf (ascii '' [Addr]   .0 .1 .2 .3 .4 .5 .6 .7 .8 .9 .A .B .C .D .E .F'' @ crlf) [] s;
     ddump_loop pData len 0 s
   }"

definition CmdDumpByte :: "int \<Rightarrow> buffer \<Rightarrow> argv \<Rightarrow> 'a console_state_scheme \<Rightarrow> 'a console_state_scheme option" where
  "CmdDumpByte argc b av s =
     (if argc < 1 then dprintf (ascii ''Wrong argument number!'' @ crlf) [] s
      else do {
        src \<leftarrow> num_arg b av 0 16;
        len \<leftarrow> if arg_ptr av 1 = None then Some 16 else num_arg b av 1 10;
        ddump src len s
      })"

text \<open>\<open>i\<close> is unsigned, so \<open>argc - 1\<close> is compared as an unsigned number.\<close>

partial_function (option) ew_loop :: "int \<Rightarrow> buffer \<Rightarrow> argv \<Rightarrow> u32 \<Rightarrow> u32 \<Rightarrow> 'a console_state_scheme \<Rightarrow> 'a console_state_scheme option" where
  "ew_loop argc b av i src s =
     (if i < of_int (argc - 1) then
        (case num_arg b av (unat i + 1) 16 of
           None \<Rightarrow> None
         | Some value \<Rightarrow> ew_loop argc b av (i + 1) (src + 4) (s\<lparr>mem := store32 src value (mem s)\<rparr>))
      else Some s)"

definition CmdWriteWord :: "int \<Rightarrow> buffer \<Rightarrow> argv \<Rightarrow> 'a console_state_scheme \<Rightarrow> 'a console_state_scheme option" where
  "CmdWriteWord argc b av s = do {
     src \<leftarrow> num_arg b av 0 16;
     src \<leftarrow> align_word src;
     ew_loop argc b av 0 src s
   }"

partial_function (option) eb_loop :: "int \<Rightarrow> buffer \<Rightarrow> argv \<Rightarrow> u8 \<Rightarrow> u32 \<Rightarrow> 'a console_state_scheme \<Rightarrow> 'a console_state_scheme option" where
  "eb_loop argc b av i src s =
     (if uint i < argc - 1 then
        (case num_arg b av (unat i + 1) 16 of
           None \<Rightarrow> None
         | Some value \<Rightarrow> eb_loop argc b av (i + 1) (src + 1) (s\<lparr>mem := (mem s)(src := ucast value)\<rparr>))
      else Some s)"

definition CmdWriteByte :: "int \<Rightarrow> buffer \<Rightarrow> argv \<Rightarrow> 'a console_state_scheme \<Rightarrow> 'a console_state_scheme option" where
  "CmdWriteByte argc b av s = do { src \<leftarrow> num_arg b av 0 16; eb_loop argc b av 0 src s }"

partial_function (option) cmp_loop :: "u32 \<Rightarrow> u32 \<Rightarrow> u32 \<Rightarrow> u32 \<Rightarrow> bool \<Rightarrow> 'a console_state_scheme \<Rightarrow> (bool \<times> 'a console_state_scheme) option" where
  "cmp_loop dst src len i err s =
     (if i < len then
        (let dst_value = load32 (mem s) (dst + i); src_value = load32 (mem s) (src + i)
         in if dst_value \<noteq> src_value then
              (case dprintf (ascii ''%dth data(%x %x) error'' @ nl) [Val i, Val dst_value, Val src_value] s of
                 None \<Rightarrow> None
               | Some s \<Rightarrow> cmp_loop dst src len (i + 4) True s)
            else cmp_loop dst src len (i + 4) err s)
      else Some (err, s))"

definition CmdCmp :: "int \<Rightarrow> buffer \<Rightarrow> argv \<Rightarrow> 'a console_state_scheme \<Rightarrow> 'a console_state_scheme option" where
  "CmdCmp argc b av s =
     (if argc < 3 then dprintf (ascii ''Parameters not enough!'' @ nl) [] s
      else do {
        dst \<leftarrow> num_arg b av 0 16;
        src \<leftarrow> num_arg b av 1 16;
        len \<leftarrow> num_arg b av 2 16;
        (err, s) \<leftarrow> cmp_loop dst src len 0 False s;
        if err then Some s else dprintf (ascii ''No error found'' @ nl) [] s
      })"

partial_function (option) copy_loop :: "u32 \<Rightarrow> u32 \<Rightarrow> u32 \<Rightarrow> u32 \<Rightarrow> 'a console_state_scheme \<Rightarrow> 'a console_state_scheme option" where
  "copy_loop dst src len i s =
     (if i < len then copy_loop dst src len (i + 4) (s\<lparr>mem := store32 (dst + i) (load32 (mem s) (src + i)) (mem s)\<rparr>)
      else Some s)"

definition CmdMEMCPY :: "int \<Rightarrow> buffer \<Rightarrow> argv \<Rightarrow> 'a console_state_scheme \<Rightarrow> 'a console_state_scheme option" where
  "CmdMEMCPY argc b av s =
     (if argc < 3 then dprintf (ascii ''Parameters not enough!'' @ nl) [] s
      else do {
        dst \<leftarrow> num_arg b av 0 16;
        src \<leftarrow> num_arg b av 1 16;
        len \<leftarrow> num_arg b av 2 16;
        copy_loop dst src len 0 s
      })"

section \<open>Settings and jumps\<close>

text \<open>The numbers of a dotted address; \<open>strchr\<close> without a dot gives the null pointer, one behind it is read.\<close>

primrec ip_parts :: "nat \<Rightarrow> buffer \<Rightarrow> nat option \<Rightarrow> u32 list option" where
  "ip_parts 0 b sp = Some []"
| "ip_parts (Suc k) b sp = do {
     p \<leftarrow> sp;
     (v, _) \<leftarrow> strtol b p 10;
     dot \<leftarrow> strchr b p 46;
     vs \<leftarrow> ip_parts k b (map_option Suc dot);
     Some (v # vs)
   }"

definition CmdIp :: "int \<Rightarrow> buffer \<Rightarrow> argv \<Rightarrow> 'a console_state_scheme \<Rightarrow> 'a console_state_scheme option" where
  "CmdIp argc b av s =
     (if argc = 0 then
        (let ip = (\<lambda>i. map (\<lambda>x. Val (ucast x)) (bytes32 (ipaddr (arptable_tftp s i))))
         in do {
           s \<leftarrow> dprintf (ascii '' Target Address=%d.%d.%d.%d'' @ nl) (ip TFTP_SERVER) s;
           dprintf (ascii ''   Http Address=%d.%d.%d.%d'' @ nl) (ip HTTPD_ARPENTRY) s
         })
      else do {
        ip \<leftarrow> ip_parts 4 b (arg_ptr av 0);
        let a = map ucast ip;
        let mac = [eth0_mac s ! 0, a ! 0, a ! 1, a ! 2, a ! 3, eth0_mac s ! 5];
        let s = s\<lparr>eth0_mac := mac, arptable_tftp := (arptable_tftp s)(TFTP_SERVER :=
              (arptable_tftp s TFTP_SERVER)\<lparr>ipaddr := le32 (a ! 0) (a ! 1) (a ! 2) (a ! 3), node := mac\<rparr>)\<rparr>;
        dprintf (ascii ''Now your Target IP is %d.%d.%d.%d'' @ nl) (map Val ip) s
      })"

definition CmdAuto :: "int \<Rightarrow> buffer \<Rightarrow> argv \<Rightarrow> 'a console_state_scheme \<Rightarrow> 'a console_state_scheme option" where
  "CmdAuto argc b av s = do {
     p \<leftarrow> arg_ptr av 0;
     let burn = (b p \<noteq> 48);
     dprintf (ascii ''AutoBurning=%d'' @ nl) [Val (of_bool burn)] (s\<lparr>autoBurn := burn\<rparr>)
   }"

definition CmdLoad :: "int \<Rightarrow> buffer \<Rightarrow> argv \<Rightarrow> 'a console_state_scheme \<Rightarrow> 'a console_state_scheme option" where
  "CmdLoad argc b av s =
     (if argc < 1 then dprintf (ascii ''TFTP Load Addr 0x%x'' @ nl) [Val (image_address s)] s
      else do {
        a \<leftarrow> num_arg b av 0 16;
        dprintf (ascii ''Set TFTP Load Addr 0x%x'' @ nl) [Val a] (s\<lparr>image_address := a, httpd_mem := a\<rparr>)
      })"

text \<open>Without an argument the address is a variable that nothing has set.\<close>

definition CmdCfn :: "int \<Rightarrow> buffer \<Rightarrow> argv \<Rightarrow> 'a console_state_scheme \<Rightarrow> 'a console_state_scheme option" where
  "CmdCfn argc b av s =
     (if argc \<le> 0 then None
      else do {
        p \<leftarrow> arg_ptr av 0;
        v \<leftarrow> Hex2Val b p;
        (case v of
           None \<Rightarrow> dprintf (ascii '' Invalid Address(HEX) value.'' @ nl) [] s
         | Some Address \<Rightarrow> do {
             s \<leftarrow> dprintf (ascii ''---Jump to address=%X'' @ nl) [Val Address] s;
             s \<leftarrow> dprintf (nl @ ascii ''reboot.......'' @ nl) [] s;
             Some (s\<lparr>run := Jumped Address\<rparr>)
           })
      })"

text \<open>
  The receiver reads the polls from here on. The function returns when something was received; only
  a length of 0 leads on to the jump.
\<close>

definition CmdXModem :: "int \<Rightarrow> buffer \<Rightarrow> argv \<Rightarrow> 'a console_state_scheme \<Rightarrow> 'a console_state_scheme option" where
  "CmdXModem argc b av s =
     (if argc < 1 then dprintf (ascii ''Usage: xmodem <buf_addr> [jump]'' @ nl) [] s
      else do {
        load_buf \<leftarrow> num_arg b av 0 16;
        jump \<leftarrow> if argc > 1 then num_arg b av 1 16 else Some 0;
        (case xmodem_receive load_buf (mem s) (uart s) of
           Waiting _ \<Rightarrow> None
         | Returned len x ps \<Rightarrow>
             (let s = s\<lparr>mem := ram x, uart := ps, console_out := console_out s @ concat (map serial_outc (sent x))\<rparr>
              in if len \<noteq> 0 then dprintf (ascii ''Rx len=%d '' @ nl) [Val (of_int len)] s
                 else do {
                   s \<leftarrow> dprintf (ascii ''Download failed!!'' @ nl) [] s;
                   if jump \<noteq> 0 then do {
                     s \<leftarrow> dprintf (nl @ ascii ''Jump to.......'' @ nl) [] s;
                     Some (s\<lparr>run := Jumped load_buf\<rparr>)
                   } else Some s
                 }))
      })"

section \<open>Flash\<close>

definition YesOrNo :: "'a console_state_scheme \<Rightarrow> (bool \<times> 'a console_state_scheme) option" where
  "YesOrNo s = do {
     (iChar, s) \<leftarrow> GetLine (answer_buf s) 2 True s;
     s \<leftarrow> dprintf nl [] (s\<lparr>answer_buf := iChar\<rparr>);
     Some (iChar 0 = 89 \<or> iChar 0 = 121, s)
   }"

definition CmdFlr :: "int \<Rightarrow> buffer \<Rightarrow> argv \<Rightarrow> 'a console_state_scheme \<Rightarrow> 'a console_state_scheme option" where
  "CmdFlr argc b av s = do {
     dst \<leftarrow> num_arg b av 0 16;
     src \<leftarrow> num_arg b av 1 16;
     len \<leftarrow> num_arg b av 2 16;
     let s = s\<lparr>file_length_to_client := len\<rparr>;
     s \<leftarrow> dprintf (ascii ''Flash read from %X to %X with %X bytes'' @ [9, 63] @ nl) [Val src, Val dst, Val len] s;
     s \<leftarrow> dprintf (ascii ''(Y)es , (N)o ? --> '') [] s;
     (yes, s) \<leftarrow> YesOrNo s;
     if yes then
       (let (ok, fl, m) = flashread (flash s) dst src len (mem s)
        in dprintf (if ok then ascii ''Flash Read Successed!'' @ nl else ascii ''Flash Read Failed!'' @ nl) []
             (s\<lparr>flash := fl, mem := m\<rparr>))
     else dprintf (ascii ''Abort!'' @ nl) [] s
   }"

definition CmdSFlw :: "int \<Rightarrow> buffer \<Rightarrow> argv \<Rightarrow> 'a console_state_scheme \<Rightarrow> 'a console_state_scheme option" where
  "CmdSFlw argc b av s = do {
     dst \<leftarrow> num_arg b av 0 16;
     src \<leftarrow> num_arg b av 1 16;
     len \<leftarrow> num_arg b av 2 16;
     s \<leftarrow> dprintf (ascii ''Write 0x%x Bytes to SPI flash#%d, offset 0x%x<0x%x>, from RAM 0x%x to 0x%x'' @ nl)
           [Val len, Val 1, Val dst, Val (dst + FLASH_BASE), Val src, Val (src + len)] s;
     s \<leftarrow> dprintf (ascii ''(Y)es, (N)o->'') [] s;
     (yes, s) \<leftarrow> YesOrNo s;
     if yes then Some (s\<lparr>flash := snd (spi_flw_image (flash s) dst src len (mem s))\<rparr>)
     else dprintf (ascii ''Abort!'' @ nl) [] s
   }"

definition CmdFlashEraseChip :: "int \<Rightarrow> buffer \<Rightarrow> argv \<Rightarrow> 'a console_state_scheme \<Rightarrow> 'a console_state_scheme option" where
  "CmdFlashEraseChip argc b av s = Some (s\<lparr>flash := snd (erase_chip (flash s))\<rparr>)"

definition CmdFlashEraseSector :: "int \<Rightarrow> buffer \<Rightarrow> argv \<Rightarrow> 'a console_state_scheme \<Rightarrow> 'a console_state_scheme option" where
  "CmdFlashEraseSector argc b av s =
     (if argc < 1 then dprintf (ascii ''Wrong argument number!'' @ crlf) [] s
      else do {
        offset \<leftarrow> num_arg b av 0 16;
        Some (s\<lparr>flash := snd (erase_sector (flash s) offset)\<rparr>)
      })"

section \<open>The command table\<close>

record 's COMMAND_TABLE =
  cmd :: "u8 list"
  n_arg :: int
  func :: "int \<Rightarrow> buffer \<Rightarrow> argv \<Rightarrow> 's \<Rightarrow> 's option"
  msg :: "u8 list"

definition help_text :: "u8 list list" where
  "help_text =
    [ascii ''HELP (?)'' @ replicate 4 9 @ ascii ''    : Print this help message'',
     ascii ''DB <Address> <Len>'', ascii ''DW <Address> <Len>'',
     ascii ''EB <Address> <Value1> <Value2>...'', ascii ''EW <Address> <Value1> <Value2>...'',
     ascii ''CMP: CMP <dst><src><length>'', ascii ''IPCONFIG:<TargetAddress>'',
     ascii ''MEMCPY:<dst><src><length>'', ascii ''AUTOBURN: 0/1'', ascii ''LOADADDR: <Load Address>'',
     ascii ''J: Jump to <TargetAddress>'', ascii ''FLI: Flash init'',
     ascii ''FLR: FLR <dst><src><length>'',
     ascii ''FLW <dst_ROM_offset><src_RAM_addr><length_Byte> <SPI cnt#>: Write to SPI'',
     ascii ''MDIOR:  MDIOR phyid reg'', ascii ''MDIOW:  MDIOW phyid reg data'',
     ascii ''PHYR: PHYR <PHYID><reg>'', ascii ''PHYW: PHYW <PHYID><reg><data>'',
     ascii ''PHYPR: PHYPR <PHYID><page><reg>'', ascii ''PHYPW: PHYPW <PHYID><page><reg><data>'',
     ascii ''COUNTER: Dump Asic Counter'', ascii ''XMOD <addr>  [jump] '', ascii ''TI : timer init '',
     ascii ''T : test '', ascii ''ETH : startup Ethernet'', ascii ''CPUClk: '', ascii ''CP0'',
     ascii ''ERASECHIP'', ascii ''ERASESECTOR'', ascii ''D8 <Address>'', ascii ''E8 <Address> <Value>'']"

definition CmdHelp :: "int \<Rightarrow> buffer \<Rightarrow> argv \<Rightarrow> 'a console_state_scheme \<Rightarrow> 'a console_state_scheme option" where
  "CmdHelp argc b av s = do {
     s \<leftarrow> dprintf (ascii ''----------------- COMMAND MODE HELP ------------------'' @ nl) [] s;
     for_each (\<lambda>i. dprintf (ascii ''%s'' @ nl) [Str (help_text ! i)]) [0..<length help_text] s
   }"

definition eth_command :: "int \<Rightarrow> buffer \<Rightarrow> argv \<Rightarrow> 'a console_state_scheme \<Rightarrow> 'a console_state_scheme option" where
  "eth_command argc b av s = map_option CmdEthStartup (dprintf (nl @ ascii ''---Ethernet init Okay!'' @ nl) [] s)"

type_synonym 's commands = "u8 list \<Rightarrow> int \<Rightarrow> buffer \<Rightarrow> argv \<Rightarrow> 's \<Rightarrow> 's option"

definition MainCmdTable :: "'a console_state_scheme commands \<Rightarrow> 'a console_state_scheme COMMAND_TABLE list" where
  "MainCmdTable other = map (\<lambda>((c, n, f), m). \<lparr>cmd = ascii c, n_arg = n, func = f, msg = m\<rparr>) (zip
    [(''?'', 0, CmdHelp), (''DB'', 2, CmdDumpByte), (''DW'', 2, CmdDumpWord), (''EB'', 2, CmdWriteByte),
     (''EW'', 2, CmdWriteWord), (''CMP'', 3, CmdCmp), (''IPCONFIG'', 2, CmdIp), (''MEMCPY'', 3, CmdMEMCPY),
     (''AUTOBURN'', 1, CmdAuto), (''LOADADDR'', 1, CmdLoad), (''J'', 1, CmdCfn),
     (''FLI'', 3, other (ascii ''CmdFli'')), (''FLR'', 3, CmdFlr), (''FLW'', 4, CmdSFlw),
     (''MDIOR'', 0, other (ascii ''TestCmd_MDIOR'')), (''MDIOW'', 0, other (ascii ''TestCmd_MDIOW'')),
     (''PHYR'', 2, other (ascii ''CmdPHYregR'')), (''PHYW'', 3, other (ascii ''CmdPHYregW'')),
     (''PHYPR'', 3, other (ascii ''CmdPhyPageRegR'')), (''PHYPW'', 4, other (ascii ''CmdPhyPageRegW'')),
     (''COUNTER'', 0, other (ascii ''CmdAsicCountDump'')), (''XMOD'', 1, CmdXModem),
     (''TI'', 1, other (ascii ''CmdTimerInit'')), (''T'', 1, other (ascii ''CmdTest'')),
     (''ETH'', 1, eth_command), (''CPUCLK'', 1, other (ascii ''CmdCPUCLK'')), (''CP0'', 0, other (ascii ''CmdCp0Reg'')),
     (''ERASECHIP'', 0, CmdFlashEraseChip), (''ERASESECTOR'', 0, CmdFlashEraseSector),
     (''D8'', 1, other (ascii ''CmdDump8370Reg'')), (''E8'', 2, other (ascii ''CmdWrite8370Reg''))]
    help_text)"

section \<open>The loop\<close>

definition MAX_MONITOR_BUFFER :: u32 where "MAX_MONITOR_BUFFER = 128"
definition MAIN_PROMPT :: "u8 list" where "MAIN_PROMPT = ascii ''<RealTek>''"

primrec find_cmd :: "buffer \<Rightarrow> nat \<Rightarrow> 's COMMAND_TABLE list \<Rightarrow> 's COMMAND_TABLE option option" where
  "find_cmd b p [] = Some None"
| "find_cmd b p (e # es) =
     (case strcmp b p (buf_of (cmd e)) 0 of None \<Rightarrow> None
      | Some r \<Rightarrow> (if r = 0 then Some (Some e) else find_cmd b p es))"

text \<open>The first \<open>n\<close> bytes of a buffer from \<open>p\<close> on set to 0.\<close>

definition clear_bytes :: "buffer \<Rightarrow> nat \<Rightarrow> nat \<Rightarrow> buffer" where
  "clear_bytes b p n = (\<lambda>k. if p \<le> k \<and> k < p + n then 0 else b k)"

text \<open>What happens to a line: nothing if it has no word, else its first word is looked up.\<close>

definition run_line :: "'a console_state_scheme commands \<Rightarrow> buffer \<Rightarrow> 'a console_state_scheme \<Rightarrow> 'a console_state_scheme option" where
  "run_line other b s = do {
     argc \<leftarrow> GetArgc b;
     (b, av) \<leftarrow> GetArgv b;
     if argc < 1 then Some (s\<lparr>line_buf := b\<rparr>)
     else do {
       p \<leftarrow> arg_ptr av 0;
       b \<leftarrow> StrUpr b p;
       e \<leftarrow> find_cmd b p (MainCmdTable other);
       (case e of
          None \<Rightarrow> dprintf (ascii ''Unknown command !'' @ crlf) [] (s\<lparr>line_buf := b\<rparr>)
        | Some e \<Rightarrow> do {
            s \<leftarrow> func e (int argc - 1) b (drop 1 av) s;
            Some (if run s = Running then s\<lparr>line_buf := clear_bytes b p 4\<rparr> else s)
          })
     }
   }"

definition monitor_round :: "'a console_state_scheme commands \<Rightarrow> 'a console_state_scheme \<Rightarrow> 'a console_state_scheme option" where
  "monitor_round other s = do {
     s \<leftarrow> dprintf (ascii ''%s'') [Str MAIN_PROMPT] s;
     (b, s) \<leftarrow> GetLine (clear_bytes (line_buf s) 0 (unat MAX_MONITOR_BUFFER)) MAX_MONITOR_BUFFER True s;
     s \<leftarrow> dprintf nl [] s;
     run_line other b s
   }"

text \<open>\<open>monitor\<close> never returns; it comes to an end with the jump into a program.\<close>

partial_function (option) monitor :: "'a console_state_scheme commands \<Rightarrow> 'a console_state_scheme \<Rightarrow> 'a console_state_scheme option" where
  "monitor other s =
     (case monitor_round other s of None \<Rightarrow> None
      | Some s \<Rightarrow> (if run s = Running then monitor other s else Some s))"

definition goToDownMode :: "'a console_state_scheme commands \<Rightarrow> 'a console_state_scheme \<Rightarrow> 'a console_state_scheme option" where
  "goToDownMode other s = do {
     let (hit, s) = pollingDownModeKeyword 109 s;
     s \<leftarrow> if hit then Some s else eth_command 1 (\<lambda>_. 0) [] s;
     monitor other s
   }"

end
