(* ===== verification/Monrun.thy ===== *)
theory Monrun
  imports Monitor
begin

text \<open>
  What the monitor does with a line that is typed: the first word selects the command, which gets
  the other words (\<open>monitor_runs_line\<close>). With this the commands on memory and flash are followed
  from the keys to the bytes they write and print.
\<close>

section \<open>Printing and looking up\<close>

lemma dprintf_text: "37 \<notin> set bs \<Longrightarrow> dprintf bs dp s = Some (put_bytes bs s)"
  using vsprintf_text [of bs "[]" dp] by (simp add: dprintf_def)

lemma dprintf_string: "dprintf (ascii ''%s'') [Str bs] s = Some (put_bytes bs s)"
  by (simp add: dprintf_def)

definition upper :: "u8 \<Rightarrow> u8" where
  "upper c = (if 97 \<le> c \<and> c \<le> 122 then c - 32 else c)"

lemma upper_nonzero: "c \<noteq> 0 \<Longrightarrow> upper c \<noteq> 0"
  by (auto simp: upper_def)

lemma StrUpr_cstr:
  "is_cstr b p w \<Longrightarrow> \<exists>b'. StrUpr b p = Some b' \<and> is_cstr b' p (map upper w)
     \<and> (\<forall>k. k < p \<or> p + length w \<le> k \<longrightarrow> b' k = b k)"
proof (induction w arbitrary: b p)
  case Nil
  then show ?case by (simp add: StrUpr.simps)
next
  case (Cons c w)
  let ?b = "b(p := upper c)"
  have c: "b p = c" "c \<noteq> 0" using Cons.prems by simp_all
  have "is_cstr b (Suc p) w" using Cons.prems by simp
  then have "is_cstr ?b (Suc p) w" by (rule is_cstr_cong) simp
  from Cons.IH [OF this] obtain b' where b': "StrUpr ?b (Suc p) = Some b'" "is_cstr b' (Suc p) (map upper w)"
      "\<forall>k. k < Suc p \<or> Suc p + length w \<le> k \<longrightarrow> b' k = ?b k" by blast
  have "(if 97 \<le> b p \<and> b p \<le> 122 then b(p := b p - 32) else b) = ?b"
    using c(1) by (auto simp: upper_def)
  then have "StrUpr b p = StrUpr ?b (Suc p)" using c by (simp add: StrUpr.simps [of b p])
  moreover have "b' p = upper c" using b'(3) by simp
  ultimately show ?case using b' c upper_nonzero by (intro exI [of _ b']) auto
qed

text \<open>The entry of the table that a name selects.\<close>

definition entry :: "u8 list \<Rightarrow> 's COMMAND_TABLE list \<Rightarrow> 's COMMAND_TABLE option" where
  "entry name es = List.find (\<lambda>e. cmd e = name) es"

lemma find_cmd_entry:
  assumes "is_cstr b p name" "list_all (\<lambda>e. is_cstr (buf_of (cmd e)) 0 (cmd e)) es"
  shows "find_cmd b p es = Some (entry name es)"
  using assms(2)
proof (induction es)
  case (Cons e es)
  then obtain r where "strcmp b p (buf_of (cmd e)) 0 = Some r" "r = 0 \<longleftrightarrow> name = cmd e"
    using strcmp_cstr [OF assms(1), of "buf_of (cmd e)" 0 "cmd e"] by auto
  then show ?case using Cons by (auto simp: entry_def)
qed (simp add: entry_def)

lemma MainCmdTable_names:
  "map cmd (MainCmdTable other) = map ascii [''?'', ''DB'', ''DW'', ''EB'', ''EW'', ''CMP'', ''IPCONFIG'', ''MEMCPY'',
     ''AUTOBURN'', ''LOADADDR'', ''J'', ''FLI'', ''FLR'', ''FLW'', ''MDIOR'', ''MDIOW'', ''PHYR'', ''PHYW'', ''PHYPR'',
     ''PHYPW'', ''COUNTER'', ''XMOD'', ''TI'', ''T'', ''ETH'', ''CPUCLK'', ''CP0'', ''ERASECHIP'', ''ERASESECTOR'',
     ''D8'', ''E8'']"
  by (simp add: MainCmdTable_def help_text_def)

lemma is_cstr_buf_of: "0 \<notin> set l \<Longrightarrow> is_cstr (buf_of l) 0 l"
  by (rule is_cstrI) (auto simp: buf_of_def nth_default_def dest: nth_mem)

lemma MainCmdTable_cstr: "list_all (\<lambda>e. is_cstr (buf_of (cmd e)) 0 (cmd e)) (MainCmdTable other)"
proof -
  have "list_all (\<lambda>c. 0 \<notin> set c) (map cmd (MainCmdTable other))"
    unfolding MainCmdTable_names by simp
  then show ?thesis by (auto simp: list_all_iff intro: is_cstr_buf_of)
qed

section \<open>A typed line\<close>

text \<open>The words behind the name, as a command gets them.\<close>

definition args :: "buffer \<Rightarrow> argv \<Rightarrow> u8 list list \<Rightarrow> bool" where
  "args b av ws \<longleftrightarrow> (\<forall>i < length ws. \<exists>q. arg_ptr av i = Some q \<and> is_cstr b q (ws ! i))
     \<and> (\<forall>i. length ws \<le> i \<longrightarrow> arg_ptr av i = None)"

text \<open>The words that a split line has: strings of their own, the first at the start of the buffer.\<close>

definition holds :: "buffer \<Rightarrow> argv \<Rightarrow> u8 list list \<Rightarrow> bool" where
  "holds b av ws \<longleftrightarrow> length av = MAX_ARGV \<and> length ws < MAX_ARGV
     \<and> (\<forall>i < length ws. \<exists>q. av ! i = Some q \<and> is_cstr b q (ws ! i) \<and> (if i = 0 then q = 0 else length (ws ! 0) < q))
     \<and> (\<forall>i. length ws \<le> i \<and> i < MAX_ARGV \<longrightarrow> av ! i = None)"

lemma holds_word:
  "holds b av ws \<Longrightarrow> i < length ws \<Longrightarrow> \<exists>q. av ! i = Some q \<and> is_cstr b q (ws ! i) \<and> (if i = 0 then q = 0 else length (ws ! 0) < q)"
  by (simp add: holds_def)

lemma holds_args:
  assumes "holds b av ws" "\<forall>k. length (ws ! 0) \<le> k \<longrightarrow> b' k = b k"
  shows "args b' (drop 1 av) (tl ws)"
proof -
  have len: "length av = MAX_ARGV" "length ws < MAX_ARGV" using assms(1) by (simp_all add: holds_def)
  have drop: "arg_ptr (drop 1 av) i = (if Suc i < MAX_ARGV then av ! Suc i else None)" for i
    using len by (auto simp: arg_ptr_def)
  have "\<exists>q. arg_ptr (drop 1 av) i = Some q \<and> is_cstr b' q (tl ws ! i)" if "i < length (tl ws)" for i
  proof -
    have i: "Suc i < length ws" using that by simp
    obtain q where q: "av ! Suc i = Some q" "is_cstr b q (ws ! Suc i)" "length (ws ! 0) < q"
      using holds_word [OF assms(1) i] by auto
    have "is_cstr b' q (ws ! Suc i)" using q(2) by (rule is_cstr_cong) (use assms(2) q(3) in auto)
    then show ?thesis using q(1) i len(2) drop that by (auto simp: nth_tl)
  qed
  moreover have "arg_ptr (drop 1 av) i = None" if "length (tl ws) \<le> i" for i
    using that assms(1) unfolding drop holds_def by auto
  ultimately show ?thesis by (simp add: args_def)
qed

text \<open>A line with \<open>n\<close> words for \<open>GetArgc\<close> and the words \<open>ws\<close> for \<open>GetArgv\<close>.\<close>

lemma run_line_holds:
  assumes "GetArgc b = Some n" "1 \<le> n" "GetArgv b = Some (b1, av)" "holds b1 av ws" "ws \<noteq> []"
  shows "\<exists>b' av. args b' av (tl ws) \<and> run_line other b s =
    (case entry (map upper (hd ws)) (MainCmdTable other) of
       None \<Rightarrow> Some (put_bytes (ascii ''Unknown command !'' @ crlf) (s\<lparr>line_buf := b'\<rparr>))
     | Some e \<Rightarrow> (case func e (int n - 1) b' av s of None \<Rightarrow> None
         | Some t \<Rightarrow> Some (if run t = Running then t\<lparr>line_buf := clear_bytes b' 0 4\<rparr> else t)))"
proof -
  have first: "av ! 0 = Some 0" "is_cstr b1 0 (ws ! 0)"
    using holds_word [OF assms(4), of 0] assms(5) by auto
  have "length av = MAX_ARGV" using assms(4) by (simp add: holds_def)
  then have p: "arg_ptr av 0 = Some 0" using first by (simp add: arg_ptr_def MAX_ARGV_def)
  obtain b2 where b2: "StrUpr b1 0 = Some b2" "is_cstr b2 0 (map upper (ws ! 0))" "\<forall>k. length (ws ! 0) \<le> k \<longrightarrow> b2 k = b1 k"
    using StrUpr_cstr [OF first(2)] by auto
  have plain_text: "37 \<notin> set (ascii ''Unknown command !'' @ crlf)" by (simp add: crlf_def)
  have name: "ws ! 0 = hd ws" using assms(5) by (simp add: hd_conv_nth)
  have find: "find_cmd b2 0 (MainCmdTable other) = Some (entry (map upper (hd ws)) (MainCmdTable other))"
    using find_cmd_entry [OF b2(2) MainCmdTable_cstr] unfolding name .
  have "run_line other b s =
    (case entry (map upper (hd ws)) (MainCmdTable other) of
       None \<Rightarrow> Some (put_bytes (ascii ''Unknown command !'' @ crlf) (s\<lparr>line_buf := b2\<rparr>))
     | Some e \<Rightarrow> (case func e (int n - 1) b2 (drop 1 av) s of None \<Rightarrow> None
         | Some t \<Rightarrow> Some (if run t = Running then t\<lparr>line_buf := clear_bytes b2 0 4\<rparr> else t)))"
    unfolding run_line_def using assms(2)
    by (simp del: ascii_simps add: assms(1,3) p b2(1) find dprintf_text [OF plain_text] split: option.splits)
  then show ?thesis using holds_args [OF assms(4) b2(3)] by blast
qed

lemma run_line_words:
  assumes "is_cstr b 0 l" "l \<noteq> []" "hd l \<noteq> 32" "b (length l + 1) = 0" "length (words l) < MAX_ARGV"
  shows "\<exists>b' av. args b' av (tl (words l)) \<and> run_line other b s =
    (case entry (map upper (hd (words l))) (MainCmdTable other) of
       None \<Rightarrow> Some (put_bytes (ascii ''Unknown command !'' @ crlf) (s\<lparr>line_buf := b'\<rparr>))
     | Some e \<Rightarrow> (case func e (int (length (words l)) - 1) b' av s of None \<Rightarrow> None
         | Some t \<Rightarrow> Some (if run t = Running then t\<lparr>line_buf := clear_bytes b' 0 4\<rparr> else t)))"
proof -
  obtain b1 av where av: "GetArgv b = Some (b1, av)" "split_at 0 0 l b (replicate MAX_ARGV None) b1 av"
    using GetArgv_split [OF assms(1) _ assms(4,5)] assms(3) by blast
  have ne: "words l \<noteq> []" using words_word [OF assms(3), of "tl l"] assms(2) by simp
  have "\<exists>q. av ! i = Some q \<and> is_cstr b1 q (words l ! i) \<and> (if i = 0 then q = 0 else length (words l ! 0) < q)"
    if "i < length (words l)" for i using split_atD [OF av(2) that] by auto
  then have "holds b1 av (words l)" using av(2) assms(5) by (simp add: holds_def split_at_def)
  moreover have "GetArgc b = Some (length (words l))" using GetArgc_words [OF assms(1)] assms(5) by simp
  moreover have "1 \<le> length (words l)" using ne by (simp add: Suc_le_eq)
  ultimately show ?thesis using run_line_holds [OF _ _ av(1)] ne by blast
qed

text \<open>The machine when a command is called: the prompt and the line are on the terminal.\<close>

definition line_typed :: "u8 list \<Rightarrow> u8 option list \<Rightarrow> 'a console_state_scheme \<Rightarrow> 'a console_state_scheme" where
  "line_typed l qs s = s\<lparr>uart := qs, console_out := console_out s @ MAIN_PROMPT @ l @ [10, 13]\<rparr>"

lemma put_bytes_append: "put_bytes cs (put_bytes bs s) = put_bytes (bs @ cs) s"
  by (simp add: put_bytes_def)

lemma put_prompt: "put_bytes MAIN_PROMPT s = s\<lparr>console_out := console_out s @ MAIN_PROMPT\<rparr>"
  by (rule put_plain) (simp add: MAIN_PROMPT_def plain_def)

text \<open>A line the theorems are about: printable characters, short enough, and a word at its start.\<close>

definition command_line :: "u8 list \<Rightarrow> bool" where
  "command_line l \<longleftrightarrow> list_all plain l \<and> l \<noteq> [] \<and> hd l \<noteq> 32 \<and> length l < 127 \<and> length (words l) < MAX_ARGV"

lemma monitor_round_line:
  assumes "typed (l @ [KEYCODE_CR]) (uart s) qs" "command_line l"
  shows "\<exists>b. monitor_round other s = run_line other b (line_typed l qs s) \<and> is_cstr b 0 l \<and> b (length l + 1) = 0"
proof -
  let ?b = "clear_bytes (line_buf s) 0 (unat MAX_MONITOR_BUFFER)"
  let ?s = "s\<lparr>console_out := console_out s @ MAIN_PROMPT\<rparr>" and ?b' = "(overlay 0 l ?b)(length l := 0)"
  have l: "list_all plain l" "length l < 127" using assms(2) by (simp_all add: command_line_def)
  have "GetLine ?b MAX_MONITOR_BUFFER True ?s
      = Some (?b', ?s\<lparr>uart := qs, console_out := console_out ?s @ l\<rparr>)"
    using assms(1) l by (intro GetLine_plain) (simp_all add: MAX_MONITOR_BUFFER_def)
  then have "monitor_round other s = run_line other ?b' (put_bytes nl (?s\<lparr>uart := qs, console_out := console_out ?s @ l\<rparr>))"
    by (simp del: ascii_simps add: monitor_round_def dprintf_string put_prompt dprintf_text nl_def)
  also have "put_bytes nl (?s\<lparr>uart := qs, console_out := console_out ?s @ l\<rparr>) = line_typed l qs s"
    by (simp add: line_typed_def put_bytes_def nl_def serial_outc_def)
  finally have "monitor_round other s = run_line other ?b' (line_typed l qs s)" .
  moreover have "is_cstr ?b' 0 l"
  proof (rule is_cstrI)
    fix k assume k: "k < length l"
    then have "plain (l ! k)" using l(1) by (simp add: list_all_length)
    then show "?b' (0 + k) = l ! k \<and> l ! k \<noteq> 0" using k plain_key(2) by (simp add: overlay_def)
  qed simp
  moreover have "?b' (length l + 1) = 0"
    using l(2) by (simp add: overlay_def clear_bytes_def MAX_MONITOR_BUFFER_def)
  ultimately show ?thesis by blast
qed

text \<open>C11: The command loop. A typed line of printable characters that is not empty, does not begin with a
  blank and has fewer than 127 characters and 20 words (\<open>command_line\<close>) calls the entry of the table
  whose name is its first word in capitals, with the number of the other words and pointers to them,
  each a string of its own, and null pointers behind them. The line is on the terminal before, and when
  the command comes back without a jump its name is erased in the line. A word that is no name is
  answered with an error message. (With a leading blank the first word is empty: no command is found.)\<close>

theorem monitor_runs_line:
  assumes "typed (l @ [KEYCODE_CR]) (uart s) qs" "command_line l"
  shows "\<exists>b av. args b av (tl (words l)) \<and> monitor_round other s =
    (case entry (map upper (hd (words l))) (MainCmdTable other) of
       None \<Rightarrow> Some (put_bytes (ascii ''Unknown command !'' @ crlf) ((line_typed l qs s)\<lparr>line_buf := b\<rparr>))
     | Some e \<Rightarrow> (case func e (int (length (words l)) - 1) b av (line_typed l qs s) of None \<Rightarrow> None
         | Some t \<Rightarrow> Some (if run t = Running then t\<lparr>line_buf := clear_bytes b 0 4\<rparr> else t)))"
proof -
  obtain b where b: "monitor_round other s = run_line other b (line_typed l qs s)" "is_cstr b 0 l" "b (length l + 1) = 0"
    using monitor_round_line [OF assms] by blast
  have l: "l \<noteq> []" "hd l \<noteq> 32" "length (words l) < MAX_ARGV" using assms(2) by (simp_all add: command_line_def)
  show ?thesis unfolding b(1) by (rule run_line_words [OF b(2) l(1,2) b(3) l(3)])
qed

lemma monitor_runs_line_witness:
  "\<exists>b av. args b av [ascii ''80''] \<and>
    monitor_round (\<lambda>_ _ _ _ _. None) (sample_console (map Some (ascii ''jj 80'' @ [13]))) =
    Some (put_bytes (ascii ''Unknown command !'' @ crlf)
      ((line_typed (ascii ''jj 80'') [] (sample_console (map Some (ascii ''jj 80'' @ [13]))))\<lparr>line_buf := b\<rparr>))"
proof -
  let ?l = "ascii ''jj 80''" and ?other = "(\<lambda>_ _ _ _ _. None) :: unit console_state_scheme commands"
  have w: "words ?l = [ascii ''jj'', ascii ''80'']" by (simp add: words.simps)
  have none: "entry (map upper (hd (words ?l))) (MainCmdTable ?other) = None"
  proof -
    have "map upper (hd (words ?l)) \<notin> set (map cmd (MainCmdTable ?other))"
      unfolding MainCmdTable_names w by (simp add: upper_def)
    then show ?thesis unfolding entry_def find_None_iff set_map by (metis imageI)
  qed
  have "command_line ?l" using w by (simp add: command_line_def plain_def MAX_ARGV_def)
  moreover have "typed (?l @ [KEYCODE_CR]) (uart (sample_console (map Some (?l @ [13])))) []"
    using typed_now [of "?l @ [13]" "[]"] by (simp add: keycodes)
  ultimately show ?thesis
    using monitor_runs_line [of ?l "sample_console (map Some (?l @ [13]))" "[]" ?other]
    by (simp only: none [unfolded w list.sel] w option.case list.sel)
qed

section \<open>Commands with numbers\<close>

definition hex8 :: "u32 \<Rightarrow> u8 list" where "hex8 v = hex_item 8 v 0"

definition say :: "u8 list \<Rightarrow> u8 list list \<Rightarrow> u8 list" where
  "say name ws = name @ concat (map (\<lambda>w. 32 # w) ws)"

text \<open>A word that can be typed: printable characters other than the blank.\<close>

definition graph :: "u8 list \<Rightarrow> bool" where
  "graph w \<longleftrightarrow> w \<noteq> [] \<and> list_all (\<lambda>c. 33 \<le> c \<and> c < 127) w"

lemma graph_plain: "graph w \<Longrightarrow> list_all plain w" "graph w \<Longrightarrow> 32 \<notin> set w"
  by (auto simp: graph_def list_all_iff plain_def intro: order_trans [rotated])

lemma graph_hex8: "graph (hex8 v)"
proof -
  have "list_all (\<lambda>c. 33 \<le> c \<and> c < 127) (hex_item k v 0)" for k
    using hex_digit_cases(3) [of 0] by (induction k) simp_all
  moreover have "hex_item 8 v 0 \<noteq> []" using length_hex_item(1) [of 8 v 0] by (metis list.size(3) zero_neq_numeral)
  ultimately show ?thesis by (simp add: graph_def hex8_def)
qed

lemma words_graph:
  assumes "graph w"
  shows "words (w @ 32 # l) = w # words l" "words w = [w]"
proof -
  obtain c cs where w: "w = c # cs" using assms by (cases w) (auto simp: graph_def)
  have "c \<noteq> 32" and no: "\<forall>x \<in> set w. x \<noteq> 32" using graph_plain(2) [OF assms] unfolding w by auto
  then have "words (w @ 32 # l) = takeWhile (\<lambda>c. c \<noteq> 32) (w @ 32 # l) # words (dropWhile (\<lambda>c. c \<noteq> 32) (w @ 32 # l))"
    using words_word [of c "cs @ 32 # l"] unfolding w by simp
  then show "words (w @ 32 # l) = w # words l"
    using no by (simp add: takeWhile_append2 dropWhile_append2)
  have "words w = takeWhile (\<lambda>c. c \<noteq> 32) w # words (dropWhile (\<lambda>c. c \<noteq> 32) w)"
    using words_word [of c cs] \<open>c \<noteq> 32\<close> unfolding w by simp
  moreover have "takeWhile (\<lambda>c. c \<noteq> 32) w = w" "dropWhile (\<lambda>c. c \<noteq> 32) w = []" using no by simp_all
  ultimately show "words w = [w]" by simp
qed

lemma words_say: "graph name \<Longrightarrow> list_all graph ws \<Longrightarrow> words (say name ws) = name # ws"
proof (induction ws arbitrary: name)
  case (Cons w ws)
  have "say name (w # ws) = name @ 32 # say w ws" by (simp add: say_def)
  then show ?case using Cons words_graph(1) [of name "say w ws"] by simp
qed (simp add: say_def words_graph)

lemma command_line_say:
  assumes "graph name" "list_all graph ws" "length (say name ws) < 127" "length ws + 1 < MAX_ARGV"
  shows "command_line (say name ws)"
proof -
  have "list_all plain (say name ws)"
    using assms(1,2) graph_plain(1) unfolding say_def by (induction ws) (auto simp: plain_def)
  moreover have "say name ws \<noteq> [] \<and> hd (say name ws) \<noteq> 32"
    using graph_plain(2) [OF assms(1)] assms(1) by (cases name) (auto simp: say_def graph_def)
  ultimately show ?thesis using assms words_say [OF assms(1,2)] by (simp add: command_line_def)
qed

lemma args_ptr: "args b av ws \<Longrightarrow> i < length ws \<Longrightarrow> arg_ptr av i \<noteq> None"
  by (auto simp: args_def)

lemma num_arg_hex: "args b av ws \<Longrightarrow> i < length ws \<Longrightarrow> ws ! i = hex8 v \<Longrightarrow> num_arg b av i 16 = Some v"
  using strtoul_hex [of 0] by (auto simp: args_def num_arg_def hex8_def)

lemma num_arg_digit:
  assumes "args b av ws" "i < length ws" "ws ! i = [48 + of_nat n]" "n < 10"
  shows "num_arg b av i 10 = Some (of_nat n)"
proof -
  obtain q where q: "arg_ptr av i = Some q" "is_cstr b q [48 + of_nat n]" using assms by (auto simp: args_def)
  have "n \<in> set [0..<10]" using assms(4) by simp
  moreover have "list_all (\<lambda>n. digit_of (48 + of_nat n) = of_nat n) [0..<10]" by code_simp
  ultimately have "digit_of (48 + of_nat n) = of_nat n" by (simp only: list_all_iff)
  then have "numeral_at b q 10 [n]" using q(2) assms(4) by (simp add: word_less_nat_alt unat_of_nat)
  then show ?thesis using strtoul_numeral [of b q 10 n "[]"] assms(4) q by (simp add: num_arg_def)
qed

lemma monitor_calls:
  assumes "typed (l @ [KEYCODE_CR]) (uart s) qs" "command_line l" "words l = name # ws"
    and e: "entry (map upper name) (MainCmdTable other) = Some e"
    and f: "\<And>b av. args b av ws \<Longrightarrow> \<exists>t. func e (int (length ws)) b av (line_typed l qs s) = Some t \<and> P t"
  shows "\<exists>t b. monitor_round other s = Some (if run t = Running then t\<lparr>line_buf := b\<rparr> else t) \<and> P t"
proof -
  obtain b where b: "monitor_round other s = run_line other b (line_typed l qs s)" "is_cstr b 0 l" "b (length l + 1) = 0"
    using monitor_round_line [OF assms(1,2)] by blast
  have l: "l \<noteq> []" "hd l \<noteq> 32" "length (words l) < MAX_ARGV" using assms(2) by (simp_all add: command_line_def)
  obtain b' av where "args b' av ws" "run_line other b (line_typed l qs s)
    = (case func e (int (length ws)) b' av (line_typed l qs s) of None \<Rightarrow> None
         | Some t \<Rightarrow> Some (if run t = Running then t\<lparr>line_buf := clear_bytes b' 0 4\<rparr> else t))"
    using run_line_words [OF b(2) l(1,2) b(3) l(3), of other "line_typed l qs s"] unfolding assms(3) by (auto simp: e)
  moreover obtain t where "func e (int (length ws)) b' av (line_typed l qs s) = Some t" "P t"
    using f [OF \<open>args b' av ws\<close>] by blast
  ultimately show ?thesis unfolding b(1) by (intro exI [of _ t] exI [of _ "clear_bytes b' 0 4"]) simp
qed

lemma monitor_command:
  assumes "typed (l @ [KEYCODE_CR]) (uart s) qs" "command_line l" "words l = name # ws"
    and e: "entry (map upper name) (MainCmdTable other) = Some e"
    and f: "\<And>b av. args b av ws \<Longrightarrow> func e (int (length ws)) b av (line_typed l qs s) = Some t" and "run t = Running"
  shows "\<exists>b. monitor_round other s = Some (t\<lparr>line_buf := b\<rparr>)"
  using monitor_calls [OF assms(1-4), of "\<lambda>x. x = t"] f assms(6) by auto

lemma entry_nth: "distinct (map cmd es) \<Longrightarrow> i < length es \<Longrightarrow> entry (cmd (es ! i)) es = Some (es ! i)"
proof (induction es arbitrary: i)
  case (Cons e es)
  then show ?case by (cases i) (auto simp: entry_def)
qed simp

lemma MainCmdTable_entry:
  assumes "i < 31" "map upper name = cmd (MainCmdTable other ! i)"
  shows "entry (map upper name) (MainCmdTable other) = Some (MainCmdTable other ! i)"
proof -
  have "distinct (map cmd (MainCmdTable other))" unfolding MainCmdTable_names by code_simp
  moreover have "length (map cmd (MainCmdTable other)) = 31" unfolding MainCmdTable_names by simp
  ultimately show ?thesis unfolding assms(2) using assms(1) by (intro entry_nth) simp_all
qed

lemma MainCmdTable_funcs:
  "map func (MainCmdTable other) = [CmdHelp, CmdDumpByte, CmdDumpWord, CmdWriteByte, CmdWriteWord, CmdCmp, CmdIp, CmdMEMCPY,
     CmdAuto, CmdLoad, CmdCfn, other (ascii ''CmdFli''), CmdFlr, CmdSFlw, other (ascii ''TestCmd_MDIOR''),
     other (ascii ''TestCmd_MDIOW''), other (ascii ''CmdPHYregR''), other (ascii ''CmdPHYregW''),
     other (ascii ''CmdPhyPageRegR''), other (ascii ''CmdPhyPageRegW''), other (ascii ''CmdAsicCountDump''), CmdXModem,
     other (ascii ''CmdTimerInit''), other (ascii ''CmdTest''), eth_command, other (ascii ''CmdCPUCLK''),
     other (ascii ''CmdCp0Reg''), CmdFlashEraseChip, CmdFlashEraseSector, other (ascii ''CmdDump8370Reg''),
     other (ascii ''CmdWrite8370Reg'')]"
  by (simp add: MainCmdTable_def help_text_def del: ascii_simps)

text \<open>The name of the entry \<open>i\<close> selects the function \<open>i\<close>.\<close>

lemma MainCmdTable_select:
  assumes "i < 31" "map upper name = map cmd (MainCmdTable other) ! i" "map func (MainCmdTable other) ! i = f"
  shows "\<exists>e. entry (map upper name) (MainCmdTable other) = Some e \<and> func e = f"
proof -
  have "length (map cmd (MainCmdTable other)) = 31" unfolding MainCmdTable_names by simp
  then have i: "i < length (MainCmdTable other)" using assms(1) by simp
  then show ?thesis using MainCmdTable_entry [OF assms(1), of name other] assms(2,3) by simp
qed

lemma entry_EW: "\<exists>e. entry (map upper (ascii ''EW'')) (MainCmdTable other) = Some e \<and> func e = CmdWriteWord"
  by (rule MainCmdTable_select [of 4]; simp only: MainCmdTable_names MainCmdTable_funcs; simp add: upper_def)

lemma entry_DW: "\<exists>e. entry (map upper (ascii ''DW'')) (MainCmdTable other) = Some e \<and> func e = CmdDumpWord"
  by (rule MainCmdTable_select [of 2]; simp only: MainCmdTable_names MainCmdTable_funcs; simp add: upper_def)

lemma command_line_hex:
  assumes "graph name" "length name < 9" "length vs \<le> 13"
  shows "list_all graph (map hex8 vs) \<and> command_line (say name (map hex8 vs))"
proof -
  have g: "list_all graph (map hex8 vs)" using graph_hex8 by (simp add: list_all_iff)
  have "length (concat (map (\<lambda>w. 32 # w) (map hex8 vs))) = 9 * length vs"
    by (induction vs) (simp_all add: hex8_def)
  then have "length (say name (map hex8 vs)) < 127" using assms(2,3) unfolding say_def length_append by linarith
  then show ?thesis using command_line_say [OF assms(1) g] assms(3) g by (simp add: MAX_ARGV_def)
qed

section \<open>Memory commands\<close>

definition write_words :: "u32 \<Rightarrow> u32 list \<Rightarrow> memory \<Rightarrow> memory" where
  "write_words a vs = write_bytes a (concat (map bytes32 vs))"

lemma write_words_Cons: "write_words a (v # vs) m = write_words (a + 4) vs (store32 a v m)"
  by (simp add: write_words_def store32_def write_bytes_append)

lemma length_words_bytes: "length (concat (map bytes32 vs)) = 4 * length vs"
  by (induction vs) simp_all

lemma nth_words_bytes: "j < length vs \<Longrightarrow> i < 4 \<Longrightarrow> concat (map bytes32 vs) ! (4 * j + i) = bytes32 (vs ! j) ! i"
proof (induction vs arbitrary: j)
  case (Cons v vs)
  then show ?case by (cases j) (simp_all add: nth_append)
qed simp

lemma load32_write_words:
  assumes "j < length vs" "length vs < 1000"
  shows "load32 (write_words a vs m) (a + 4 * of_nat j) = vs ! j"
proof -
  let ?m = "write_words a vs m"
  have m: "?m (a + of_nat (4 * j + i)) = bytes32 (vs ! j) ! i" if "i < 4" for i
    unfolding write_words_def using assms that nth_words_bytes [of j vs i]
    by (subst write_bytes_nth) (simp_all add: length_words_bytes)
  have "?m (a + 4 * of_nat j) = ucast (vs ! j)" using m [of 0] by (simp add: bytes32_def)
  moreover have "?m (a + 4 * of_nat j + 1) = ucast (drop_bit 8 (vs ! j))"
    using m [of 1] by (simp add: bytes32_def algebra_simps)
  moreover have "?m (a + 4 * of_nat j + 2) = ucast (drop_bit 16 (vs ! j))"
    using m [of 2] by (simp add: bytes32_def algebra_simps)
  moreover have "?m (a + 4 * of_nat j + 3) = ucast (drop_bit 24 (vs ! j))"
    using m [of 3] by (simp add: bytes32_def algebra_simps)
  ultimately show ?thesis by (simp add: load32_def)
qed

lemma ew_loop_words:
  assumes "\<forall>j < length vs. num_arg b av (unat i + 1 + j) 16 = Some (vs ! j)"
    "unat i + length vs = unat (of_int (argc - 1) :: u32)"
  shows "ew_loop argc b av i src s = Some (s\<lparr>mem := write_words src vs (mem s)\<rparr>)"
  using assms
proof (induction vs arbitrary: i src s)
  case Nil
  then show ?case by (subst ew_loop.simps) (simp add: write_words_def word_less_nat_alt)
next
  case (Cons v vs)
  have lt: "i < of_int (argc - 1)" using Cons.prems(2) by (simp add: word_less_nat_alt)
  then have "unat i + 1 < 4294967296" using unat_u32_bound [of "of_int (argc - 1)"] by (simp add: word_less_nat_alt del: unat_u32_bound)
  then have i: "unat (i + 1) = unat i + 1" by (simp add: unat_word_ariths)
  have "\<forall>j < length vs. num_arg b av (unat (i + 1) + 1 + j) 16 = Some (vs ! j)"
  proof (intro allI impI)
    fix j assume "j < length vs"
    then show "num_arg b av (unat (i + 1) + 1 + j) 16 = Some (vs ! j)"
      using Cons.prems(1) [rule_format, of "Suc j"] by (simp add: i)
  qed
  then have "ew_loop argc b av (i + 1) (src + 4) (s\<lparr>mem := store32 src v (mem s)\<rparr>)
      = Some (s\<lparr>mem := write_words (src + 4) vs (store32 src v (mem s))\<rparr>)"
    using Cons.IH [of "i + 1"] Cons.prems(2) by (simp add: i)
  moreover have "num_arg b av (unat i + 1) 16 = Some v" using Cons.prems(1) [rule_format, of 0] by simp
  ultimately show ?case using lt by (subst ew_loop.simps) (simp add: write_words_Cons)
qed

lemma align_word_aligned: "a AND 3 = 0 \<Longrightarrow> align_word a = Some a"
  by (simp add: align_word.simps)

lemma CmdWriteWord_words:
  assumes "args b av (hex8 a # map hex8 vs)" "a AND 3 = 0" "length vs < 1000"
  shows "CmdWriteWord (1 + int (length vs)) b av s = Some (s\<lparr>mem := write_words a vs (mem s)\<rparr>)"
proof -
  have "num_arg b av (Suc j) 16 = Some (vs ! j)" if "j < length vs" for j
    using num_arg_hex [OF assms(1), of "Suc j"] that by simp
  moreover have "unat (word_of_nat (length vs) :: u32) = length vs"
    using assms(3) by (simp add: unat_of_nat)
  ultimately have "ew_loop (1 + int (length vs)) b av 0 a s = Some (s\<lparr>mem := write_words a vs (mem s)\<rparr>)"
    by (intro ew_loop_words) simp_all
  then show ?thesis using num_arg_hex [OF assms(1), of 0 a] align_word_aligned [OF assms(2)]
    by (simp add: CmdWriteWord_def)
qed

text \<open>One row of a word dump, as it appears on the terminal.\<close>

definition word_row :: "u32 \<Rightarrow> u32 list \<Rightarrow> u8 list" where
  "word_row a ws = hex8 a @ [58, 9] @ hex8 (ws ! 0) @ [9] @ hex8 (ws ! 1) @ [9] @ hex8 (ws ! 2) @ [9] @ hex8 (ws ! 3) @ [10, 13]"

definition memory_row :: "memory \<Rightarrow> u32 \<Rightarrow> u8 list" where
  "memory_row m a = word_row a [load32 m a, load32 m (a + 4), load32 m (a + 8), load32 m (a + 12)]"

lemma serial_hex8: "concat (map serial_outc (hex8 v)) = hex8 v"
  by (rule serial_plain [OF graph_plain(1) [OF graph_hex8]])

lemma dprintf_row:
  "dprintf DW_FORMAT [Val a, Val w0, Val w1, Val w2, Val w3] s
     = Some (s\<lparr>console_out := console_out s @ word_row a [w0, w1, w2, w3]\<rparr>)"
  by (simp add: dprintf_def DW_FORMAT_def nl_def hex8_def [symmetric] put_bytes_def serial_hex8 word_row_def serial_outc_def)

lemma dw_loop_rows:
  assumes "n < 1000" "j \<le> (n + 3) div 4"
  shows "dw_loop (of_nat n) (4 * of_nat j) (a + 16 * of_nat j) s = Some (s\<lparr>console_out := console_out s
    @ concat (map (\<lambda>r. memory_row (mem s) (a + 16 * of_nat r))
        [j..<(n + 3) div 4])\<rparr>)"
  using assms(2)
proof (induction "(n + 3) div 4 - j" arbitrary: j s)
  case 0
  then have "n \<le> 4 * j" by linarith
  moreover have "unat (4 * of_nat j :: u32) = 4 * j" using 0 assms(1) by (simp add: unat_word_ariths unat_of_nat)
  ultimately have "\<not> (4 * of_nat j :: u32) < of_nat n"
    using assms(1) by (simp add: word_less_nat_alt unat_of_nat)
  then show ?case using 0 by (simp add: dw_loop.simps)
next
  case (Suc k)
  let ?row = "\<lambda>r. memory_row (mem s) (a + 16 * of_nat r)"
  let ?s = "s\<lparr>console_out := console_out s @ ?row j\<rparr>"
  have j: "j < (n + 3) div 4" using Suc(2) by linarith
  then have "4 * j < n" by linarith
  moreover have "unat (4 * of_nat j :: u32) = 4 * j" using j assms(1) by (simp add: unat_word_ariths unat_of_nat)
  ultimately have lt: "4 * of_nat j < (of_nat n :: u32)" using assms(1) by (simp add: word_less_nat_alt unat_of_nat)
  have row: "dprintf DW_FORMAT [Val (a + 16 * of_nat j), Val (load32 (mem s) (a + 16 * of_nat j)),
      Val (load32 (mem s) (a + 16 * of_nat j + 4)), Val (load32 (mem s) (a + 16 * of_nat j + 8)),
      Val (load32 (mem s) (a + 16 * of_nat j + 12))] s = Some ?s"
    unfolding dprintf_row memory_row_def ..
  have step: "4 * of_nat (Suc j) = 4 * of_nat j + (4 :: u32)" "a + 16 * of_nat (Suc j) = a + 16 * of_nat j + 16"
    by (simp_all add: algebra_simps)
  have "dw_loop (of_nat n) (4 * of_nat (Suc j)) (a + 16 * of_nat (Suc j)) ?s
    = Some (?s\<lparr>console_out := console_out ?s @ concat (map ?row [Suc j..<(n + 3) div 4])\<rparr>)"
    using Suc(1) [of "Suc j" ?s] Suc(2) j by simp
  then have "dw_loop (of_nat n) (4 * of_nat j + 4) (a + 16 * of_nat j + 16) ?s
    = Some (?s\<lparr>console_out := console_out ?s @ concat (map ?row [Suc j..<(n + 3) div 4])\<rparr>)"
    unfolding step .
  then show ?case
    using lt j by (subst dw_loop.simps) (simp add: row upt_conv_Cons)
qed

lemma CmdDumpWord_rows:
  assumes "args b av [hex8 a, [48 + of_nat n]]" "a AND 3 = 0" "0x80000000 \<le> a" "n < 10" "1 \<le> argc"
  shows "CmdDumpWord argc b av s = Some (s\<lparr>console_out := console_out s
    @ concat (map (\<lambda>r. memory_row (mem s) (a + 16 * of_nat r))
        [0..<(n + 3) div 4])\<rparr>)"
proof -
  have "num_arg b av 0 16 = Some a" "num_arg b av 1 10 = Some (of_nat n)"
    using num_arg_hex [OF assms(1), of 0 a] num_arg_digit [OF assms(1), of 1] assms(4) by simp_all
  moreover obtain p q where "arg_ptr av 0 = Some p" "arg_ptr av 1 = Some q"
    using args_ptr [OF assms(1), of 0] args_ptr [OF assms(1), of 1] by auto
  moreover have "\<not> a < 0x80000000" using assms(3) by (simp add: linorder_not_less)
  ultimately show ?thesis
    using align_word_aligned [OF assms(2)] dw_loop_rows [of n 0 a s] assms(4,5)
    by (simp add: CmdDumpWord_def)
qed

lemma memory_row_written:
  assumes "4 * r + 4 \<le> length vs" "length vs < 1000"
  shows "memory_row (write_words a vs m) (a + 16 * of_nat r) = word_row (a + 16 * of_nat r) (drop (4 * r) vs)"
proof -
  have "load32 (write_words a vs m) (a + 16 * of_nat r + 4 * of_nat i) = drop (4 * r) vs ! i" if "i < 4" for i
    using load32_write_words [of "4 * r + i" vs a m] that assms by (simp add: algebra_simps)
  from this [of 0] this [of 1] this [of 2] this [of 3] show ?thesis
    by (simp add: memory_row_def word_row_def)
qed

lemma monitor_EW:
  assumes "typed (say (ascii ''EW'') (map hex8 (a # vs)) @ [KEYCODE_CR]) (uart s) qs"
    and "a AND 3 = 0" "length vs \<le> 12" "run s = Running"
  shows "\<exists>b. monitor_round other s = Some ((line_typed (say (ascii ''EW'') (map hex8 (a # vs))) qs s)
    \<lparr>mem := write_words a vs (mem s), line_buf := b\<rparr>)"
proof -
  let ?l = "say (ascii ''EW'') (map hex8 (a # vs))"
  obtain e where e: "entry (map upper (ascii ''EW'')) (MainCmdTable other) = Some e" "func e = CmdWriteWord"
    using entry_EW by blast
  have name: "graph (ascii ''EW'')" "length (ascii ''EW'') < 9" by (simp_all add: graph_def)
  have "list_all graph (map hex8 (a # vs)) \<and> command_line ?l" by (rule command_line_hex [OF name]) (simp add: assms(3))
  then have g: "list_all graph (map hex8 (a # vs))" and l: "command_line ?l" by blast+
  have "func e (int (length (map hex8 (a # vs)))) b av (line_typed ?l qs s)
      = Some ((line_typed ?l qs s)\<lparr>mem := write_words a vs (mem s)\<rparr>)" if "args b av (map hex8 (a # vs))" for b av
    using CmdWriteWord_words [of b av a vs "line_typed ?l qs s"] that assms(2,3) by (simp add: e(2) line_typed_def)
  from monitor_command [OF assms(1) l words_say [OF name(1) g] e(1) this] assms(4) show ?thesis by (simp add: line_typed_def)
qed

lemma monitor_DW:
  assumes "typed (say (ascii ''DW'') [hex8 a, [48 + of_nat n]] @ [KEYCODE_CR]) (uart s) qs"
    and "a AND 3 = 0" "0x80000000 \<le> a" "n < 10" "run s = Running"
  shows "\<exists>b. monitor_round other s = Some (s\<lparr>uart := qs, console_out := console_out s @ MAIN_PROMPT
    @ say (ascii ''DW'') [hex8 a, [48 + of_nat n]] @ [10, 13]
    @ concat (map (\<lambda>r. memory_row (mem s) (a + 16 * of_nat r)) [0..<(n + 3) div 4]), line_buf := b\<rparr>)"
proof -
  let ?l = "say (ascii ''DW'') [hex8 a, [48 + of_nat n]]"
  obtain e where e: "entry (map upper (ascii ''DW'')) (MainCmdTable other) = Some e" "func e = CmdDumpWord"
    using entry_DW by blast
  have "n \<in> set [0..<10]" using assms(4) by simp
  moreover have "list_all (\<lambda>n. graph [48 + of_nat n]) [0..<10]" by code_simp
  ultimately have "graph [48 + of_nat n]" by (simp only: list_all_iff)
  then have g: "graph (ascii ''DW'')" "list_all graph [hex8 a, [48 + of_nat n]]"
    using graph_hex8 by (simp_all add: graph_def)
  have "length ?l < 127" by (simp add: say_def hex8_def)
  then have l: "command_line ?l" using g by (intro command_line_say) (simp_all add: MAX_ARGV_def)
  let ?t = "(line_typed ?l qs s)\<lparr>console_out := console_out (line_typed ?l qs s)
    @ concat (map (\<lambda>r. memory_row (mem (line_typed ?l qs s)) (a + 16 * of_nat r)) [0..<(n + 3) div 4])\<rparr>"
  have "func e (int (length [hex8 a, [48 + of_nat n]])) b av (line_typed ?l qs s) = Some ?t"
    if "args b av [hex8 a, [48 + of_nat n]]" for b av
    using CmdDumpWord_rows [OF that assms(2-4), of 2 "line_typed ?l qs s"] by (simp add: e(2))
  from monitor_command [OF assms(1) l words_say [OF g] e(1) this] assms(5) show ?thesis by (simp add: line_typed_def)
qed

text \<open>C33: What the command EW writes the command DW shows. Typing EW with an aligned address and up to
  twelve words and then DW with the same address and a length writes the words into the memory, in their
  order, and prints them back in rows of four with their addresses.\<close>

theorem EW_DW_roundtrip:
  assumes "typed (say (ascii ''EW'') (map hex8 (a # vs)) @ [KEYCODE_CR]) (uart s) ps"
    and "typed (say (ascii ''DW'') [hex8 a, [48 + of_nat n]] @ [KEYCODE_CR]) ps qs"
    and "a AND 3 = 0" "0x80000000 \<le> a" "length vs \<le> 12" "n < 10" "4 * ((n + 3) div 4) \<le> length vs" "run s = Running"
  shows "\<exists>t u. monitor_round other s = Some t \<and> monitor_round other t = Some u
    \<and> mem u = write_words a vs (mem s) \<and> uart u = qs
    \<and> console_out u = console_out t @ MAIN_PROMPT @ say (ascii ''DW'') [hex8 a, [48 + of_nat n]] @ [10, 13]
        @ concat (map (\<lambda>r. word_row (a + 16 * of_nat r) (drop (4 * r) vs)) [0..<(n + 3) div 4])"
proof -
  let ?t = "\<lambda>b. (line_typed (say (ascii ''EW'') (map hex8 (a # vs))) ps s)\<lparr>mem := write_words a vs (mem s), line_buf := b\<rparr>"
  obtain b where t: "monitor_round other s = Some (?t b)" using monitor_EW [OF assms(1,3,5,8)] by blast
  have u: "uart (?t b) = ps" "run (?t b) = Running" using assms(8) by (simp_all add: line_typed_def)
  have rows: "map (\<lambda>r. memory_row (mem (?t b)) (a + 16 * of_nat r)) [0..<(n + 3) div 4]
      = map (\<lambda>r. word_row (a + 16 * of_nat r) (drop (4 * r) vs)) [0..<(n + 3) div 4]"
    using assms(5,7) by (intro map_cong refl) (simp add: memory_row_written)
  obtain b' where "monitor_round other (?t b) = Some ((?t b)\<lparr>uart := qs, console_out := console_out (?t b)
    @ MAIN_PROMPT @ say (ascii ''DW'') [hex8 a, [48 + of_nat n]] @ [10, 13]
    @ concat (map (\<lambda>r. word_row (a + 16 * of_nat r) (drop (4 * r) vs)) [0..<(n + 3) div 4]), line_buf := b'\<rparr>)"
    using monitor_DW [OF _ assms(3,4,6) u(2), of qs other] assms(2) unfolding u(1) rows by blast
  then show ?thesis using t by (intro exI conjI) (assumption, assumption, simp_all)
qed

lemma EW_DW_roundtrip_witness:
  "\<exists>t u. monitor_round (\<lambda>_ _ _ _ _. None) (sample_console (map Some (say (ascii ''EW'') (map hex8 [0x80500000, 1, 2, 3, 4]) @ [13])
        @ map Some (say (ascii ''DW'') [hex8 0x80500000, [52]] @ [13]))) = Some t
    \<and> monitor_round (\<lambda>_ _ _ _ _. None) t = Some u
    \<and> mem u = write_words 0x80500000 [1, 2, 3, 4] (\<lambda>_. 0) \<and> uart u = []
    \<and> console_out u = console_out t @ MAIN_PROMPT @ say (ascii ''DW'') [hex8 0x80500000, [52]] @ [10, 13]
        @ word_row 0x80500000 [1, 2, 3, 4]"
proof -
  let ?l = "say (ascii ''EW'') (map hex8 [0x80500000, 1, 2, 3, 4])" and ?m = "say (ascii ''DW'') [hex8 0x80500000, [48 + of_nat 4]]"
  let ?s = "sample_console (map Some (?l @ [KEYCODE_CR]) @ map Some (?m @ [KEYCODE_CR]) @ [])"
  have "typed (?l @ [KEYCODE_CR]) (uart ?s) (map Some (?m @ [KEYCODE_CR]) @ [])" unfolding sample_console_simps by (rule typed_now)
  from EW_DW_roundtrip [OF this typed_now]
  have "\<exists>t u. monitor_round (\<lambda>_ _ _ _ _. None) ?s = Some t \<and> monitor_round (\<lambda>_ _ _ _ _. None) t = Some u
    \<and> mem u = write_words 0x80500000 [1, 2, 3, 4] (mem ?s) \<and> uart u = []
    \<and> console_out u = console_out t @ MAIN_PROMPT @ ?m @ [10, 13]
        @ concat (map (\<lambda>r. word_row (0x80500000 + 16 * of_nat r) (drop (4 * r) [1, 2, 3, 4])) [0..<(4 + 3) div 4])"
    by simp
  then show ?thesis by (simp add: keycodes)
qed

section \<open>The serial receiver\<close>

lemma entry_XMOD: "\<exists>e. entry (map upper (ascii ''XMOD'')) (MainCmdTable other) = Some e \<and> func e = CmdXModem"
  by (rule MainCmdTable_select [of 21]; simp only: MainCmdTable_names MainCmdTable_funcs; simp add: upper_def)

lemma run_put_bytes [simp]:
  "run (put_bytes bs s) = run s" "mem (put_bytes bs s) = mem s" "uart (put_bytes bs s) = uart s" "flash (put_bytes bs s) = flash s"
  by (simp_all add: put_bytes_def)

lemma CmdXModem_returned:
  assumes "args b av [hex8 a, hex8 j]" "j \<noteq> 0" "xmodem_receive a (mem s) (uart s) = Returned len x qs"
  shows "\<exists>t. CmdXModem 2 b av s = Some t
    \<and> (mem t = ram x \<and> uart t = qs \<and> (if len = 0 then run t = Jumped a else run t = run s))"
proof -
  have "num_arg b av 0 16 = Some a" "num_arg b av 1 16 = Some j"
    using num_arg_hex [OF assms(1), of 0 a] num_arg_hex [OF assms(1), of 1 j] by simp_all
  then show ?thesis using assms(2,3)
    by (cases "len = 0") (simp_all add: CmdXModem_def dprintf_def nl_def vsprintf_text)
qed

text \<open>C34: \<^verbatim>\<open>XMOD address 1\<close> asks for a jump into the file it receives. The command comes back to the
  monitor when a file was received, and jumps exactly when nothing was: a transfer that is given up
  starts whatever memory held at the address before.\<close>

theorem xmod_jumps_when_failed:
  assumes "typed (say (ascii ''XMOD'') [hex8 a, hex8 j] @ [KEYCODE_CR]) (uart s) ps" "j \<noteq> 0"
    and "xmodem_receive a (mem s) ps = Returned len x qs" "run s = Running"
  shows "\<exists>t. monitor_round other s = Some t \<and> mem t = ram x \<and> uart t = qs
    \<and> run t = (if len = 0 then Jumped a else Running)"
proof -
  let ?l = "say (ascii ''XMOD'') (map hex8 [a, j])"
  let ?s = "line_typed ?l ps s"
  obtain e where e: "entry (map upper (ascii ''XMOD'')) (MainCmdTable other) = Some e" "func e = CmdXModem"
    using entry_XMOD by blast
  have name: "graph (ascii ''XMOD'')" "length (ascii ''XMOD'') < 9" by (simp_all add: graph_def)
  have "list_all graph (map hex8 [a, j]) \<and> command_line ?l" by (rule command_line_hex [OF name]) simp
  then have g: "list_all graph (map hex8 [a, j])" "command_line ?l" by blast+
  have x: "xmodem_receive a (mem ?s) (uart ?s) = Returned len x qs" using assms(3) by (simp add: line_typed_def)
  have ty: "typed (?l @ [KEYCODE_CR]) (uart s) ps" using assms(1) by simp
  have w: "words ?l = ascii ''XMOD'' # map hex8 [a, j]" using words_say [OF name(1) g(1)] .
  have call: "\<exists>t. func e (int (length (map hex8 [a, j]))) b av ?s = Some t
      \<and> (mem t = ram x \<and> uart t = qs \<and> (if len = 0 then run t = Jumped a else run t = run ?s))"
    if "args b av (map hex8 [a, j])" for b av
    using CmdXModem_returned [of b av a j ?s] that assms(2) x by (simp add: e(2))
  from monitor_calls [OF ty g(2) w e(1) call] obtain t b where
    t: "monitor_round other s = Some (if run t = Running then t\<lparr>line_buf := b\<rparr> else t)" "mem t = ram x" "uart t = qs"
      "if len = 0 then run t = Jumped a else run t = run ?s" by blast
  have "run ?s = Running" using assms(4) by (simp add: line_typed_def)
  then show ?thesis using t by (cases "len = 0") auto
qed

text \<open>Control-C instead of a file.\<close>

lemma xmod_jumps_when_failed_witness:
  "\<exists>t. monitor_round (\<lambda>_ _ _ _ _. None)
      (sample_console (map Some (say (ascii ''XMOD'') [hex8 0x80300000, hex8 1] @ [13]) @ [Some 3])) = Some t
    \<and> mem t = (\<lambda>_. 0) \<and> uart t = [] \<and> run t = Jumped 0x80300000"
proof -
  let ?l = "say (ascii ''XMOD'') [hex8 0x80300000, hex8 1]"
  let ?s = "sample_console (map Some (?l @ [KEYCODE_CR]) @ [Some 3])"
  define x where "x = cancel (putc NAK \<lparr>st = XMODEM_RX_READY, retry = RETRY, block_index = 1, ptr = 0x80300000,
    rx_size = 0, ram = (\<lambda>_. 0), sent = []\<rparr>)"
  have x: "xmodem_receive 0x80300000 (mem ?s) [Some 3] = Returned 0 x []"
    by (simp add: xmodem_receive_def xm_loop.simps x_def putc_def RETRY_def TIMEOUT_def SOH_def)
  have "ram x = (\<lambda>_. 0)" by (simp add: x_def cancel_def putc_def)
  moreover have "typed (?l @ [KEYCODE_CR]) (uart ?s) [Some 3]" unfolding sample_console_simps by (rule typed_now)
  ultimately show ?thesis
    using xmod_jumps_when_failed [of "0x80300000" 1 ?s "[Some 3]" 0 x "[]"] x by (simp add: keycodes)
qed

section \<open>Deleted words\<close>

lemma concat_backspaces: "concat (map serial_outc (concat (replicate k [KEYCODE_BS, 32, KEYCODE_BS]))) = concat (replicate k [8, 32, 8])"
  by (induction k) (simp_all add: serial_outc_def keycodes)

lemma split_at_next:
  assumes "split_at 0 0 l b av0 b1 av1" "split_at (length l + 1) (length (words l)) m b1 av1 b2 av2"
    and "i < length (words l)"
  shows "\<exists>q. av2 ! i = Some q \<and> is_cstr b2 q (words l ! i) \<and> (if i = 0 then q = 0 else length (words l ! 0) < q)"
proof -
  obtain q where q: "av1 ! i = Some q" "is_cstr b1 q (words l ! i)" "if i = 0 then q = 0 else length (words l ! 0) < q"
      "q + length (words l ! i) \<le> length l"
    using split_atD [OF assms(1,3)] unfolding add_0 by blast
  have "\<forall>k. k < length l + 1 \<longrightarrow> b2 k = b1 k" "av2 ! i = av1 ! i"
    using assms(2,3) by (simp_all add: split_at_def)
  moreover from this(1) have "is_cstr b2 q (words l ! i)" using q(2,4) is_cstr_cong [OF q(2)] by simp
  ultimately show ?thesis using q by auto
qed

text \<open>Two strings in a row: all words of both, but only those of the first are counted.\<close>

lemma GetArgv_two:
  assumes "is_cstr b 0 l" "l \<noteq> []" "hd l \<noteq> 32" "last l \<noteq> 32" "is_cstr b (length l + 1) m" "m \<noteq> []" "hd m \<noteq> 32"
    and "b (length l + 1 + length m + 1) = 0" "length (words l) + length (words m) < MAX_ARGV"
  shows "\<exists>b' av. GetArgv b = Some (b', av) \<and> holds b' av (words l @ words m)"
proof -
  let ?p = "length l + 1" and ?n = "length (words l)" and ?av = "replicate MAX_ARGV None"
  have "b (length l + 1) = hd m" using assms(5,6) by (cases m) auto
  then have "b (0 + length l + 1) \<noteq> 32" using assms(7) by simp
  then obtain b1 av1 where one: "argv_loop b 0 0 ?av = argv_loop b1 ?p ?n av1" "split_at 0 0 l b ?av b1 av1"
    using argv_loop_words [OF assms(1), of 0 ?av] assms(2-4,9) by auto
  have b1: "b1 k = b k" if "length l \<le> k" for k using one(2) that by (simp add: split_at_def)
  have "is_cstr b1 ?p m" using assms(5) by (rule is_cstr_cong) (simp add: b1)
  moreover have "b1 (?p + length m + 1) \<noteq> 32" using assms(8) by (simp add: b1)
  moreover have "length av1 = MAX_ARGV" using one(2) by (simp add: split_at_def)
  ultimately obtain b2 av2 q where two: "argv_loop b1 ?p ?n av1 = argv_loop b2 q (?n + length (words m)) av2"
      "split_at ?p ?n m b1 av1 b2 av2" "q = ?p + length m \<or> q = ?p + length m + 1"
    using argv_loop_words [of b1 ?p m ?n av1] assms(7,9) by (auto split: if_splits)
  have "b q = 0" using two(3) assms(8) is_cstr_end [OF assms(5)] by auto
  then have "b2 q = 0" using two(2,3) b1 by (auto simp: split_at_def)
  then have "GetArgv b = Some (b2, av2)" unfolding GetArgv_def one(1) two(1) by (simp add: argv_loop.simps [of b2 q])
  moreover have "holds b2 av2 (words l @ words m)"
  proof -
    have "words l \<noteq> []" using words_word [OF assms(3), of "tl l"] assms(2) by simp
    then have n: "0 < ?n" "(words l @ words m) ! 0 = words l ! 0" by (simp_all add: nth_append)
    have first: "length (words l ! 0) \<le> length l" using split_atD [OF one(2) n(1)] by auto
    have second: "\<exists>q. av2 ! i = Some q \<and> is_cstr b2 q (words m ! (i - ?n)) \<and> ?p \<le> q"
      if "?n \<le> i" "i < ?n + length (words m)" for i
    proof -
      have "i - ?n < length (words m)" using that by linarith
      from split_atD [OF two(2) this] obtain q
        where "?p \<le> q" "av2 ! (?n + (i - ?n)) = Some q" "is_cstr b2 q (words m ! (i - ?n))" by blast
      then show ?thesis using that(1) by auto
    qed
    have "\<exists>q. av2 ! i = Some q \<and> is_cstr b2 q ((words l @ words m) ! i)
        \<and> (if i = 0 then q = 0 else length ((words l @ words m) ! 0) < q)" if "i < length (words l @ words m)" for i
    proof (cases "i < ?n")
      case True
      then show ?thesis using split_at_next [OF one(2) two(2) True] unfolding n(2) by (simp add: nth_append)
    next
      case False
      then have "?n \<le> i" "i < ?n + length (words m)" using that by simp_all
      then obtain q where "av2 ! i = Some q" "is_cstr b2 q (words m ! (i - ?n))" "?p \<le> q"
        using second by blast
      moreover have "0 < i" using \<open>?n \<le> i\<close> n(1) by linarith
      ultimately show ?thesis using False first unfolding n(2) by (intro exI [of _ q]) (auto simp: nth_append)
    qed
    moreover have "av2 ! i = None" if "?n + length (words m) \<le> i" "i < MAX_ARGV" for i
      using one(2) two(2) that by (simp add: split_at_def)
    moreover have "length av2 = MAX_ARGV" using one(2) two(2) by (simp add: split_at_def)
    ultimately show ?thesis unfolding holds_def using assms(9) by simp
  qed
  ultimately show ?thesis by blast
qed

text \<open>C35: Deleted words stay. A line is typed, then a blank and more words, and these are taken back
  with the backspace key. The command that is called gets the number of the words left, but pointers to
  the deleted words too: a command that looks for an argument by its pointer finds one.\<close>

theorem deleted_words_stay:
  assumes "typed (l @ 32 # m @ replicate (Suc (length m)) KEYCODE_BS @ [KEYCODE_CR]) (uart s) qs"
    and "command_line l" "command_line m" "last l \<noteq> 32" "length l + length m < 126"
    and "length (words l) + length (words m) < MAX_ARGV"
    and "entry (map upper (hd (words l))) (MainCmdTable other) = Some e"
  shows "\<exists>b av. args b av (tl (words l) @ words m) \<and> monitor_round other s =
    (case func e (int (length (words l)) - 1) b av (line_typed (l @ 32 # m @ concat (replicate (Suc (length m)) [8, 32, 8])) qs s)
     of None \<Rightarrow> None | Some t \<Rightarrow> Some (if run t = Running then t\<lparr>line_buf := clear_bytes b 0 4\<rparr> else t))"
proof -
  let ?c = "clear_bytes (line_buf s) 0 (unat MAX_MONITOR_BUFFER)" and ?lm = "l @ 32 # m" and ?k = "Suc (length m)"
  let ?keys = "?lm @ replicate ?k KEYCODE_BS" and ?s = "s\<lparr>console_out := console_out s @ MAIN_PROMPT\<rparr>"
  let ?g = "\<lparr>g_buf = ?c, g_p = 0, g_n = 0, g_echo = []\<rparr>" and ?b = "(overlay 0 ?lm ?c)(length l := 0)"
  have l: "list_all plain l" "l \<noteq> []" "hd l \<noteq> 32" and m: "list_all plain m" "m \<noteq> []" "hd m \<noteq> 32"
    using assms(2,3) by (simp_all add: command_line_def)
  have lm: "list_all plain ?lm" using l m by (simp add: plain_def)
  let ?echo = "?lm @ concat (replicate ?k [KEYCODE_BS, 32, KEYCODE_BS])"
  have fold: "gl_fold True ?keys ?g = \<lparr>g_buf = overlay 0 ?lm ?c, g_p = length l, g_n = of_nat (length l), g_echo = ?echo\<rparr>"
  proof -
    have "gl_fold True ?lm ?g = \<lparr>g_buf = overlay 0 ?lm ?c, g_p = length ?lm, g_n = of_nat (length ?lm), g_echo = ?lm\<rparr>"
      using gl_fold_plain [OF lm, of True ?g] by simp
    moreover have "gl_fold True ?keys ?g = gl_fold True (replicate ?k KEYCODE_BS) (gl_fold True ?lm ?g)"
      by (simp add: gl_fold_def)
    ultimately show ?thesis
      using gl_fold_backspaces [of ?k "\<lparr>g_buf = overlay 0 ?lm ?c, g_p = length ?lm, g_n = of_nat (length ?lm), g_echo = ?lm\<rparr>" True]
      by simp
  qed
  have "fits (unat MAX_MONITOR_BUFFER) ?keys"
  proof (rule fits_no_tab)
    have "list_all editing ?lm" using lm plain_key(1) by (simp add: list_all_iff)
    moreover have "list_all editing (replicate ?k KEYCODE_BS)"
      unfolding list_all_iff by (auto simp: editing_def keycodes)
    ultimately show "list_all editing ?keys" unfolding list_all_append by blast
    have "KEYCODE_TAB \<notin> set ?lm" using lm plain_key(5) by (metis list_all_iff)
    then show "KEYCODE_TAB \<notin> set ?keys" by (simp add: keycodes)
    show "length (filter (\<lambda>c. c \<noteq> KEYCODE_BS \<and> c \<noteq> KEYCODE_CTRL_BS) ?keys) < unat MAX_MONITOR_BUFFER"
      using add_mono [OF length_filter_le [of "\<lambda>c. c \<noteq> KEYCODE_BS \<and> c \<noteq> KEYCODE_CTRL_BS" l]
          length_filter_le [of "\<lambda>c. c \<noteq> KEYCODE_BS \<and> c \<noteq> KEYCODE_CTRL_BS" m]] assms(5)
      by (simp add: MAX_MONITOR_BUFFER_def keycodes)
  qed
  from GetLine_typed [OF _ this fold [symmetric], of ?s qs]
  have "GetLine ?c MAX_MONITOR_BUFFER True ?s = Some (?b, put_bytes ?echo (?s\<lparr>uart := qs\<rparr>))"
    using assms(1) by simp
  moreover have "put_bytes nl (put_bytes ?echo (?s\<lparr>uart := qs\<rparr>))
      = line_typed (l @ 32 # m @ concat (replicate ?k [8, 32, 8])) qs s"
    using concat_backspaces [of ?k] serial_plain [OF l(1)] serial_plain [OF m(1)]
    by (simp add: line_typed_def put_bytes_def nl_def serial_outc_def del: replicate.simps)
  ultimately have round: "monitor_round other s
      = run_line other ?b (line_typed (l @ 32 # m @ concat (replicate ?k [8, 32, 8])) qs s)"
    by (simp del: ascii_simps replicate.simps add: monitor_round_def dprintf_string put_prompt dprintf_text nl_def)
  have b: "?b k = ?lm ! k" if "k < length ?lm" "k \<noteq> length l" for k using that by (simp add: overlay_def)
  have b0: "?b k = 0" if "length ?lm \<le> k" "k < 128" for k
    using that by (simp add: overlay_def clear_bytes_def MAX_MONITOR_BUFFER_def)
  have cl: "is_cstr ?b 0 l"
  proof (rule is_cstrI)
    fix k assume k: "k < length l"
    then have "plain (l ! k)" using l(1) by (simp add: list_all_length)
    then show "?b (0 + k) = l ! k \<and> l ! k \<noteq> 0" using k b [of k] plain_key(2) by (simp add: nth_append)
  qed simp
  have cm: "is_cstr ?b (length l + 1) m"
  proof (rule is_cstrI)
    fix k assume k: "k < length m"
    then have "plain (m ! k)" using m(1) by (simp add: list_all_length)
    then show "?b (length l + 1 + k) = m ! k \<and> m ! k \<noteq> 0"
      using k b [of "length l + 1 + k"] plain_key(2) by (simp add: nth_append)
  next
    show "?b (length l + 1 + length m) = 0" using assms(5) by (intro b0) simp_all
  qed
  have "?b (length l + 1 + length m + 1) = 0" using assms(5) by (intro b0) simp_all
  then obtain b' av where av: "GetArgv ?b = Some (b', av)" "holds b' av (words l @ words m)"
    using GetArgv_two [OF cl l(2,3) assms(4) cm m(2,3) _ assms(6)] by blast
  have ne: "words l \<noteq> []" using words_word [OF l(3), of "tl l"] l(2) by simp
  have argc: "GetArgc ?b = Some (length (words l))" using GetArgc_words [OF cl] assms(6) by simp
  have one: "1 \<le> length (words l)" using ne by (simp add: Suc_le_eq)
  have heads: "words l @ words m \<noteq> []" "hd (words l @ words m) = hd (words l)" "tl (words l @ words m) = tl (words l) @ words m"
    using ne by simp_all
  from run_line_holds [OF argc one av heads(1), where other = other
      and s = "line_typed (l @ 32 # m @ concat (replicate ?k [8, 32, 8])) qs s"]
  show ?thesis unfolding round heads(2,3) assms(7) option.case .
qed

text \<open>A length that was typed and taken back: two rows are dumped instead of one.\<close>

lemma deleted_words_stay_witness:
  "let keys = say (ascii ''DW'') [hex8 0x80500000] @ 32 # [56] @ replicate 2 KEYCODE_BS @ [KEYCODE_CR]
   in \<exists>t. monitor_round (\<lambda>_ _ _ _ _. None) (sample_console (map Some keys)) = Some t
     \<and> console_out t = MAIN_PROMPT @ say (ascii ''DW'') [hex8 0x80500000] @ [32, 56, 8, 32, 8, 8, 32, 8] @ [10, 13]
         @ word_row 0x80500000 [0, 0, 0, 0] @ word_row 0x80500010 [0, 0, 0, 0]"
proof -
  let ?l = "say (ascii ''DW'') [hex8 0x80500000]" and ?other = "(\<lambda>_ _ _ _ _. None) :: unit console_state_scheme commands"
  let ?keys = "?l @ 32 # [56] @ replicate (Suc (length [56 :: u8])) KEYCODE_BS @ [KEYCODE_CR]"
  let ?s = "sample_console (map Some ?keys)"
  let ?t = "line_typed (?l @ 32 # [56] @ concat (replicate (Suc (length [56 :: u8])) [8, 32, 8])) [] ?s"
  obtain e where e: "entry (map upper (ascii ''DW'')) (MainCmdTable ?other) = Some e" "func e = CmdDumpWord"
    using entry_DW by blast
  have name: "graph (ascii ''DW'')" "length (ascii ''DW'') < 9" by (simp_all add: graph_def)
  have "list_all graph (map hex8 [0x80500000]) \<and> command_line (say (ascii ''DW'') (map hex8 [0x80500000]))"
    by (rule command_line_hex [OF name]) simp
  then have g: "list_all graph [hex8 0x80500000]" and l: "command_line ?l" by auto
  have w: "words ?l = [ascii ''DW'', hex8 0x80500000]" using words_say [OF name(1) g] .
  have "graph [56]" by (simp add: graph_def)
  then have wm: "words [56] = [[56]]" by (rule words_graph(2))
  have m: "command_line [56]" using wm by (simp add: command_line_def plain_def MAX_ARGV_def)
  have ty: "typed ?keys (uart ?s) []" using typed_now [of ?keys "[]"] by simp
  have "list_all (\<lambda>c. c \<noteq> 32) (hex8 0x80500000)" "length (hex8 0x80500000) = 8"
    using graph_plain(2) [OF graph_hex8] by (auto simp: list_all_iff hex8_def)
  then have last: "last ?l \<noteq> 32" by (cases "hex8 0x80500000" rule: rev_cases) (auto simp: say_def)
  have len: "length ?l + length [56 :: u8] < 126" by (simp add: say_def hex8_def)
  have count: "length (words ?l) + length (words [56]) < MAX_ARGV" unfolding w wm by (simp add: MAX_ARGV_def)
  have "entry (map upper (hd (words ?l))) (MainCmdTable ?other) = Some e" unfolding w using e(1) by simp
  from deleted_words_stay [OF ty l m last len count this] obtain b av where
    "args b av (tl (words ?l) @ words [56])" "monitor_round ?other ?s = (case func e (int (length (words ?l)) - 1) b av ?t
      of None \<Rightarrow> None | Some t \<Rightarrow> Some (if run t = Running then t\<lparr>line_buf := clear_bytes b 0 4\<rparr> else t))"
    by blast
  then have av: "args b av [hex8 0x80500000, [48 + of_nat 8]]" "monitor_round ?other ?s = (case CmdDumpWord 1 b av ?t
      of None \<Rightarrow> None | Some t \<Rightarrow> Some (if run t = Running then t\<lparr>line_buf := clear_bytes b 0 4\<rparr> else t))"
    unfolding w wm e(2) by simp_all
  have "mem ?t = (\<lambda>_. 0)" "run ?t = Running" by (simp_all add: line_typed_def)
  moreover have "[0..<(8 + 3) div 4] = [0, Suc 0]" by code_simp
  ultimately have "CmdDumpWord 1 b av ?t = Some (?t\<lparr>console_out := console_out ?t
      @ word_row 0x80500000 [0, 0, 0, 0] @ word_row 0x80500010 [0, 0, 0, 0]\<rparr>)"
    using CmdDumpWord_rows [OF av(1), of 1 ?t] by (simp add: memory_row_def load32_def le32_def)
  then show ?thesis using av(2) by (simp add: line_typed_def numeral_2_eq_2 Let_def)
qed

section \<open>Flash commands\<close>

lemma entry_FLW: "\<exists>e. entry (map upper (ascii ''FLW'')) (MainCmdTable other) = Some e \<and> func e = CmdSFlw"
  by (rule MainCmdTable_select [of 13]; simp only: MainCmdTable_names MainCmdTable_funcs; simp add: upper_def)

lemma entry_FLR: "\<exists>e. entry (map upper (ascii ''FLR'')) (MainCmdTable other) = Some e \<and> func e = CmdFlr"
  by (rule MainCmdTable_select [of 12]; simp only: MainCmdTable_names MainCmdTable_funcs; simp add: upper_def)

text \<open>The answer y.\<close>

lemma YesOrNo_yes:
  assumes "typed [121, KEYCODE_CR] (uart s) qs"
  shows "\<exists>t. YesOrNo s = Some (True, t) \<and> uart t = qs \<and> run t = run s \<and> mem t = mem s \<and> flash t = flash s"
proof -
  have "typed ([121] @ [KEYCODE_CR]) (uart s) qs" "list_all plain [121]" "length [121 :: u8] < unat (2 :: u32)"
    using assms by (simp_all add: plain_def)
  from GetLine_plain [OF this, of "answer_buf s"] show ?thesis
    by (simp add: YesOrNo_def dprintf_text nl_def overlay_def)
qed

lemma num_args_hex:
  assumes "args b av (map hex8 [x, y, z])"
  shows "num_arg b av 0 16 = Some x" "num_arg b av (Suc 0) 16 = Some y" "num_arg b av 2 16 = Some z"
  using num_arg_hex [OF assms, of 0] num_arg_hex [OF assms, of 1] num_arg_hex [OF assms, of 2] by simp_all

lemma CmdSFlw_yes:
  assumes "args b av (map hex8 [dst, src, len])" "typed [121, KEYCODE_CR] (uart s) qs"
  shows "\<exists>t. CmdSFlw 3 b av s = Some t \<and> uart t = qs \<and> run t = run s \<and> mem t = mem s
    \<and> flash t = snd (spi_flw_image (flash s) dst src len (mem s))"
proof -
  obtain s1 where s1: "dprintf (ascii ''Write 0x%x Bytes to SPI flash#%d, offset 0x%x<0x%x>, from RAM 0x%x to 0x%x'' @ nl)
      [Val len, Val 1, Val dst, Val (dst + FLASH_BASE), Val src, Val (src + len)] s = Some s1"
      "run s1 = run s" "mem s1 = mem s" "flash s1 = flash s" "uart s1 = uart s"
    by (simp add: dprintf_def nl_def)
  let ?s2 = "put_bytes (ascii ''(Y)es, (N)o->'') s1"
  have s2: "dprintf (ascii ''(Y)es, (N)o->'') [] s1 = Some ?s2" by (rule dprintf_text) simp
  obtain t where "YesOrNo ?s2 = Some (True, t)" "uart t = qs" "run t = run ?s2" "mem t = mem ?s2" "flash t = flash ?s2"
    using YesOrNo_yes [of ?s2 qs] assms(2) s1(5) by auto
  then show ?thesis using s1 s2 num_args_hex [OF assms(1)] by (simp add: CmdSFlw_def del: ascii_simps)
qed

lemma CmdFlr_yes:
  assumes "args b av (map hex8 [dst, src, len])" "typed [121, KEYCODE_CR] (uart s) qs" "m25p_ok (flash s)"
  shows "\<exists>t. CmdFlr 3 b av s = Some t \<and> uart t = qs \<and> run t = run s \<and> flash t = ready (flash s)
    \<and> mem t = write_bytes dst (map (\<lambda>k. cells (chip (flash s)) ((unat src + k) mod nor_size (chip (flash s)))) [0..<unat len]) (mem s)"
proof -
  let ?s = "s\<lparr>file_length_to_client := len\<rparr>"
  obtain s1 where s1: "dprintf (ascii ''Flash read from %X to %X with %X bytes'' @ [9, 63] @ nl) [Val src, Val dst, Val len] ?s = Some s1"
      "run s1 = run s" "mem s1 = mem s" "flash s1 = flash s" "uart s1 = uart s"
    by (simp add: dprintf_def nl_def)
  let ?s2 = "put_bytes (ascii ''(Y)es , (N)o ? --> '') s1"
  have s2: "dprintf (ascii ''(Y)es , (N)o ? --> '') [] s1 = Some ?s2" by (rule dprintf_text) simp
  obtain t where "YesOrNo ?s2 = Some (True, t)" "uart t = qs" "run t = run ?s2" "mem t = mem ?s2" "flash t = flash ?s2"
    using YesOrNo_yes [of ?s2 qs] assms(2) s1(5) by auto
  moreover have "dprintf (ascii ''Flash Read Successed!'' @ nl) [] u = Some (put_bytes (ascii ''Flash Read Successed!'' @ nl) u)" for u :: "'a console_state_scheme"
    by (rule dprintf_text) (simp add: nl_def)
  ultimately show ?thesis using s1 s2 num_args_hex [OF assms(1)] flashread_ok [OF assms(3)]
    by (simp add: CmdFlr_def Let_def del: ascii_simps)
qed

text \<open>The typed command reaches the function, which gets the three numbers.\<close>

lemma monitor_three:
  assumes "typed (say name (map hex8 [x, y, z]) @ [KEYCODE_CR]) (uart s) ps" "graph name" "length name < 9"
    and "\<exists>e. entry (map upper name) (MainCmdTable other) = Some e \<and> func e = f" and "run s = Running"
    and "\<And>b av. args b av (map hex8 [x, y, z]) \<Longrightarrow>
      \<exists>t. f 3 b av (line_typed (say name (map hex8 [x, y, z])) ps s) = Some t \<and> run t = Running \<and> P t"
  shows "\<exists>t b. monitor_round other s = Some (t\<lparr>line_buf := b\<rparr>) \<and> run t = Running \<and> P t"
proof -
  have "list_all graph (map hex8 [x, y, z]) \<and> command_line (say name (map hex8 [x, y, z]))"
    by (rule command_line_hex [OF assms(2,3)]) simp
  then have g: "list_all graph (map hex8 [x, y, z])" and l: "command_line (say name (map hex8 [x, y, z]))" by blast+
  obtain e where e: "entry (map upper name) (MainCmdTable other) = Some e" "func e = f" using assms(4) by blast
  have "\<exists>t. func e (int (length (map hex8 [x, y, z]))) b av (line_typed (say name (map hex8 [x, y, z])) ps s) = Some t
      \<and> run t = Running \<and> P t" if "args b av (map hex8 [x, y, z])" for b av
    using assms(6) [OF that] by (simp add: e(2))
  from monitor_calls [OF assms(1) l words_say [OF assms(2) g] e(1) this] obtain t b
    where "monitor_round other s = Some (if run t = Running then t\<lparr>line_buf := b\<rparr> else t)" "run t = Running" "P t" by blast
  then show ?thesis by (intro exI [of _ t] exI [of _ b]) simp
qed

text \<open>C12: From memory to flash and back at the keyboard. FLW copies a block of memory to the flash after a y,
  FLR copies the block of flash to memory after another; then memory holds the same bytes at the
  destination as at the source before, for every offset and length that fit into the chip.\<close>

theorem FLW_FLR_roundtrip:
  assumes "typed (say (ascii ''FLW'') (map hex8 [off, addr, len]) @ [KEYCODE_CR]) (uart s) p1"
    "typed [121, KEYCODE_CR] p1 p2"
    "typed (say (ascii ''FLR'') (map hex8 [dst, off, len]) @ [KEYCODE_CR]) p2 p3" "typed [121, KEYCODE_CR] p3 qs"
    and ok: "m25p_ok (flash s)" and fits: "unat off + unat len \<le> nor_size (chip (flash s))" and "run s = Running"
  shows "\<exists>t u. monitor_round other s = Some t \<and> monitor_round other t = Some u \<and> uart u = qs
    \<and> read_bytes (mem u) dst (unat len) = read_bytes (mem s) addr (unat len)"
proof -
  let ?n = "unat len" and ?o = "unat off" and ?S = "nor_size (chip (flash s))"
  obtain c where c: "spi_flw_image (flash s) off addr len (mem s) = (True, with_cells (flash s) c)"
    "\<And>a. a < ?S \<Longrightarrow> ?o \<le> a \<Longrightarrow> a < ?o + ?n \<Longrightarrow> c a = mem s (addr + of_nat (a - ?o))"
    using spi_flw_image_cells [OF ok fits, of addr "mem s"] by auto
  have name: "graph (ascii ''FLW'')" "graph (ascii ''FLR'')" "length (ascii ''FLW'') < 9" "length (ascii ''FLR'') < 9"
    by (simp_all add: graph_def)
  let ?s1 = "line_typed (say (ascii ''FLW'') (map hex8 [off, addr, len])) p1 s"
  have s1: "uart ?s1 = p1" "run ?s1 = Running" "mem ?s1 = mem s" "flash ?s1 = flash s"
    using assms(7) by (simp_all add: line_typed_def)
  obtain t b where t: "monitor_round other s = Some (t\<lparr>line_buf := b\<rparr>)" "run t = Running" "uart t = p2" "mem t = mem s"
      "flash t = with_cells (flash s) c"
  proof -
    have "\<exists>t b. monitor_round other s = Some (t\<lparr>line_buf := b\<rparr>) \<and> run t = Running
        \<and> (uart t = p2 \<and> mem t = mem s \<and> flash t = with_cells (flash s) c)"
    proof (rule monitor_three [OF assms(1) name(1,3) entry_FLW assms(7)])
      fix b av assume "args b av (map hex8 [off, addr, len])"
      from CmdSFlw_yes [OF this, of ?s1 p2] show "\<exists>t. CmdSFlw 3 b av ?s1 = Some t \<and> run t = Running
        \<and> (uart t = p2 \<and> mem t = mem s \<and> flash t = with_cells (flash s) c)"
        unfolding s1 c(1) using assms(2) by auto
    qed
    then show ?thesis using that by blast
  qed
  let ?t = "t\<lparr>line_buf := b\<rparr>"
  let ?s2 = "line_typed (say (ascii ''FLR'') (map hex8 [dst, off, len])) p3 ?t"
  have s2: "uart ?s2 = p3" "run ?s2 = Running" "mem ?s2 = mem s" "flash ?s2 = with_cells (flash s) c" "m25p_ok (flash ?s2)"
    using t ok by (simp_all add: line_typed_def)
  have read: "map (\<lambda>k. c ((?o + k) mod ?S)) [0..<?n] = read_bytes (mem s) addr ?n"
    using fits c(2) by (intro nth_equalityI) (simp_all add: read_bytes_nth)
  have ty: "typed (say (ascii ''FLR'') (map hex8 [dst, off, len]) @ [KEYCODE_CR]) (uart ?t) p3" "run ?t = Running"
    using assms(3) t(2,3) by simp_all
  have "\<exists>u b. monitor_round other ?t = Some (u\<lparr>line_buf := b\<rparr>) \<and> run u = Running
      \<and> (uart u = qs \<and> mem u = write_bytes dst (read_bytes (mem s) addr ?n) (mem s))"
  proof (rule monitor_three [OF ty(1) name(2,4) entry_FLR ty(2)])
    fix b av assume "args b av (map hex8 [dst, off, len])"
    from CmdFlr_yes [OF this, of ?s2 qs] show "\<exists>u. CmdFlr 3 b av ?s2 = Some u \<and> run u = Running
      \<and> (uart u = qs \<and> mem u = write_bytes dst (read_bytes (mem s) addr ?n) (mem s))"
      using assms(4) s2 read by auto
  qed
  then obtain u b' where u: "monitor_round other ?t = Some (u\<lparr>line_buf := b'\<rparr>)" "uart u = qs"
      "mem u = write_bytes dst (read_bytes (mem s) addr ?n) (mem s)" by blast
  have "?n \<le> 2 ^ 32" by (rule less_imp_le) simp
  then have "read_bytes (mem u) dst ?n = read_bytes (mem s) addr ?n"
    using read_write_bytes [of "read_bytes (mem s) addr ?n" dst "mem s"] unfolding u(3) by simp
  then show ?thesis using t(1) u(1,2) by (intro exI [of _ ?t] exI [of _ "u\<lparr>line_buf := b'\<rparr>"]) simp
qed

lemma FLW_FLR_roundtrip_witness:
  "let keys = say (ascii ''FLW'') (map hex8 [0x1000, 0x80500000, 8]) @ [13, 121, 13]
      @ say (ascii ''FLR'') (map hex8 [0x80600000, 0x1000, 8]) @ [13, 121, 13]
   in \<exists>t u. monitor_round (\<lambda>_ _ _ _ _. None) (sample_console (map Some keys)) = Some t
     \<and> monitor_round (\<lambda>_ _ _ _ _. None) t = Some u \<and> uart u = []
     \<and> read_bytes (mem u) 0x80600000 8 = replicate 8 0"
proof -
  let ?l = "say (ascii ''FLW'') (map hex8 [0x1000, 0x80500000, 8]) @ [KEYCODE_CR]" and ?y = "[121, KEYCODE_CR]"
  let ?r = "say (ascii ''FLR'') (map hex8 [0x80600000, 0x1000, 8]) @ [KEYCODE_CR]"
  let ?s = "sample_console (map Some ?l @ map Some ?y @ map Some ?r @ map Some ?y @ [])"
  have ty: "typed ?l (uart ?s) (map Some ?y @ map Some ?r @ map Some ?y @ [])" unfolding sample_console_simps by (rule typed_now)
  have ok: "m25p_ok (flash ?s)" "unat (0x1000 :: u32) + unat (8 :: u32) \<le> nor_size (chip (flash ?s))"
    using sample_flash_ok by (simp_all add: sample_flash_def)
  have eight: "replicate 8 (0 :: u8) = [0, 0, 0, 0, 0, 0, 0, 0]" by code_simp
  have zero: "read_bytes (mem ?s) 0x80500000 (unat (8 :: u32)) = replicate (unat (8 :: u32)) 0"
    by (simp add: eight)
  have running: "run ?s = Running" by simp
  from FLW_FLR_roundtrip [OF ty typed_now typed_now typed_now ok running]
  have "\<exists>t u. monitor_round (\<lambda>_ _ _ _ _. None) ?s = Some t \<and> monitor_round (\<lambda>_ _ _ _ _. None) t = Some u \<and> uart u = []
    \<and> read_bytes (mem u) 0x80600000 (unat (8 :: u32)) = replicate (unat (8 :: u32)) 0"
    unfolding zero by blast
  then show ?thesis by (simp add: keycodes Let_def eight)
qed

end
