(* ===== verification/Startup.thy ===== *)
theory Startup
  imports Monrun
begin

text \<open>
  The start of the board: \<open>start_kernel\<close> of \<^verbatim>\<open>boot/init/main.c\<close> and \<open>doBooting\<close> of
  \<^verbatim>\<open>boot/init/utility.c\<close>, in the shipped configuration (no TFTP client, no power-on self test, no
  reset button). The search of the flash is compared with a reference that only looks at the
  contents of the flash, and the decision between booting and download mode follows from it.

  The set-up of clocks, heap, interrupts and flash chip comes before; its result is the state.
\<close>

section \<open>Definitions\<close>

definition doBooting :: "'a console_state_scheme commands \<Rightarrow> int \<Rightarrow> u32 \<Rightarrow> IMG_HEADER_T \<Rightarrow> 'a console_state_scheme
    \<Rightarrow> 'a console_state_scheme option" where
  "doBooting other flag addr pheader s =
     (if flag \<noteq> 0 then
        (case user_interrupt s of
           (False, s) \<Rightarrow> Some (goToLocalStartMode s addr pheader)
         | (True, s) \<Rightarrow> (case dprintf (nl @ ascii ''---Escape booting by user'' @ nl) [] s of
                           None \<Rightarrow> None | Some s \<Rightarrow> goToDownMode other s))
      else goToDownMode other s)"

definition start_kernel :: "'a console_state_scheme commands \<Rightarrow> IMG_HEADER_T \<Rightarrow> 'a console_state_scheme
    \<Rightarrow> 'a console_state_scheme option" where
  "start_kernel other header s =
     (let s = s\<lparr>gCHKKEY_HIT := False, gCHKKEY_CNT := 0, return_addr := 0\<rparr>;
          (ret, header, s) = check_image s header
      in doBooting other ret (return_addr s) header s)"

section \<open>The search as a function of the flash\<close>

definition rootfs_at :: "memory \<Rightarrow> u32 \<Rightarrow> bool" where
  "rootfs_at m a \<longleftrightarrow> rootfs_sig m a \<and> sum_swab16 m a (unat (rootfs_len m a) div 2) 0 = 0"

definition system_sig :: "memory \<Rightarrow> u32 \<Rightarrow> bool" where
  "system_sig m a \<longleftrightarrow> same_sig 4 (signature (read_header m a)) FW_SIGNATURE
     \<or> same_sig 4 (signature (read_header m a)) FW_SIGNATURE_WITH_ROOT"

definition IMAGE_ADDRS :: "u32 list" where
  "IMAGE_ADDRS = window ([CODE_IMAGE_OFFSET, CODE_IMAGE_OFFSET2, CODE_IMAGE_OFFSET3]
     @ filter (\<lambda>i. i \<notin> {CODE_IMAGE_OFFSET, CODE_IMAGE_OFFSET2, CODE_IMAGE_OFFSET3}) LINUX_OFFSETS)"

text \<open>
  The reference: the first address that holds a system image counts; one that needs a separate root
  file system counts only if there is one.
\<close>

definition find_image :: "memory \<Rightarrow> u32 option" where
  "find_image m =
     (case List.find (bootable m) IMAGE_ADDRS of None \<Rightarrow> None
      | Some a \<Rightarrow> (if same_sig 4 (signature (read_header m a)) FW_SIGNATURE \<or> list_ex (rootfs_at m) ROOT_ADDRS
                  then Some a else None))"

text \<open>The check of an image of odd length adds a byte that is not part of it.\<close>

definition even_lengths :: "memory \<Rightarrow> bool" where
  "even_lengths m \<longleftrightarrow> (\<forall>a \<in> set IMAGE_ADDRS. system_sig m a \<longrightarrow> even (unat (hlen (read_header m a))))
     \<and> (\<forall>a \<in> set ROOT_ADDRS. rootfs_sig m a \<longrightarrow> even (unat (rootfs_len m a)))"

section \<open>What the search keeps\<close>

definition kept :: "(u8 option list \<Rightarrow> bool \<Rightarrow> bool) \<Rightarrow> 'a boot_state_scheme \<Rightarrow> 'a boot_state_scheme \<Rightarrow> bool" where
  "kept P s0 s \<longleftrightarrow> P (uart s) (gCHKKEY_HIT s) \<and> ready (flash s) = ready (flash s0) \<and> mem s = mem s0 \<and> run s = run s0"

lemma kept_flash: "kept P s0 s \<Longrightarrow> m25p_ok (flash s0) \<Longrightarrow> m25p_ok (flash s) \<and> flash_mem (flash s) = flash_mem (flash s0)"
  using m25p_ok_eq [of "flash s" "flash s0"] flash_mem_eq [of "flash s" "flash s0"] by (simp add: kept_def)

text \<open>A property of the keys that are still to be read and of the flag that ESC was pressed, kept by a poll.\<close>

locale key_property =
  fixes P :: "u8 option list \<Rightarrow> bool \<Rightarrow> bool"
  assumes key_read: "P (Some i # rest) k \<Longrightarrow> P (case rest of Some _ # r \<Rightarrow> r | _ \<Rightarrow> rest) (k \<or> i = ESC)"
    and no_key: "P (None # rest) k \<Longrightarrow> P rest k"
begin

lemma interrupt_kept:
  assumes "kept P s0 s" "user_interrupt s = (hit, t)"
  shows "kept P s0 t \<and> gCHKKEY_HIT t = (gCHKKEY_HIT s \<or> hit)"
proof (cases "uart s")
  case (Cons c rest)
  show ?thesis
  proof (cases c)
    case None
    then show ?thesis using assms no_key [of rest] Cons
      by (auto simp: kept_def user_interrupt_def pollingDownModeKeyword_def)
  next
    case (Some i)
    then show ?thesis using assms key_read [of i rest] Cons
      by (auto simp: kept_def user_interrupt_def pollingDownModeKeyword_def Let_def split: if_splits)
  qed
qed (use assms in \<open>auto simp: kept_def user_interrupt_def pollingDownModeKeyword_def\<close>)

lemma sum_flash_kept:
  assumes "m25p_ok (flash s0)"
  shows "kept P s0 s \<Longrightarrow> sum_flash s addr len rd acc buf = (v, t) \<Longrightarrow>
    kept P s0 t \<and> gCHKKEY_HIT t = (gCHKKEY_HIT s \<or> v = None)"
proof (induction s addr len rd acc buf rule: sum_flash.induct)
  case (1 s addr len rd acc buf)
  show ?case
  proof (cases "len - rd > 0")
    case False
    then show ?thesis using 1(2,3) by (subst (asm) sum_flash.simps) auto
  next
    case True
    let ?s1 = "s\<lparr>gCHKKEY_CNT := gCHKKEY_CNT s + 1\<rparr>"
    let ?q = "if gCHKKEY_CNT ?s1 > ACCCNT_TOCHKKEY then user_interrupt (?s1\<lparr>gCHKKEY_CNT := 0\<rparr>) else (False, ?s1)"
    obtain hit s2 where q: "?q = (hit, s2)" by (cases ?q)
    have s2: "kept P s0 s2 \<and> gCHKKEY_HIT s2 = (gCHKKEY_HIT s \<or> hit)"
    proof (cases "gCHKKEY_CNT ?s1 > ACCCNT_TOCHKKEY")
      case True
      have "kept P s0 (?s1\<lparr>gCHKKEY_CNT := 0\<rparr>)" using 1(2) by (simp add: kept_def)
      from interrupt_kept [OF this, of hit s2] q True show ?thesis by simp
    next
      case False
      then show ?thesis using q 1(2) by (auto simp: kept_def)
    qed
    show ?thesis
    proof (cases hit)
      case True
      then have "v = None \<and> t = s2" using 1(3) q \<open>len - rd > 0\<close> by (subst (asm) sum_flash.simps) (simp add: Let_def)
      then show ?thesis using s2 True by simp
    next
      case False
      have fl: "flashread (flash s2) 0 (addr + rd) (chunk (len - rd)) buf
          = (True, ready (flash s2), write_bytes 0 (read_bytes (flash_mem (flash s2)) (addr + rd) (unat (chunk (len - rd)))) buf)"
        using kept_flash [of P s0 s2] s2 assms by (intro flashread_mem) blast
      have "kept P s0 (s2\<lparr>flash := ready (flash s2)\<rparr>)" using conjunct1 [OF s2] by (simp add: kept_def)
      moreover have "sum_flash (s2\<lparr>flash := ready (flash s2)\<rparr>) addr len (rd + chunk (len - rd))
          (sum_swab16 (write_bytes 0 (read_bytes (flash_mem (flash s2)) (addr + rd) (unat (chunk (len - rd)))) buf) 0
             ((unat (chunk (len - rd)) + 1) div 2) acc)
          (write_bytes 0 (read_bytes (flash_mem (flash s2)) (addr + rd) (unat (chunk (len - rd)))) buf) = (v, t)"
        using 1(3) q \<open>len - rd > 0\<close> False fl by (subst (asm) sum_flash.simps) (simp add: Let_def)
      ultimately show ?thesis
        using 1(1) [OF \<open>len - rd > 0\<close> refl refl q [symmetric] False refl refl fl [symmetric] refl] False s2 by simp
    qed
  qed
qed

text \<open>The checks of one address. What they find they find without a press of ESC.\<close>

lemma check_system_kept:
  assumes ok: "m25p_ok (flash s0)" and kept: "kept P s0 s" and res: "check_system_image s addr h = (ret, h', t)"
  shows "kept P s0 t \<and> (ret \<noteq> 0 \<longrightarrow> \<not> gCHKKEY_HIT t) \<and> (gCHKKEY_HIT s \<longrightarrow> gCHKKEY_HIT t)
    \<and> (\<not> gCHKKEY_HIT t \<longrightarrow> (system_sig (flash_mem (flash s0)) addr \<longrightarrow> even (unat (hlen (read_header (flash_mem (flash s0)) addr)))) \<longrightarrow>
         h' = read_header (flash_mem (flash s0)) addr \<and> (ret \<noteq> 0) = bootable (flash_mem (flash s0)) addr
         \<and> (ret = 1 \<longrightarrow> same_sig 4 (signature h') FW_SIGNATURE)
         \<and> (ret \<noteq> 0 \<longrightarrow> ret \<noteq> 1 \<longrightarrow> ret = 2 \<and> \<not> same_sig 4 (signature h') FW_SIGNATURE))"
proof (cases "gCHKKEY_HIT s")
  case True
  then show ?thesis using res kept by (auto simp: check_system_image_def)
next
  case False
  note fl = kept_flash [OF kept ok]
  define H where "H = read_header (flash_mem (flash s)) addr"
  let ?s1 = "s\<lparr>flash := ready (flash s)\<rparr>"
  have k1: "kept P s0 ?s1" using kept by (simp add: kept_def)
  obtain v s2 where sum: "sum_flash ?s1 (addr + SIZEOF_IMG_HEADER) (hlen H) 0 0 (\<lambda>_. 0) = (v, s2)"
    "\<forall>x. v = Some x \<longrightarrow> even (unat (hlen H)) \<longrightarrow>
       x = sum_swab16 (flash_mem (flash s)) (addr + SIZEOF_IMG_HEADER) (unat (hlen H) div 2) 0"
    using sum_flash_ok [where s = ?s1 and len = "hlen H" and rd = 0 and addr = "addr + SIZEOF_IMG_HEADER"
        and acc = 0 and buf = "\<lambda>_. 0"] fl by auto
  have k2: "kept P s0 s2" "gCHKKEY_HIT s2 = (v = None)"
    using sum_flash_kept [OF ok k1 sum(1)] False by simp_all
  have eq: "check_system_image s addr h =
    (let ret = (if same_sig 4 (signature H) FW_SIGNATURE then 1
                else if same_sig 4 (signature H) FW_SIGNATURE_WITH_ROOT then 2 else 0)
     in if ret = 0 then (0, H, ?s1)
        else (case v of None \<Rightarrow> (0, H, s2) | Some tot \<Rightarrow> (if tot \<noteq> 0 then 0 else ret, H, s2)))"
    using check_system_image_eq [of s addr h] fl False unfolding H_def [symmetric] sum(1) by (simp split: option.splits)
  have H: "read_header (flash_mem (flash s0)) addr = H" using fl by (simp add: H_def)
  have boot: "bootable (flash_mem (flash s0)) addr \<longleftrightarrow>
      (same_sig 4 (signature H) FW_SIGNATURE \<or> same_sig 4 (signature H) FW_SIGNATURE_WITH_ROOT)
      \<and> (even (unat (hlen H)) \<longrightarrow> sum_swab16 (flash_mem (flash s)) (addr + SIZEOF_IMG_HEADER) (unat (hlen H) div 2) 0 = 0)"
    using fl unfolding bootable_def Let_def H by simp
  show ?thesis
    using res k1 k2 False sum(2) unfolding eq system_sig_def H boot by (cases v) (auto simp: Let_def split: if_splits)
qed

lemma check_rootfs_kept:
  assumes ok: "m25p_ok (flash s0)" and kept: "kept P s0 s" and res: "check_rootfs_image s addr = (ret, t)"
  shows "kept P s0 t \<and> (ret \<longrightarrow> \<not> gCHKKEY_HIT t) \<and> (gCHKKEY_HIT s \<longrightarrow> gCHKKEY_HIT t) \<and> return_addr t = return_addr s
    \<and> (\<not> gCHKKEY_HIT t \<longrightarrow> (rootfs_sig (flash_mem (flash s0)) addr \<longrightarrow> even (unat (rootfs_len (flash_mem (flash s0)) addr))) \<longrightarrow>
         ret = rootfs_at (flash_mem (flash s0)) addr)"
proof (cases "gCHKKEY_HIT s")
  case True
  then show ?thesis using res kept by (auto simp: check_rootfs_image_def)
next
  case False
  note fl = kept_flash [OF kept ok]
  let ?m = "flash_mem (flash s0)" and ?s1 = "s\<lparr>flash := ready (flash s)\<rparr>"
  define buf where "buf = write_bytes 0 (read_bytes ?m addr 16) (\<lambda>_. 0)"
  have k1: "kept P s0 ?s1" using kept by (simp add: kept_def)
  obtain v s2 where sum: "sum_flash ?s1 addr (rootfs_len ?m addr) 0 0 buf = (v, s2)" "return_addr s2 = return_addr s"
    "\<forall>x. v = Some x \<longrightarrow> even (unat (rootfs_len ?m addr)) \<longrightarrow> x = sum_swab16 ?m addr (unat (rootfs_len ?m addr) div 2) 0"
    using sum_flash_ok [where s = ?s1 and len = "rootfs_len ?m addr" and rd = 0 and addr = addr
        and acc = 0 and buf = buf] fl by auto
  have k2: "kept P s0 s2" "gCHKKEY_HIT s2 = (v = None)"
    using sum_flash_kept [OF ok k1 sum(1)] False by simp_all
  have "check_rootfs_image s addr = (if rootfs_sig ?m addr
      then (case v of None \<Rightarrow> (False, s2) | Some tot \<Rightarrow> (tot = 0, s2)) else (False, ?s1))"
    using check_rootfs_image_eq [of s addr] fl False sum(1) by (simp add: buf_def split: option.splits)
  then show ?thesis
    using res k1 k2 False sum(2,3) by (cases v) (auto simp: rootfs_at_def split: if_splits)
qed

text \<open>The state of the search for an image after the addresses \<open>as\<close>.\<close>

definition found :: "'a boot_state_scheme \<Rightarrow> u32 list \<Rightarrow> int \<times> IMG_HEADER_T \<times> 'a boot_state_scheme \<Rightarrow> bool" where
  "found s0 as r \<longleftrightarrow>
     (case r of (ret, h, s) \<Rightarrow> kept P s0 s \<and> (ret \<noteq> 0 \<longrightarrow> \<not> gCHKKEY_HIT s)
       \<and> (\<not> gCHKKEY_HIT s \<longrightarrow>
            (case List.find (bootable (flash_mem (flash s0))) as of
               None \<Rightarrow> ret = 0
             | Some a \<Rightarrow> h = read_header (flash_mem (flash s0)) a \<and> return_addr s = a
                 \<and> ret = (if same_sig 4 (signature (read_header (flash_mem (flash s0)) a)) FW_SIGNATURE then 1 else 2))))"

lemma find_snoc: "List.find Q (as @ [a]) = (case List.find Q as of None \<Rightarrow> if Q a then Some a else None | Some b \<Rightarrow> Some b)"
  by (induction as) auto

lemma found_check:
  assumes ok: "m25p_ok (flash s0)" and r: "found s0 as (0, h, s)"
    and even: "system_sig (flash_mem (flash s0)) a \<longrightarrow> even (unat (hlen (read_header (flash_mem (flash s0)) a)))"
  shows "found s0 (as @ [a]) (check_system_image (s\<lparr>return_addr := a\<rparr>) a h)"
proof -
  let ?s = "s\<lparr>return_addr := a\<rparr>" and ?m = "flash_mem (flash s0)"
  obtain ret h' t where res: "check_system_image ?s a h = (ret, h', t)" by (metis prod_cases3)
  have k: "kept P s0 ?s" using r by (simp add: found_def kept_def)
  have "m25p_ok (flash ?s)" using kept_flash [OF k ok] by simp
  then have addr: "return_addr t = a" using check_system_image_ok [OF _ res] by simp
  note c = check_system_kept [OF ok k res]
  have none: "List.find (bootable ?m) as = None" if "\<not> gCHKKEY_HIT t"
  proof -
    have "\<not> gCHKKEY_HIT s" using c that by auto
    then show ?thesis using r by (auto simp: found_def split: option.splits if_splits)
  qed
  show ?thesis
  proof (cases "gCHKKEY_HIT t")
    case True
    then show ?thesis using c by (auto simp: found_def res)
  next
    case False
    have c': "kept P s0 t" "h' = read_header ?m a" "(ret \<noteq> 0) = bootable ?m a"
        "ret = 1 \<longrightarrow> same_sig 4 (signature h') FW_SIGNATURE"
        "ret \<noteq> 0 \<longrightarrow> ret \<noteq> 1 \<longrightarrow> ret = 2 \<and> \<not> same_sig 4 (signature h') FW_SIGNATURE"
      using c False even by blast+
    show ?thesis
    proof (cases "ret = 0")
      case True
      then show ?thesis using c'(1,3) False none by (simp add: found_def res find_snoc)
    next
      case nonzero: False
      then have "ret = (if same_sig 4 (signature (read_header ?m a)) FW_SIGNATURE then 1 else 2)"
        using c'(2,4,5) by auto
      then show ?thesis using nonzero c'(1,2,3) False none addr by (simp add: found_def res find_snoc)
    qed
  qed
qed

lemma found_skip: "found s0 as (0, h, s) \<Longrightarrow> found s0 as (0, h, s\<lparr>return_addr := a\<rparr>)"
  by (auto simp: found_def kept_def split: option.splits if_splits)

lemma found_later:
  assumes "found s0 as (ret, h, s)" "ret \<noteq> 0"
  shows "found s0 (as @ [a]) (ret, h, s)"
proof -
  have "\<not> gCHKKEY_HIT s" using assms by (simp add: found_def)
  then obtain b where "List.find (bootable (flash_mem (flash s0))) as = Some b"
    using assms by (auto simp: found_def split: option.splits)
  then show ?thesis using assms by (simp add: found_def find_snoc)
qed

lemma found_try:
  assumes "m25p_ok (flash s0)" "found s0 as r"
    and "system_sig (flash_mem (flash s0)) (FLASH_BASE + i + bank) \<longrightarrow>
      even (unat (hlen (read_header (flash_mem (flash s0)) (FLASH_BASE + i + bank))))"
  shows "found s0 (as @ [FLASH_BASE + i + bank]) (try_image i bank r)"
proof -
  obtain ret h s where r: "r = (ret, h, s)" by (cases r)
  show ?thesis
  proof (cases "ret = 0")
    case True
    then show ?thesis using found_check [OF assms(1) _ assms(3), of as h s] assms(2) by (simp add: try_image_def r)
  next
    case False
    then show ?thesis using found_later assms(2) by (simp add: try_image_def r)
  qed
qed

lemma found_scan:
  assumes "m25p_ok (flash s0)" "found s0 as r"
    and "\<forall>i \<in> set (filter Q is). system_sig (flash_mem (flash s0)) (FLASH_BASE + i + bank) \<longrightarrow>
      even (unat (hlen (read_header (flash_mem (flash s0)) (FLASH_BASE + i + bank))))"
    and Q: "\<And>i. Q i \<longleftrightarrow> \<not> (CODE_IMAGE_OFFSET = i \<or> CODE_IMAGE_OFFSET2 = i \<or> CODE_IMAGE_OFFSET3 = i)"
  shows "found s0 (as @ map (\<lambda>i. FLASH_BASE + i + bank) (filter Q is)) (scan_linux is bank r)"
  using assms(2,3)
proof (induction "is" arbitrary: as r)
  case (Cons i "is")
  obtain ret h s where r: "r = (ret, h, s)" by (cases r)
  let ?a = "FLASH_BASE + i + bank"
  have later: "\<forall>i \<in> set (filter Q is). system_sig (flash_mem (flash s0)) (FLASH_BASE + i + bank) \<longrightarrow>
      even (unat (hlen (read_header (flash_mem (flash s0)) (FLASH_BASE + i + bank))))" using Cons.prems(2) by simp
  show ?case
  proof (cases "ret = 0")
    case True
    then have f: "found s0 as (0, h, s)" using Cons.prems(1) r by simp
    show ?thesis
    proof (cases "Q i")
      case True
      then have "found s0 (as @ [?a]) (check_system_image (s\<lparr>return_addr := ?a\<rparr>) ?a h)"
        using Cons.prems(2) by (intro found_check [OF assms(1) f]) simp
      from Cons.IH [OF this later] show ?thesis using True \<open>ret = 0\<close> by (simp add: r Q Let_def)
    next
      case False
      from Cons.IH [OF found_skip [OF f] later] show ?thesis using False \<open>ret = 0\<close> by (auto simp: r Q Let_def)
    qed
  next
    case False
    have stays: "found s0 (as @ map (\<lambda>i. FLASH_BASE + i + bank) js) r" for js
    proof (induction js rule: rev_induct)
      case (snoc j js)
      then show ?case using found_later [of s0 _ ret h s "FLASH_BASE + j + bank"] False by (simp add: r flip: append_assoc)
    qed (use Cons.prems(1) in simp)
    have "scan_linux (i # is) bank r = r" using False by (simp add: r)
    then show ?thesis using stays by simp
  qed
qed simp

text \<open>The same for root file systems.\<close>

definition found_root :: "'a boot_state_scheme \<Rightarrow> u32 \<Rightarrow> u32 list \<Rightarrow> bool \<times> 'a boot_state_scheme \<Rightarrow> bool" where
  "found_root s0 addr as r \<longleftrightarrow>
     (case r of (ret, s) \<Rightarrow> kept P s0 s \<and> (ret \<longrightarrow> \<not> gCHKKEY_HIT s) \<and> return_addr s = addr
       \<and> (\<not> gCHKKEY_HIT s \<longrightarrow> ret = list_ex (rootfs_at (flash_mem (flash s0))) as))"

lemma found_root_check:
  assumes "m25p_ok (flash s0)" "found_root s0 addr as (False, s)"
    and "rootfs_sig (flash_mem (flash s0)) a \<longrightarrow> even (unat (rootfs_len (flash_mem (flash s0)) a))"
  shows "found_root s0 addr (as @ [a]) (check_rootfs_image s a)"
proof -
  obtain ret t where res: "check_rootfs_image s a = (ret, t)" by (cases "check_rootfs_image s a")
  have "kept P s0 s" using assms(2) by (simp add: found_root_def)
  from check_rootfs_kept [OF assms(1) this res] assms(2,3) show ?thesis
    by (auto simp: found_root_def res)
qed

lemma found_root_later: "found_root s0 addr as (True, s) \<Longrightarrow> found_root s0 addr (as @ bs) (True, s)"
  by (auto simp: found_root_def)

lemma found_root_try:
  assumes "m25p_ok (flash s0)" "found_root s0 addr as r"
    and "rootfs_sig (flash_mem (flash s0)) (FLASH_BASE + i + bank) \<longrightarrow>
      even (unat (rootfs_len (flash_mem (flash s0)) (FLASH_BASE + i + bank)))"
  shows "found_root s0 addr (as @ [FLASH_BASE + i + bank]) (try_rootfs i bank r)"
proof -
  obtain ret s where r: "r = (ret, s)" by (cases r)
  show ?thesis using found_root_check [OF assms(1) _ assms(3)] found_root_later assms(2)
    by (cases ret) (simp_all add: try_rootfs_def r)
qed

lemma found_root_scan:
  assumes "m25p_ok (flash s0)" "found_root s0 addr as r"
    and "\<forall>i \<in> set (filter Q is). rootfs_sig (flash_mem (flash s0)) (FLASH_BASE + i + bank) \<longrightarrow>
      even (unat (rootfs_len (flash_mem (flash s0)) (FLASH_BASE + i + bank)))"
    and Q: "\<And>i. Q i \<longleftrightarrow> \<not> (ROOT_FS_OFFSET = i \<or> ROOT_FS_OFFSET + ROOT_FS_OFFSET_OP1 = i
      \<or> ROOT_FS_OFFSET + ROOT_FS_OFFSET_OP1 + ROOT_FS_OFFSET_OP2 = i)"
  shows "found_root s0 addr (as @ map (\<lambda>i. FLASH_BASE + i + bank) (filter Q is)) (scan_rootfs is bank r)"
  using assms(2,3)
proof (induction "is" arbitrary: as r)
  case (Cons i "is")
  obtain ret s where r: "r = (ret, s)" by (cases r)
  let ?a = "FLASH_BASE + i + bank"
  have later: "\<forall>i \<in> set (filter Q is). rootfs_sig (flash_mem (flash s0)) (FLASH_BASE + i + bank) \<longrightarrow>
      even (unat (rootfs_len (flash_mem (flash s0)) (FLASH_BASE + i + bank)))" using Cons.prems(2) by simp
  show ?case
  proof (cases ret)
    case True
    have "scan_rootfs (i # is) bank r = (True, s)" using True by (simp add: r)
    then show ?thesis using found_root_later [of s0 addr as s] Cons.prems(1) True by (simp add: r)
  next
    case False
    then have f: "found_root s0 addr as (False, s)" using Cons.prems(1) r by simp
    show ?thesis
    proof (cases "Q i")
      case True
      then have "found_root s0 addr (as @ [?a]) (check_rootfs_image s ?a)"
        using Cons.prems(2) by (intro found_root_check [OF assms(1) f]) simp
      from Cons.IH [OF this later] show ?thesis using True False by (simp add: r Q)
    next
      case skip: False
      from Cons.IH [OF f later] show ?thesis using skip False by (auto simp: r Q)
    qed
  qed
qed simp

lemma found_image:
  assumes ok: "m25p_ok (flash s)" and P: "P (uart s) (gCHKKEY_HIT s)" and even: "even_lengths (flash_mem (flash s))"
  shows "found s IMAGE_ADDRS (scan_linux LINUX_OFFSETS 0 (try_image CODE_IMAGE_OFFSET3 0 (try_image CODE_IMAGE_OFFSET2 0
    (try_image CODE_IMAGE_OFFSET 0 (0, h, s)))))" (is "found s IMAGE_ADDRS ?r")
proof -
  let ?Q = "\<lambda>i. i \<notin> {CODE_IMAGE_OFFSET, CODE_IMAGE_OFFSET2, CODE_IMAGE_OFFSET3}" and ?a = "\<lambda>i. FLASH_BASE + i + 0"
  have ev: "\<forall>a \<in> set IMAGE_ADDRS. system_sig (flash_mem (flash s)) a \<longrightarrow> even (unat (hlen (read_header (flash_mem (flash s)) a)))"
    using even unfolding even_lengths_def by blast
  have f0: "found s [] (0, h, s)" using P by (simp add: found_def kept_def)
  have f3: "found s ((([] @ [?a CODE_IMAGE_OFFSET]) @ [?a CODE_IMAGE_OFFSET2]) @ [?a CODE_IMAGE_OFFSET3])
      (try_image CODE_IMAGE_OFFSET3 0 (try_image CODE_IMAGE_OFFSET2 0 (try_image CODE_IMAGE_OFFSET 0 (0, h, s))))"
    by (intro found_try ok f0; use ev in \<open>simp add: IMAGE_ADDRS_def window_def\<close>)
  have "found s ((([] @ [?a CODE_IMAGE_OFFSET]) @ [?a CODE_IMAGE_OFFSET2]) @ [?a CODE_IMAGE_OFFSET3]
      @ map ?a (filter ?Q LINUX_OFFSETS)) ?r"
    unfolding append_assoc [symmetric]
    by (rule found_scan [OF ok f3]) (use ev in \<open>auto simp: IMAGE_ADDRS_def window_def\<close>)
  then show ?thesis by (simp add: IMAGE_ADDRS_def window_def)
qed

lemma check_image_kept:
  assumes ok: "m25p_ok (flash s)" and P: "P (uart s) (gCHKKEY_HIT s)" and even: "even_lengths (flash_mem (flash s))"
    and res: "check_image s h = (ret, h', t)"
  shows "kept P s t \<and> (ret \<noteq> 0 \<longrightarrow> \<not> gCHKKEY_HIT t)
    \<and> (\<not> gCHKKEY_HIT t \<longrightarrow> (case find_image (flash_mem (flash s)) of None \<Rightarrow> ret = 0 | Some a \<Rightarrow> ret \<noteq> 0 \<and> return_addr t = a))"
proof -
  let ?m = "flash_mem (flash s)" and ?a = "\<lambda>i. FLASH_BASE + i + 0"
  let ?Q = "\<lambda>i. i \<notin> {ROOT_FS_OFFSET, ROOT_FS_OFFSET + ROOT_FS_OFFSET_OP1, ROOT_FS_OFFSET + ROOT_FS_OFFSET_OP1 + ROOT_FS_OFFSET_OP2}"
  define r where "r = scan_linux LINUX_OFFSETS 0 (try_image CODE_IMAGE_OFFSET3 0 (try_image CODE_IMAGE_OFFSET2 0
    (try_image CODE_IMAGE_OFFSET 0 (0, h, s))))"
  obtain ret1 h1 s1 where r: "r = (ret1, h1, s1)" by (cases r)
  have f: "found s IMAGE_ADDRS (ret1, h1, s1)" using found_image [OF ok P even, of h] unfolding r_def [symmetric] r .
  define q where "q = scan_rootfs ROOT_OFFSETS 0 (try_rootfs (ROOT_FS_OFFSET + ROOT_FS_OFFSET_OP1 + ROOT_FS_OFFSET_OP2) 0
    (try_rootfs (ROOT_FS_OFFSET + ROOT_FS_OFFSET_OP1) 0 (check_rootfs_image s1 (FLASH_BASE + ROOT_FS_OFFSET + 0))))"
  obtain found s2 where q: "q = (found, s2)" by (cases q)
  have ci: "check_image s h = (if ret1 = 2 then (if found then 1 else 0, h1, s2) else (ret1, h1, s1))"
    using q by (simp add: check_image_def check_image_header_def r_def [symmetric] r q_def Let_def)
  have ev: "\<forall>a \<in> set ROOT_ADDRS. rootfs_sig ?m a \<longrightarrow> even (unat (rootfs_len ?m a))"
    using even unfolding even_lengths_def by blast
  have q': "found_root s (return_addr s1) ROOT_ADDRS (found, s2)"
  proof -
    have "found_root s (return_addr s1) [] (False, s1)" using f by (simp add: found_root_def found_def)
    then have first: "found_root s (return_addr s1) ([] @ [?a ROOT_FS_OFFSET]) (check_rootfs_image s1 (?a ROOT_FS_OFFSET))"
      using ev by (intro found_root_check ok) (simp_all add: ROOT_ADDRS_def window_def)
    have f3: "found_root s (return_addr s1) ((([] @ [?a ROOT_FS_OFFSET]) @ [?a (ROOT_FS_OFFSET + ROOT_FS_OFFSET_OP1)])
        @ [?a (ROOT_FS_OFFSET + ROOT_FS_OFFSET_OP1 + ROOT_FS_OFFSET_OP2)])
      (try_rootfs (ROOT_FS_OFFSET + ROOT_FS_OFFSET_OP1 + ROOT_FS_OFFSET_OP2) 0
        (try_rootfs (ROOT_FS_OFFSET + ROOT_FS_OFFSET_OP1) 0 (check_rootfs_image s1 (?a ROOT_FS_OFFSET))))"
      by (intro found_root_try ok first; use ev in \<open>simp add: ROOT_ADDRS_def window_def\<close>)
    have "found_root s (return_addr s1) ((([] @ [?a ROOT_FS_OFFSET]) @ [?a (ROOT_FS_OFFSET + ROOT_FS_OFFSET_OP1)])
        @ [?a (ROOT_FS_OFFSET + ROOT_FS_OFFSET_OP1 + ROOT_FS_OFFSET_OP2)] @ map ?a (filter ?Q ROOT_OFFSETS)) q"
      unfolding q_def append_assoc [symmetric]
      by (rule found_root_scan [OF ok f3]) (use ev in \<open>auto simp: ROOT_ADDRS_def window_def\<close>)
    then show ?thesis by (simp add: ROOT_ADDRS_def window_def q)
  qed
  show ?thesis
  proof (cases "ret1 = 2")
    case True
    then obtain a where a: "\<not> gCHKKEY_HIT s1" "List.find (bootable ?m) IMAGE_ADDRS = Some a" "return_addr s1 = a"
        "\<not> same_sig 4 (signature (read_header ?m a)) FW_SIGNATURE"
      using f by (auto simp: found_def split: option.splits if_splits)
    have res': "ret = (if found then 1 else 0)" "h' = h1" "t = s2" using res True unfolding ci by simp_all
    show ?thesis using q' a unfolding res' by (auto simp: found_root_def find_image_def)
  next
    case False
    then have "ret = ret1" "t = s1" using res unfolding ci by simp_all
    then show ?thesis using f False by (auto simp: found_def find_image_def split: option.splits if_splits)
  qed
qed

text \<open>What holds for images of any length: nothing is found after ESC.\<close>

definition held :: "'a boot_state_scheme \<Rightarrow> bool \<Rightarrow> 'a boot_state_scheme \<Rightarrow> bool" where
  "held s0 ok s \<longleftrightarrow> kept P s0 s \<and> (ok \<longrightarrow> \<not> gCHKKEY_HIT s)"

lemma held_system:
  "m25p_ok (flash s0) \<Longrightarrow> held s0 False s \<Longrightarrow>
     (case check_system_image (s\<lparr>return_addr := b\<rparr>) a h of (ret, h, t) \<Rightarrow> held s0 (ret \<noteq> 0) t)"
proof -
  assume ok: "m25p_ok (flash s0)" and "held s0 False s"
  then have k: "kept P s0 (s\<lparr>return_addr := b\<rparr>)" by (simp add: held_def kept_def)
  obtain ret h' t where res: "check_system_image (s\<lparr>return_addr := b\<rparr>) a h = (ret, h', t)" by (metis prod_cases3)
  from check_system_kept [OF ok k res] have "held s0 (ret \<noteq> 0) t" unfolding held_def by blast
  then show ?thesis by (simp add: res)
qed

lemma held_try:
  "m25p_ok (flash s0) \<Longrightarrow> (case r of (ret, h, s) \<Rightarrow> held s0 (ret \<noteq> 0) s) \<Longrightarrow>
     (case try_image i bank r of (ret, h, s) \<Rightarrow> held s0 (ret \<noteq> 0) s)"
proof -
  assume ok: "m25p_ok (flash s0)" and held: "case r of (ret, h, s) \<Rightarrow> held s0 (ret \<noteq> 0) s"
  obtain ret h s where r: "r = (ret, h, s)" by (cases r)
  show ?thesis
  proof (cases "ret = 0")
    case True
    then have "held s0 False s" using held by (simp add: r)
    from held_system [OF ok this] show ?thesis using True by (simp add: try_image_def r)
  qed (use held in \<open>simp add: try_image_def r\<close>)
qed

lemma held_scan:
  "m25p_ok (flash s0) \<Longrightarrow> (case r of (ret, h, s) \<Rightarrow> held s0 (ret \<noteq> 0) s) \<Longrightarrow>
     (case scan_linux is bank r of (ret, h, s) \<Rightarrow> held s0 (ret \<noteq> 0) s)"
proof (induction "is" arbitrary: r)
  case (Cons i "is")
  obtain ret h s where r: "r = (ret, h, s)" by (cases r)
  let ?a = "FLASH_BASE + i + bank" and ?h = "\<lambda>r. case r of (ret, h, s) \<Rightarrow> held s0 (ret \<noteq> 0) s"
  show ?case
  proof (cases "ret = 0")
    case True
    then have "held s0 False s" using Cons.prems(2) r by simp
    then have "?h (check_system_image (s\<lparr>return_addr := ?a\<rparr>) ?a h)" "?h (0, h, s\<lparr>return_addr := ?a\<rparr>)"
      using held_system [OF Cons.prems(1), of s ?a ?a h] by (simp_all add: held_def kept_def)
    then show ?thesis using Cons.IH [OF Cons.prems(1)] True by (simp add: r Let_def)
  qed (use Cons.prems(2) in \<open>simp add: r\<close>)
qed simp

lemma held_rootfs:
  "m25p_ok (flash s0) \<Longrightarrow> held s0 False s \<Longrightarrow> (case check_rootfs_image s a of (ret, t) \<Rightarrow> held s0 ret t)"
proof -
  assume ok: "m25p_ok (flash s0)" and "held s0 False s"
  then have k: "kept P s0 s" by (simp add: held_def)
  obtain ret t where res: "check_rootfs_image s a = (ret, t)" by (cases "check_rootfs_image s a")
  from check_rootfs_kept [OF ok k res] have "held s0 ret t" unfolding held_def by blast
  then show ?thesis by (simp add: res)
qed

lemma held_try_rootfs:
  "m25p_ok (flash s0) \<Longrightarrow> (case q of (ret, s) \<Rightarrow> held s0 ret s) \<Longrightarrow> (case try_rootfs i bank q of (ret, s) \<Rightarrow> held s0 ret s)"
proof -
  assume ok: "m25p_ok (flash s0)" and held: "case q of (ret, s) \<Rightarrow> held s0 ret s"
  obtain ret s where q: "q = (ret, s)" by (cases q)
  show ?thesis
  proof (cases ret)
    case False
    then have "held s0 False s" using held by (simp add: q)
    from held_rootfs [OF ok this] show ?thesis using False by (simp add: try_rootfs_def q)
  qed (use held in \<open>simp add: try_rootfs_def q\<close>)
qed

lemma held_scan_rootfs:
  "m25p_ok (flash s0) \<Longrightarrow> (case q of (ret, s) \<Rightarrow> held s0 ret s) \<Longrightarrow> (case scan_rootfs is bank q of (ret, s) \<Rightarrow> held s0 ret s)"
proof (induction "is" arbitrary: q)
  case (Cons i "is")
  obtain ret s where q: "q = (ret, s)" by (cases q)
  show ?case
    using Cons.IH [OF Cons.prems(1)] held_rootfs [OF Cons.prems(1), of s "FLASH_BASE + i + bank"] Cons.prems(2)
    by (cases ret) (simp_all add: q)
qed simp

lemma check_image_held:
  assumes ok: "m25p_ok (flash s)" and P: "P (uart s) (gCHKKEY_HIT s)" and res: "check_image s h = (ret, h', t)"
  shows "held s (ret \<noteq> 0) t"
proof -
  define r where "r = scan_linux LINUX_OFFSETS 0 (try_image CODE_IMAGE_OFFSET3 0 (try_image CODE_IMAGE_OFFSET2 0
    (try_image CODE_IMAGE_OFFSET 0 (0, h, s))))"
  obtain ret1 h1 s1 where r: "r = (ret1, h1, s1)" by (cases r)
  have "case r of (ret, h, s') \<Rightarrow> held s (ret \<noteq> 0) s'"
    unfolding r_def using P by (intro held_scan held_try ok) (simp add: held_def kept_def)
  then have h1: "held s (ret1 \<noteq> 0) s1" by (simp add: r)
  then have h0: "held s False s1" by (simp add: held_def)
  define q where "q = scan_rootfs ROOT_OFFSETS 0 (try_rootfs (ROOT_FS_OFFSET + ROOT_FS_OFFSET_OP1 + ROOT_FS_OFFSET_OP2) 0
    (try_rootfs (ROOT_FS_OFFSET + ROOT_FS_OFFSET_OP1) 0 (check_rootfs_image s1 (FLASH_BASE + ROOT_FS_OFFSET + 0))))"
  obtain found s2 where q: "q = (found, s2)" by (cases q)
  have "case q of (ret, s') \<Rightarrow> held s ret s'"
    unfolding q_def by (intro held_scan_rootfs held_try_rootfs held_rootfs ok h0)
  then have h2: "held s found s2" by (simp add: q)
  have "check_image s h = (if ret1 = 2 then (if found then 1 else 0, h1, s2) else (ret1, h1, s1))"
    using q by (simp add: check_image_def check_image_header_def r_def [symmetric] r q_def Let_def)
  then show ?thesis using res h1 h2 by (cases found) (auto split: if_splits)
qed

end

interpretation no_esc: key_property "\<lambda>u k. Some ESC \<notin> set u \<and> \<not> k"
  by unfold_locales (auto split: list.splits option.splits)

interpretation esc_first: key_property "\<lambda>u k. k \<or> (\<exists>r. u = Some ESC # r)"
  by unfold_locales auto

section \<open>Properties\<close>

text \<open>C1: What the board does when nobody presses ESC is a function of the flash. If the first address of the
  search that holds a system image needs no separate root file system, or there is one, its payload is
  copied to its start address and started; otherwise the board goes to the download mode, with memory and
  flash unchanged. (The lengths are even; of other images the check adds a stray byte.)\<close>

theorem start_kernel_boots:
  assumes ok: "m25p_ok (flash s)" and even: "even_lengths (flash_mem (flash s))" and "Some ESC \<notin> set (uart s)"
  shows "case find_image (flash_mem (flash s)) of
      None \<Rightarrow> \<exists>t. start_kernel other h s = goToDownMode other t
        \<and> ready (flash t) = ready (flash s) \<and> mem t = mem s \<and> run t = run s
    | Some a \<Rightarrow> (let H = read_header (flash_mem (flash s)) a
        in \<exists>t. start_kernel other h s = Some t \<and> run t = Jumped (startAddr H)
          \<and> read_bytes (mem t) (startAddr H OR 0x20000000) (unat (hlen H - 2)) =
              read_bytes (flash_mem (flash s)) (a + SIZEOF_IMG_HEADER) (unat (hlen H - 2)))"
proof -
  let ?s = "s\<lparr>gCHKKEY_HIT := False, gCHKKEY_CNT := 0, return_addr := 0\<rparr>" and ?m = "flash_mem (flash s)"
  obtain ret h' t where res: "check_image ?s h = (ret, h', t)" by (metis prod_cases3)
  have "kept (\<lambda>u k. Some ESC \<notin> set u \<and> \<not> k) ?s t \<and> (ret \<noteq> 0 \<longrightarrow> \<not> gCHKKEY_HIT t) \<and> (\<not> gCHKKEY_HIT t \<longrightarrow>
      (case find_image (flash_mem (flash ?s)) of None \<Rightarrow> ret = 0 | Some a \<Rightarrow> ret \<noteq> 0 \<and> return_addr t = a))"
    using assms by (intro no_esc.check_image_kept [OF _ _ _ res]) simp_all
  then have k: "kept (\<lambda>u k. Some ESC \<notin> set u \<and> \<not> k) s t"
      and found: "case find_image ?m of None \<Rightarrow> ret = 0 | Some a \<Rightarrow> ret \<noteq> 0 \<and> return_addr t = a"
    by (auto simp: kept_def)
  have start: "start_kernel other h s = doBooting other ret (return_addr t) h' t"
    by (simp add: start_kernel_def Let_def res)
  show ?thesis
  proof (cases "find_image ?m")
    case None
    then have "start_kernel other h s = goToDownMode other t" using found by (simp add: start doBooting_def)
    then show ?thesis using None k by (auto simp: kept_def)
  next
    case (Some a)
    obtain hit u where u: "user_interrupt t = (hit, u)" by (cases "user_interrupt t")
    note ku = no_esc.interrupt_kept [OF k u]
    have "\<not> hit" using ku by (auto simp: kept_def)
    then have "start_kernel other h s = Some (goToLocalStartMode u a h')"
      using found Some by (simp add: start doBooting_def u)
    moreover have fl: "m25p_ok (flash u)" "flash_mem (flash u) = ?m"
      using kept_flash [of _ s u] ku ok by blast+
    note goToLocalStartMode_starts [OF fl(1) refl, of a h']
    ultimately show ?thesis using Some by (simp add: Let_def fl(2))
  qed
qed

text \<open>C10: ESC stops the boot. If it is the first key, the board enters the download mode, whatever the flash
  holds and whenever the key is read, with memory and flash unchanged.\<close>

theorem esc_stops_boot:
  assumes ok: "m25p_ok (flash s)" and esc: "uart s = Some ESC # rest"
  shows "\<exists>t. start_kernel other h s = goToDownMode other t
    \<and> ready (flash t) = ready (flash s) \<and> mem t = mem s \<and> run t = run s"
proof -
  let ?s = "s\<lparr>gCHKKEY_HIT := False, gCHKKEY_CNT := 0, return_addr := 0\<rparr>"
    and ?P = "\<lambda>u k. k \<or> (\<exists>r. u = Some ESC # r)"
  obtain ret h' t where res: "check_image ?s h = (ret, h', t)" by (metis prod_cases3)
  have "esc_first.held ?s (ret \<noteq> 0) t"
    using assms by (intro esc_first.check_image_held [OF _ _ res]) simp_all
  then have k: "kept ?P s t" and seen: "ret \<noteq> 0 \<longrightarrow> \<not> gCHKKEY_HIT t"
    by (simp_all add: esc_first.held_def kept_def)
  have start: "start_kernel other h s = doBooting other ret (return_addr t) h' t"
    by (simp add: start_kernel_def Let_def res)
  show ?thesis
  proof (cases "ret = 0")
    case True
    then show ?thesis using k by (intro exI [of _ t]) (simp add: start doBooting_def kept_def)
  next
    case False
    then obtain r where r: "uart t = Some ESC # r" using seen k by (auto simp: kept_def)
    obtain hit u where u: "user_interrupt t = (hit, u)" by (cases "user_interrupt t")
    have "hit" using u r by (simp add: user_interrupt_def pollingDownModeKeyword_def Let_def)
    have "37 \<notin> set (nl @ ascii ''---Escape booting by user'' @ nl)" by (simp add: nl_def)
    then have "start_kernel other h s = goToDownMode other (put_bytes (nl @ ascii ''---Escape booting by user'' @ nl) u)"
      using False u \<open>hit\<close> dprintf_text [of "nl @ ascii ''---Escape booting by user'' @ nl" "[]" u]
      by (simp add: start doBooting_def del: ascii_simps)
    then show ?thesis using conjunct1 [OF esc_first.interrupt_kept [OF k u]]
      by (intro exI [of _ "put_bytes (nl @ ascii ''---Escape booting by user'' @ nl) u"]) (simp add: kept_def put_bytes_def del: ascii_simps)
  qed
qed

text \<open>The sample chip: its 16 KiB repeat over the whole window, so that every address of the search is one of four.\<close>

definition sample_board :: "u8 option list \<Rightarrow> console_state" where
  "sample_board ps = (sample_console ps)\<lparr>flash := sample_image_flash\<rparr>"

lemma sample_board_simps [simp]: "flash (sample_board ps) = sample_image_flash" "uart (sample_board ps) = ps"
  by (simp_all add: sample_board_def)

definition page :: "u32 \<Rightarrow> bool" where "page a \<longleftrightarrow> (\<exists>n. a = of_nat n * 0x1000)"

lemma page_add: "page a \<Longrightarrow> page b \<Longrightarrow> page (a + b)"
proof -
  assume "page a" "page b"
  then obtain n k where "a = of_nat n * 0x1000" "b = of_nat k * 0x1000" by (auto simp: page_def)
  then have "a + b = of_nat (n + k) * 0x1000" by (simp add: distrib_right)
  then show ?thesis unfolding page_def by blast
qed

lemma page_of: "page (of_nat n * 0x1000)"
  by (auto simp: page_def)

lemma search_pages: "\<forall>a \<in> set (IMAGE_ADDRS @ ROOT_ADDRS). page a"
proof -
  have base: "page FLASH_BASE" "page CODE_IMAGE_OFFSET" "page CODE_IMAGE_OFFSET2" "page CODE_IMAGE_OFFSET3"
      "page ROOT_FS_OFFSET" "page ROOT_FS_OFFSET_OP1" "page ROOT_FS_OFFSET_OP2"
    using page_of [of 720896] page_of [of 16] page_of [of 32] page_of [of 48] page_of [of 608] page_of [of 64]
    by (simp_all add: FLASH_BASE_def CODE_IMAGE_OFFSET_def CODE_IMAGE_OFFSET2_def CODE_IMAGE_OFFSET3_def ROOT_FS_OFFSET_def
        ROOT_FS_OFFSET_OP1_def ROOT_FS_OFFSET_OP2_def)
  have "page (0x10000 + of_nat k * 0x1000)" "page (0x100000 + of_nat k * 0x1000)" for k
    using page_add [OF page_of [of 16] page_of [of k]] page_add [OF page_of [of 256] page_of [of k]] by simp_all
  then have lists: "\<forall>i \<in> set LINUX_OFFSETS. page i" "\<forall>i \<in> set ROOT_OFFSETS. page i"
    by (auto simp: LINUX_OFFSETS_def ROOT_OFFSETS_def)
  have w: "\<forall>a \<in> set (window is). page a" if "\<forall>i \<in> set is. page i" for "is"
    using that page_add [OF base(1)] by (auto simp: window_def)
  show ?thesis
    unfolding IMAGE_ADDRS_def ROOT_ADDRS_def set_append ball_Un
    by (intro conjI w) (use base lists page_add in \<open>auto intro!: page_add\<close>)
qed

text \<open>Every page of the window shows one of the four pages of the chip.\<close>

lemma sample_four:
  assumes "page a"
  shows "\<exists>b \<in> {0, 0x1000, 0x2000, 0x3000}. \<forall>k. flash_mem sample_image_flash (a + of_nat k) = flash_mem sample_image_flash (b + of_nat k)"
proof -
  obtain n where n: "a = of_nat n * 0x1000" using assms by (auto simp: page_def)
  have mem: "flash_mem sample_image_flash (of_nat x + of_nat k) = buf_of sample_image ((x + k) mod 16384)" for x k
  proof -
    have "unat (of_nat x :: u32) mod 16384 = x mod 16384" by (simp add: unat_of_nat mod_mod_cancel)
    then have "(unat (of_nat x :: u32) + k) mod 16384 = (x + k) mod 16384" by (metis mod_add_left_eq)
    then show ?thesis unfolding flash_mem_add [OF sample_image_ok] by (simp add: sample_image_flash_def)
  qed
  have "(4096 * n + k) mod 16384 = (4096 * (n mod 4) + k) mod 16384" for k
  proof -
    have "4096 * n = 4096 * (n mod 4) + 16384 * (n div 4)" using mult_div_mod_eq [of 4 n] by linarith
    then have "4096 * n + k = 4096 * (n mod 4) + k + 16384 * (n div 4)" by simp
    then show ?thesis by (simp only: mod_mult_self2)
  qed
  then have "flash_mem sample_image_flash (of_nat (4096 * n) + of_nat k) = flash_mem sample_image_flash (of_nat (4096 * (n mod 4)) + of_nat k)" for k
    unfolding mem by simp
  moreover have "of_nat (4096 * n) = a" by (simp add: n)
  moreover have "of_nat (4096 * (n mod 4)) \<in> {0, 0x1000, 0x2000, 0x3000 :: u32}"
  proof -
    have "n mod 4 = 0 \<or> n mod 4 = 1 \<or> n mod 4 = 2 \<or> n mod 4 = 3" by linarith
    then show ?thesis by auto
  qed
  ultimately show ?thesis by metis
qed

lemma sample_even: "even_lengths (flash_mem sample_image_flash)"
proof -
  let ?m = "flash_mem sample_image_flash"
  have zero: "read_bytes ?m b 4 = [0, 0, 0, 0]" if "b \<in> {0x1000, 0x2000, 0x3000}" for b
    using that by (auto simp: flash_mem_def sample_image_flash_def sample_image_def buf_of_def nth_default_def ascii_sigs)
  have head: "read_header ?m 0 = read_header ?m (FLASH_BASE + CODE_IMAGE_OFFSET)"
  proof (rule read_header_cong)
    fix k
    have "unat (FLASH_BASE + CODE_IMAGE_OFFSET) = 2952855552" by (simp add: FLASH_BASE_def CODE_IMAGE_OFFSET_def)
    then have "(unat (FLASH_BASE + CODE_IMAGE_OFFSET) + k) mod 16384 = (k + 16384 * 180228) mod 16384"
      by (simp add: add.commute)
    also have "\<dots> = k mod 16384" by (rule mod_mult_self2)
    finally show "?m (0 + of_nat k) = ?m (FLASH_BASE + CODE_IMAGE_OFFSET + of_nat k)"
      unfolding flash_mem_add [OF sample_image_ok] by (simp add: sample_image_flash_def)
  qed
  have first: "read_bytes ?m 0 4 = FW_SIGNATURE"
    by (simp add: flash_mem_def sample_image_flash_def sample_image_def ascii_sigs)
  have "(system_sig ?m a \<longrightarrow> even (unat (hlen (read_header ?m a)))) \<and> \<not> rootfs_sig ?m a" if pg: "page a" for a
  proof -
    obtain b where b: "b \<in> {0, 0x1000, 0x2000, 0x3000}" "\<And>k. ?m (a + of_nat k) = ?m (b + of_nat k)"
      using sample_four [OF pg] by blast
    have h: "read_header ?m a = read_header ?m b" by (rule read_header_cong) (rule b(2))
    have r: "read_bytes ?m a 4 = read_bytes ?m b 4" by (rule read_bytes_cong) (rule b(2))
    show ?thesis
    proof (cases "b = 0")
      case True
      show ?thesis unfolding h r rootfs_sig_def True head sample_image_header first
        by (simp add: same_sig_def ascii_sigs)
    next
      case False
      then have z: "read_bytes ?m b 4 = [0, 0, 0, 0]" using b(1) zero by blast
      have "signature (read_header ?m b) = read_bytes ?m b 4" by (simp add: read_header_def)
      then show ?thesis unfolding system_sig_def rootfs_sig_def h r z
        by (simp add: same_sig_def ascii_sigs z)
    qed
  qed
  then show ?thesis using search_pages unfolding even_lengths_def by simp
qed

lemma sample_find: "find_image (flash_mem sample_image_flash) = Some (FLASH_BASE + CODE_IMAGE_OFFSET)"
  using sample_image_bootable by (simp add: find_image_def IMAGE_ADDRS_def window_def sample_image_header same_sig_def)

lemma start_kernel_boots_witness:
  "\<exists>t. start_kernel (\<lambda>_ _ _ _ _. None) no_header (sample_board [None, Some 13]) = Some t \<and> run t = Jumped 0x80500000"
  using start_kernel_boots [of "sample_board [None, Some 13]" "\<lambda>_ _ _ _ _. None" no_header] sample_even sample_image_ok
  by (auto simp: sample_find sample_image_header ESC_def Let_def)

lemma esc_stops_boot_witness:
  "\<exists>t. start_kernel (\<lambda>_ _ _ _ _. None) no_header (sample_board [Some ESC]) = goToDownMode (\<lambda>_ _ _ _ _. None) t
    \<and> ready (flash t) = ready sample_image_flash \<and> mem t = (\<lambda>_. 0) \<and> run t = Running"
  using esc_stops_boot [of "sample_board [Some ESC]" "[]" "\<lambda>_ _ _ _ _. None" no_header] sample_image_ok
  by (simp add: sample_board_def)

end
